(* ===== verification/Prelude.thy ===== *)
theory Prelude
  imports Main "HOL-Library.Word" "HOL-Library.List_Lexorder"
begin

text \<open>
  What every component of the development shares: the names of the machine types, the
  pieces of the Rust standard library the relay uses on them (\<open>try_from\<close>, \<open>saturating_add\<close>,
  \<open>saturating_sub\<close>, \<open>to_be_bytes\<close>), and the generic lemmas on lists, words and results.

  A byte is an \<^typ>\<open>8 word\<close>, a byte string a list of them, and \<open>u16\<close>, \<open>u32\<close>, \<open>u64\<close> are words
  of their width, so that wrap-around is the machine's. A \<open>usize\<close> that counts elements held
  in memory is a \<^typ>\<open>nat\<close>: its truncating subtraction is \<open>saturating_sub\<close>. A Rust
  \<open>Result<T, E>\<close> is the sum \<open>'e + 'a\<close> with the error on the left.
\<close>

unbundle bit_operations_syntax

type_synonym byte = "8 word"
type_synonym bytes = "8 word list"
type_synonym u8 = "8 word"
type_synonym u16 = "16 word"
type_synonym u32 = "32 word"
type_synonym u64 = "64 word"

named_theorems word_nat "facts that move word arithmetic to the natural numbers"

subsection \<open>The integer conversions and saturating operations of the standard library\<close>

definition try_from :: "'b::len word \<Rightarrow> 'a::len word option" where
  "try_from v = (if unat v < 2 ^ LENGTH('a) then Some (ucast v) else None)"

definition unwrap_or :: "'a option \<Rightarrow> 'a \<Rightarrow> 'a" where
  "unwrap_or r d = (case r of None \<Rightarrow> d | Some x \<Rightarrow> x)"

definition saturating_add :: "'a::len word \<Rightarrow> 'a word \<Rightarrow> 'a word" where
  "saturating_add a b = (if unat a + unat b < 2 ^ LENGTH('a) then a + b else - 1)"

definition saturating_sub :: "'a::len word \<Rightarrow> 'a word \<Rightarrow> 'a word" where
  "saturating_sub a b = (if b \<le> a then a - b else 0)"

definition to_be_bytes :: "nat \<Rightarrow> 'a::len word \<Rightarrow> bytes" where
  "to_be_bytes n v = map (\<lambda>i. ucast (drop_bit (8 * i) v)) (rev [0..<n])"

lemma unwrap_or_simps [simp]:
  "unwrap_or None d = d"
  "unwrap_or (Some x) d = x"
  by (simp_all add: unwrap_or_def)

lemma try_from_Some:
  assumes "try_from (v :: 'b::len word) = Some (w :: 'a::len word)"
  shows "v = ucast w"
proof -
  from assms have w: "w = ucast v" and lt: "unat v < 2 ^ LENGTH('a)"
    by (auto simp: try_from_def split: if_splits)
  have u: "unat w = unat v"
    by (simp only: w unsigned_ucast_eq [where w = v] take_bit_nat_eq_self lt)
  have "unat (ucast w :: 'b word) = unat v"
    by (simp only: unsigned_ucast_eq [where w = w] u take_bit_nat_eq_self unsigned_less)
  then show ?thesis
    by (simp add: word_unat_eq_iff)
qed

lemma try_from_ucast:
  assumes "LENGTH('a) \<le> LENGTH('b)"
  shows "try_from (ucast (w :: 'a::len word) :: 'b::len word) = Some w"
proof -
  have lt: "unat w < 2 ^ LENGTH('a)"
    by (rule unsigned_less)
  then have "unat w < 2 ^ LENGTH('b)"
    using assms by (meson one_le_numeral order_less_le_trans power_increasing)
  then have u: "unat (ucast w :: 'b word) = unat w"
    by (simp add: unsigned_ucast_eq take_bit_nat_eq_self)
  moreover have "unat (ucast (ucast w :: 'b word) :: 'a word) = unat w"
    by (simp only: unsigned_ucast_eq [where w = "ucast w :: 'b word"] u take_bit_nat_eq_self lt)
  then have "ucast (ucast w :: 'b word) = w"
    by (simp only: word_unat_eq_iff)
  ultimately show ?thesis
    using lt by (simp add: try_from_def)
qed

lemma word_small_take_bit: "unat w < 2 ^ n \<Longrightarrow> take_bit n w = w"
  by (simp add: word_unat_eq_iff unsigned_take_bit_eq take_bit_nat_eq_self)

lemma bit_small:
  assumes "unat w < 2 ^ n" "bit w k"
  shows "k < n"
  using assms by (metis bit_take_bit_iff word_small_take_bit)

lemma ucast_ucast_byte: "ucast (ucast (i :: byte) :: u64) = i"
  by (rule bit_eqI) (simp add: bit_simps)

lemma unat_ucast_byte: "unat (ucast (i :: byte) :: u64) = unat i"
  using unsigned_less [of i, where ?'a = nat]
  by (simp only: unsigned_ucast_eq [where w = i] take_bit_nat_eq_self_iff) simp

lemma unat_saturating_add [word_nat]:
  "unat (saturating_add a b :: 'a::len word) = min (unat a + unat b) (2 ^ LENGTH('a) - 1)"
proof (cases "unat a + unat b < 2 ^ LENGTH('a)")
  case True
  then show ?thesis
    by (simp add: saturating_add_def unat_word_ariths)
next
  case False
  moreover have "unat (- 1 :: 'a word) = 2 ^ LENGTH('a) - 1"
    by (simp only: unsigned_minus_1_eq_mask mask_eq_exp_minus_1)
  ultimately show ?thesis
    by (simp only: saturating_add_def if_False)
qed

lemma unat_saturating_sub [word_nat]: "unat (saturating_sub a b) = unat a - unat b"
  by (auto simp: saturating_sub_def unat_sub word_le_nat_alt)

subsection \<open>Big-endian byte strings\<close>

text \<open>\<open>be_step v b\<close> is one turn of the decoder's \<open>value = (value << 8) | byte\<close>; the lemmas show
  that folding it over \<open>to_be_bytes\<close> gives the value back, and the bytes back from the value.\<close>

definition be_step :: "u64 \<Rightarrow> byte \<Rightarrow> u64" where
  "be_step v b = push_bit 8 v OR ucast b"

lemma drop_be_step: 
  assumes "take_bit 56 v = v"
  shows "drop_bit 8 (be_step v b) = v"
proof (rule bit_eqI)
  fix n
  assume "possible_bit TYPE(64 word) n"
  have "bit v n \<longleftrightarrow> n < 56 \<and> bit v n"
    by (subst (1) assms [symmetric]) (simp add: bit_simps)
  then show "bit (drop_bit 8 (be_step v b)) n \<longleftrightarrow> bit v n"
    by (auto simp: bit_simps be_step_def dest: bit_imp_le_length)
qed

lemma ucast_be_step: "ucast (be_step v b) = b"
  by (rule bit_eqI) (auto simp: bit_simps be_step_def)

lemma be_step_split: "be_step (drop_bit 8 v) (ucast v) = v"
  by (rule bit_eqI) (auto simp: bit_simps be_step_def)

lemma to_be_bytes_ucast:
  assumes "8 * n \<le> LENGTH('a)"
  shows "to_be_bytes n (ucast (v::u64) :: 'a::len word) = to_be_bytes n v"
proof -
  have "ucast (drop_bit (8 * i) (ucast v :: 'a word)) = (ucast (drop_bit (8 * i) v) :: byte)" if "i < n" for i
    by (rule bit_eqI) (use assms that in \<open>auto simp: bit_simps\<close>)
  then show ?thesis
    by (simp add: to_be_bytes_def)
qed

lemma to_be_bytes_0 [simp]: "to_be_bytes 0 v = []"
  by (simp add: to_be_bytes_def)

lemma to_be_bytes_Suc:
  "to_be_bytes (Suc n) v = to_be_bytes n (drop_bit 8 v) @ [ucast v]"
proof -
  have "[0..<Suc n] = 0 # map Suc [0..<n]"
    by (simp only: map_Suc_upt upt_conv_Cons zero_less_Suc One_nat_def)
  then have "rev [0..<Suc n] = map Suc (rev [0..<n]) @ [0]"
    by (simp only: rev.simps rev_map)
  then show ?thesis
   by (simp add: to_be_bytes_def o_def add.commute del: upt_Suc)
qed

lemma length_to_be_bytes [simp]: "length (to_be_bytes n v) = n"
  by (simp add: to_be_bytes_def)

lemma foldl_be_to_be_bytes: "take_bit (8 * n) v = v \<Longrightarrow> foldl be_step 0 (to_be_bytes n v) = v"
proof (induction n arbitrary: v)
  case (Suc n)
  have "take_bit (8 * n) (drop_bit 8 v) = drop_bit 8 v"
    using Suc.prems by (metis add.commute drop_bit_take_bit add_diff_cancel_left' mult_Suc_right)
  then show ?case
    by (simp add: Suc.IH to_be_bytes_Suc be_step_split)
qed simp

lemma take_be_step: 
  assumes "take_bit k v = v" "k \<le> 56"
  shows "take_bit (8 + k) (be_step v b) = be_step v b"
proof (rule bit_eqI)
  fix n
  assume n: "possible_bit TYPE(64 word) n"
  have v: "bit v m \<longleftrightarrow> m < k \<and> bit v m" for m
    by (subst (1) assms(1) [symmetric]) (simp add: bit_simps)
  show "bit (take_bit (8 + k) (be_step v b)) n \<longleftrightarrow> bit (be_step v b) n"
    using v [of "n - 8"] by (auto simp: bit_simps be_step_def dest: bit_imp_le_length)
qed

lemma to_be_bytes_foldl_be:
  "n \<le> 8 \<Longrightarrow> length bs = n \<Longrightarrow>
     to_be_bytes n (foldl be_step 0 bs) = bs \<and>
     take_bit (8 * n) (foldl be_step 0 bs) = foldl be_step 0 bs"
proof (induction n arbitrary: bs)
  case (Suc n)
  then obtain cs b where bs: "bs = cs @ [b]" and n: "length cs = n"
    by (metis length_Suc_conv_rev)
  let ?w = "foldl be_step 0 cs"
  have IH: "to_be_bytes n ?w = cs" "take_bit (8 * n) ?w = ?w"
    using Suc n by auto
  have le: "8 * n \<le> 56"
    using Suc.prems(1) by simp
  have 56: "take_bit 56 ?w = ?w"
    by (subst (1 2) IH(2) [symmetric]) (use le in \<open>simp only: take_bit_take_bit min.absorb2\<close>)
  show ?case
    using IH take_be_step [OF IH(2) le, of b]
    by (simp add: bs to_be_bytes_Suc drop_be_step [OF 56] ucast_be_step)
qed simp

subsection \<open>Ascending lists\<close>

lemma ascending_snoc:
  "sorted_wrt (<) (xs @ [x :: 'a::linorder]) \<longleftrightarrow> sorted_wrt (<) xs \<and> (xs = [] \<or> last xs < x)"
proof (cases xs rule: rev_cases)
  case (snoc ys y)
  then show ?thesis
    by (auto simp: sorted_wrt_append intro: less_trans)
qed simp

lemma ascending_le_last: "sorted_wrt (<) xs \<Longrightarrow> x \<in> set xs \<Longrightarrow> (x :: 'a::linorder) \<le> last xs"
proof (cases xs rule: rev_cases)
  case (snoc ys y)
  then show "sorted_wrt (<) xs \<Longrightarrow> x \<in> set xs \<Longrightarrow> x \<le> last xs"
    by (auto simp: sorted_wrt_append)
qed simp

lemma ascending_append:
  assumes "sorted_wrt (<) xs" "sorted_wrt (<) ys" "\<And>y. xs \<noteq> [] \<Longrightarrow> y \<in> set ys \<Longrightarrow> last xs < y"
  shows "sorted_wrt (<) (xs @ ys :: 'a::linorder list)"
proof -
  have "x < y" if "x \<in> set xs" "y \<in> set ys" for x y
    using ascending_le_last [OF assms(1) that(1)] assms(3) [OF _ that(2)] that(1)
    by (cases "xs = []") auto
  then show ?thesis
    using assms(1,2) by (simp add: sorted_wrt_append)
qed

lemma ascending_remdups_adj: "sorted xs \<Longrightarrow> sorted_wrt (<) (remdups_adj (xs :: 'a::linorder list))"
  by (induction xs rule: remdups_adj.induct) (auto simp: order.strict_iff_order intro: order.trans)

end
