(* ===== verification/Cbor.thy ===== *)
theory Cbor
  imports Prelude
begin

text \<open>
  The relay's deterministic CBOR subset, \<open>src/backend/wealdrelay/src/cbor.rs\<close>: the encoders,
  and the \<open>Reader\<close>, a cursor over encoded bytes. A Rust \<open>&mut self\<close> read that returns a
  \<open>Result\<close> is a function from the reader to the result and the reader it leaves behind, so
  that what a failed read does to the cursor is visible. The \<open>?\<close> operator is \<open>rbind\<close>, and
  the error conversions it applies (\<open>#[from]\<close>) are \<open>rmap_err\<close>.

  A Rust \<open>String\<close> is the byte string of its UTF-8 encoding; \<open>utf8_valid\<close> is the check of
  \<open>std::str::from_utf8\<close>.
\<close>

subsection \<open>The encoders\<close>

definition MAJOR_UINT :: byte where "MAJOR_UINT = 0"
definition MAJOR_BYTES :: byte where "MAJOR_BYTES = 2"
definition MAJOR_TEXT :: byte where "MAJOR_TEXT = 3"
definition MAJOR_ARRAY :: byte where "MAJOR_ARRAY = 4"
definition MAJOR_SIMPLE :: byte where "MAJOR_SIMPLE = 7"

lemmas majors = MAJOR_UINT_def MAJOR_BYTES_def MAJOR_TEXT_def MAJOR_ARRAY_def MAJOR_SIMPLE_def

definition cbor_NULL :: bytes where "cbor_NULL = [0xf6]"
definition cbor_FALSE :: bytes where "cbor_FALSE = [0xf4]"
definition cbor_TRUE :: bytes where "cbor_TRUE = [0xf5]"

definition cbor_head :: "byte \<Rightarrow> u64 \<Rightarrow> bytes" where
  "cbor_head major value =
    (let tag = push_bit 5 major in
     if value < 24 then [tag OR unwrap_or (try_from value) 0]
     else if value \<le> 0xff then [tag OR 24, unwrap_or (try_from value) 0]
     else if value \<le> 0xffff then
       (tag OR 25) # to_be_bytes 2 (unwrap_or (try_from value) 0 :: u16)
     else if value \<le> 0xffffffff then
       (tag OR 26) # to_be_bytes 4 (unwrap_or (try_from value) 0 :: u32)
     else (tag OR 27) # to_be_bytes 8 value)"

definition cbor_uint :: "u64 \<Rightarrow> bytes" where
  "cbor_uint value = cbor_head MAJOR_UINT value"

definition cbor_bytes :: "bytes \<Rightarrow> bytes" where
  "cbor_bytes value = cbor_head MAJOR_BYTES (of_nat (length value)) @ value"

definition cbor_boolean :: "bool \<Rightarrow> bytes" where
  "cbor_boolean value = (if value then cbor_TRUE else cbor_FALSE)"

definition cbor_text :: "bytes \<Rightarrow> bytes" where
  "cbor_text value = cbor_head MAJOR_TEXT (of_nat (length value)) @ value"

definition cbor_array :: "bytes list \<Rightarrow> bytes" where
  "cbor_array items = cbor_head MAJOR_ARRAY (of_nat (length items)) @ concat items"

definition cbor_optional_bytes :: "bytes option \<Rightarrow> bytes" where
  "cbor_optional_bytes value = (case value of Some v \<Rightarrow> cbor_bytes v | None \<Rightarrow> cbor_NULL)"

subsection \<open>The reader\<close>

datatype cbor_error =
    Truncated
  | UnsupportedMajor byte
  | NonCanonicalInteger
  | ReservedAdditionalInfo byte
  | UnsupportedSimple byte
  | TypeMismatch string
  | WrongLength nat nat
  | WrongArrayCount nat nat
  | OutOfRange u64
  | TrailingBytes nat
  | InvalidUtf8

record reader =
  rd_data :: bytes
  rd_offset :: nat

type_synonym ('e, 'a) read = "reader \<Rightarrow> ('e + 'a) \<times> reader"

definition rreturn :: "'a \<Rightarrow> ('e, 'a) read" where
  "rreturn x = (\<lambda>rd. (Inr x, rd))"

definition rfail :: "'e \<Rightarrow> ('e, 'a) read" where
  "rfail e = (\<lambda>rd. (Inl e, rd))"

definition rbind :: "('e, 'a) read \<Rightarrow> ('a \<Rightarrow> ('e, 'b) read) \<Rightarrow> ('e, 'b) read" where
  "rbind m f = (\<lambda>rd. case m rd of (Inl e, rd') \<Rightarrow> (Inl e, rd') | (Inr x, rd') \<Rightarrow> f x rd')"

definition rmap_err :: "('e \<Rightarrow> 'f) \<Rightarrow> ('e, 'a) read \<Rightarrow> ('f, 'a) read" where
  "rmap_err g m = (\<lambda>rd. case m rd of (Inl e, rd') \<Rightarrow> (Inl (g e), rd') | (Inr x, rd') \<Rightarrow> (Inr x, rd'))"

text \<open>A counted \<open>for\<close> loop that pushes one read per turn.\<close>

fun rtimes :: "nat \<Rightarrow> ('e, 'a) read \<Rightarrow> ('e, 'a list) read" where
  "rtimes 0 m = rreturn []"
| "rtimes (Suc n) m = rbind m (\<lambda>x. rbind (rtimes n m) (\<lambda>xs. rreturn (x # xs)))"

definition rd_new :: "bytes \<Rightarrow> reader" where
  "rd_new data = \<lparr>rd_data = data, rd_offset = 0\<rparr>"

definition rd_is_at_end :: "reader \<Rightarrow> bool" where
  "rd_is_at_end rd \<longleftrightarrow> rd_offset rd = length (rd_data rd)"

definition rd_remaining :: "reader \<Rightarrow> nat" where
  "rd_remaining rd = length (rd_data rd) - rd_offset rd"

definition rd_finish :: "(cbor_error, unit) read" where
  "rd_finish rd =
    (if rd_is_at_end rd then (Inr (), rd) else (Inl (TrailingBytes (rd_remaining rd)), rd))"

definition rd_byte_at :: "reader \<Rightarrow> nat \<Rightarrow> cbor_error + byte" where
  "rd_byte_at rd index =
    (if index < length (rd_data rd) then Inr (rd_data rd ! index) else Inl Truncated)"

text \<open>\<open>rd_be rd index n value\<close> is the loop \<open>for index in index..index + n\<close> of \<open>read_head\<close>.\<close>

fun rd_be :: "reader \<Rightarrow> nat \<Rightarrow> nat \<Rightarrow> u64 \<Rightarrow> cbor_error + u64" where
  "rd_be rd index 0 value = Inr value"
| "rd_be rd index (Suc n) value =
    (case rd_byte_at rd (rd_offset rd + 1 + index) of
       Inl e \<Rightarrow> Inl e
     | Inr b \<Rightarrow> rd_be rd (Suc index) n (be_step value b))"

definition rd_head :: "(cbor_error, byte \<times> u64) read" where
  "rd_head rd =
    (case rd_byte_at rd (rd_offset rd) of
       Inl e \<Rightarrow> (Inl e, rd)
     | Inr initial \<Rightarrow>
         let major = drop_bit 5 initial; info = initial AND 0x1f in
         if info < 24 then (Inr (major, ucast info), rd\<lparr>rd_offset := rd_offset rd + 1\<rparr>)
         else if 28 \<le> info then (Inl (ReservedAdditionalInfo info), rd)
         else
           let width = push_bit (unat (info - 24)) (1 :: nat) in
           case rd_be rd 0 width 0 of
             Inl e \<Rightarrow> (Inl e, rd)
           | Inr value \<Rightarrow>
               let minimum = (if width = 1 then 24
                              else if width = 2 then 0xff + 1
                              else if width = 4 then 0xffff + 1
                              else 0xffffffff + 1) in
               if value < minimum then (Inl NonCanonicalInteger, rd)
               else (Inr (major, value), rd\<lparr>rd_offset := rd_offset rd + (1 + width)\<rparr>))"

definition rd_mismatch :: "byte \<Rightarrow> string \<Rightarrow> cbor_error" where
  "rd_mismatch major expected =
    (if major \<in> {MAJOR_UINT, MAJOR_BYTES, MAJOR_ARRAY, MAJOR_SIMPLE} then TypeMismatch expected
     else UnsupportedMajor major)"

definition rd_uint :: "(cbor_error, u64) read" where
  "rd_uint rd =
    (case rd_head rd of
       (Inl e, rd') \<Rightarrow> (Inl e, rd')
     | (Inr (major, argument), rd') \<Rightarrow>
         if major \<noteq> MAJOR_UINT
         then (Inl (rd_mismatch major ''unsigned integer''), rd'\<lparr>rd_offset := rd_offset rd\<rparr>)
         else (Inr argument, rd'))"

text \<open>\<open>Reader::u8\<close>, \<open>u16\<close> and \<open>u32\<close> are one text at three widths: the integer is read, the
  cursor moves, and only then is the value narrowed.\<close>

definition rd_narrow :: "(cbor_error, 'a::len word) read" where
  "rd_narrow rd =
    (case rd_uint rd of
       (Inl e, rd') \<Rightarrow> (Inl e, rd')
     | (Inr value, rd') \<Rightarrow>
         (case try_from value of None \<Rightarrow> (Inl (OutOfRange value), rd') | Some v \<Rightarrow> (Inr v, rd')))"

definition rd_u8 :: "(cbor_error, u8) read" where "rd_u8 = rd_narrow"
definition rd_u16 :: "(cbor_error, u16) read" where "rd_u16 = rd_narrow"
definition rd_u32 :: "(cbor_error, u32) read" where "rd_u32 = rd_narrow"

definition rd_bytes :: "(cbor_error, bytes) read" where
  "rd_bytes rd =
    (case rd_head rd of
       (Inl e, rd') \<Rightarrow> (Inl e, rd')
     | (Inr (major, argument), rd') \<Rightarrow>
         if major \<noteq> MAJOR_BYTES
         then (Inl (rd_mismatch major ''byte string''), rd'\<lparr>rd_offset := rd_offset rd\<rparr>)
         else if unat argument > rd_remaining rd'
         then (Inl Truncated, rd'\<lparr>rd_offset := rd_offset rd\<rparr>)
         else (Inr (take (unat argument) (drop (rd_offset rd') (rd_data rd'))),
               rd'\<lparr>rd_offset := rd_offset rd' + unat argument\<rparr>))"

definition rd_bytes_of :: "nat \<Rightarrow> (cbor_error, bytes) read" where
  "rd_bytes_of count rd =
    (case rd_bytes rd of
       (Inl e, rd') \<Rightarrow> (Inl e, rd')
     | (Inr value, rd') \<Rightarrow>
         if length value \<noteq> count
         then (Inl (WrongLength count (length value)), rd'\<lparr>rd_offset := rd_offset rd\<rparr>)
         else (Inr value, rd'))"

definition rd_boolean :: "(cbor_error, bool) read" where
  "rd_boolean rd =
    (case rd_head rd of
       (Inl e, rd') \<Rightarrow> (Inl e, rd')
     | (Inr (major, argument), rd') \<Rightarrow>
         if major \<noteq> MAJOR_SIMPLE
         then (Inl (rd_mismatch major ''boolean''), rd'\<lparr>rd_offset := rd_offset rd\<rparr>)
         else if argument = 20 then (Inr False, rd')
         else if argument = 21 then (Inr True, rd')
         else (Inl (UnsupportedSimple (unwrap_or (try_from argument) 0xff)),
               rd'\<lparr>rd_offset := rd_offset rd\<rparr>))"

definition utf8_cont :: "byte \<Rightarrow> bool" where
  "utf8_cont b \<longleftrightarrow> 0x80 \<le> b \<and> b \<le> 0xbf"

fun utf8_valid :: "bytes \<Rightarrow> bool" where
  "utf8_valid [] = True"
| "utf8_valid (a # bs) =
    (if a < 0x80 then utf8_valid bs
     else if 0xc2 \<le> a \<and> a \<le> 0xdf then
       (case bs of b # cs \<Rightarrow> utf8_cont b \<and> utf8_valid cs | [] \<Rightarrow> False)
     else if 0xe0 \<le> a \<and> a \<le> 0xef then
       (case bs of
          b # c # ds \<Rightarrow>
            utf8_cont b \<and> utf8_cont c \<and> (a = 0xe0 \<longrightarrow> 0xa0 \<le> b) \<and> (a = 0xed \<longrightarrow> b \<le> 0x9f) \<and>
            utf8_valid ds
        | _ \<Rightarrow> False)
     else if 0xf0 \<le> a \<and> a \<le> 0xf4 then
       (case bs of
          b # c # d # es \<Rightarrow>
            utf8_cont b \<and> utf8_cont c \<and> utf8_cont d \<and> (a = 0xf0 \<longrightarrow> 0x90 \<le> b) \<and>
            (a = 0xf4 \<longrightarrow> b \<le> 0x8f) \<and> utf8_valid es
        | _ \<Rightarrow> False)
     else False)"

definition rd_text :: "(cbor_error, bytes) read" where
  "rd_text rd =
    (case rd_head rd of
       (Inl e, rd') \<Rightarrow> (Inl e, rd')
     | (Inr (major, argument), rd') \<Rightarrow>
         if major \<noteq> MAJOR_TEXT
         then (Inl (rd_mismatch major ''text string''), rd'\<lparr>rd_offset := rd_offset rd\<rparr>)
         else if unat argument > rd_remaining rd'
         then (Inl Truncated, rd'\<lparr>rd_offset := rd_offset rd\<rparr>)
         else
           let value = take (unat argument) (drop (rd_offset rd') (rd_data rd')) in
           if utf8_valid value
           then (Inr value, rd'\<lparr>rd_offset := rd_offset rd' + unat argument\<rparr>)
           else (Inl InvalidUtf8, rd'\<lparr>rd_offset := rd_offset rd\<rparr>))"

definition rd_optional_bytes :: "(cbor_error, bytes option) read" where
  "rd_optional_bytes rd =
    (case rd_byte_at rd (rd_offset rd) of
       Inl e \<Rightarrow> (Inl e, rd)
     | Inr initial \<Rightarrow>
         if drop_bit 5 initial \<noteq> MAJOR_SIMPLE
         then (case rd_bytes rd of (Inl e, rd') \<Rightarrow> (Inl e, rd') | (Inr v, rd') \<Rightarrow> (Inr (Some v), rd'))
         else
           (case rd_head rd of
              (Inl e, rd') \<Rightarrow> (Inl e, rd')
            | (Inr (_, argument), rd') \<Rightarrow>
                if argument \<noteq> 22
                then (Inl (UnsupportedSimple (unwrap_or (try_from argument) 0xff)),
                      rd'\<lparr>rd_offset := rd_offset rd\<rparr>)
                else (Inr None, rd')))"

definition rd_optional_is_null :: "(cbor_error, bool) read" where
  "rd_optional_is_null rd =
    (case rd_byte_at rd (rd_offset rd) of
       Inl e \<Rightarrow> (Inl e, rd)
     | Inr initial \<Rightarrow>
         if drop_bit 5 initial \<noteq> MAJOR_SIMPLE then (Inr False, rd)
         else
           (case rd_head rd of
              (Inl e, rd') \<Rightarrow> (Inl e, rd')
            | (Inr (_, argument), rd') \<Rightarrow>
                if argument \<noteq> 22
                then (Inl (UnsupportedSimple (unwrap_or (try_from argument) 0xff)),
                      rd'\<lparr>rd_offset := rd_offset rd\<rparr>)
                else (Inr True, rd')))"

definition rd_array_header :: "(cbor_error, nat) read" where
  "rd_array_header rd =
    (case rd_head rd of
       (Inl e, rd') \<Rightarrow> (Inl e, rd')
     | (Inr (major, argument), rd') \<Rightarrow>
         if major \<noteq> MAJOR_ARRAY
         then (Inl (rd_mismatch major ''array''), rd'\<lparr>rd_offset := rd_offset rd\<rparr>)
         else if unat argument > rd_remaining rd'
         then (Inl Truncated, rd'\<lparr>rd_offset := rd_offset rd\<rparr>)
         else (Inr (unat argument), rd'))"

definition rd_array :: "nat \<Rightarrow> (cbor_error, unit) read" where
  "rd_array count rd =
    (case rd_array_header rd of
       (Inl e, rd') \<Rightarrow> (Inl e, rd')
     | (Inr got, rd') \<Rightarrow>
         if got \<noteq> count
         then (Inl (WrongArrayCount count got), rd'\<lparr>rd_offset := rd_offset rd\<rparr>)
         else (Inr (), rd'))"

end
