(* ===== verification/Codec.thy ===== *)
theory Codec
  imports Cbor
begin

text \<open>
  The proof library for the wire formats. \<open>rest\<close> is what a reader has in front of it. The two
  judgements are \<open>reads m bs x\<close>, that \<open>m\<close> reads \<open>x\<close> off any input that starts with \<open>bs\<close> and
  moves past exactly \<open>bs\<close>, and \<open>parses m P\<close>, that whenever \<open>m\<close> succeeds it moved past some
  bytes that stand in the relation \<open>P\<close> to what it returned. The first composes the encoder
  side of a round trip, the second the canonicity side; \<open>wire_codec\<close> is what a frame type gets
  from having both.
\<close>

named_theorems reads_intro "rules that compose the reads judgement"
named_theorems parses_intro "rules that compose the parses judgement"

definition rest :: "reader \<Rightarrow> bytes" where
  "rest rd = drop (rd_offset rd) (rd_data rd)"

definition advance :: "reader \<Rightarrow> nat \<Rightarrow> reader" where
  "advance rd n = rd\<lparr>rd_offset := rd_offset rd + n\<rparr>"

lemma rest_advance [simp]: "rest (advance rd n) = drop n (rest rd)"
  by (simp add: rest_def advance_def add.commute)

lemma advance_advance [simp]: "advance (advance rd m) n = advance rd (m + n)"
  by (simp add: advance_def)

lemma advance_0 [simp]: "advance rd 0 = rd"
  by (simp add: advance_def)

lemma reset_advance [simp]: "(advance rd n)\<lparr>rd_offset := rd_offset rd\<rparr> = rd"
  by (simp add: advance_def)

lemma rd_remaining_rest: "rd_remaining rd = length (rest rd)"
  by (simp add: rd_remaining_def rest_def)

lemma rd_byte_at_rest:
  "rd_byte_at rd (rd_offset rd + i) =
     (if i < length (rest rd) then Inr (rest rd ! i) else Inl Truncated)"
  by (auto simp: rd_byte_at_def rest_def)

lemma rd_be_rest:
  "rd_be rd i n v =
     (if n \<le> length (rest rd) - Suc i
      then Inr (foldl be_step v (take n (drop (Suc i) (rest rd)))) else Inl Truncated)"
proof (induction n arbitrary: i v)
  case (Suc n)
  have b: "rd_byte_at rd (Suc (rd_offset rd + i)) =
    (if Suc i < length (rest rd) then Inr (rest rd ! Suc i) else Inl Truncated)"
    using rd_byte_at_rest [of rd "Suc i"] by simp
  show ?case
  proof (cases "Suc i < length (rest rd)")
    case True
    then have "drop (Suc i) (rest rd) = rest rd ! Suc i # drop (Suc (Suc i)) (rest rd)"
      by (simp add: Cons_nth_drop_Suc)
    then show ?thesis
      using True by (auto simp: b Suc.IH)
  next
    case False
    then show ?thesis
      by (simp add: b)
  qed
qed simp

lemma rd_head_rest:
  "rd_head rd =
    (case rest rd of
       [] \<Rightarrow> (Inl Truncated, rd)
     | b # bs \<Rightarrow>
         let major = drop_bit 5 b; info = b AND 0x1f in
         if info < 24 then (Inr (major, ucast info), advance rd 1)
         else if 28 \<le> info then (Inl (ReservedAdditionalInfo info), rd)
         else
           let width = push_bit (unat (info - 24)) (1 :: nat);
               value = foldl be_step 0 (take width bs) in
           if length bs < width then (Inl Truncated, rd)
           else if value < (if width = 1 then 24 else if width = 2 then 0x100
                            else if width = 4 then 0x10000 else 0x100000000)
           then (Inl NonCanonicalInteger, rd)
           else (Inr (major, value), advance rd (1 + width)))"
  using rd_byte_at_rest [of rd 0]
  by (auto simp: rd_head_def Let_def rd_be_rest advance_def Suc_le_eq split: list.split)

lemma head_byte:
  assumes "m < 8" "i < 32"
  shows "drop_bit 5 (push_bit 5 m OR i) = (m :: byte)" "(push_bit 5 m OR i) AND 0x1f = (i :: byte)"
proof -
  have m: "bit m k \<Longrightarrow> k < 3" and i: "bit i k \<Longrightarrow> k < 5" for k
    using assms bit_small [of m 3 k] bit_small [of i 5 k] by (simp_all add: word_less_nat_alt)
  have mask: "(0x1f :: byte) = mask 5"
    by (simp add: mask_eq_exp_minus_1)
  show "drop_bit 5 (push_bit 5 m OR i) = m"
    by (rule bit_eqI) (use m i in \<open>force simp: bit_simps\<close>)
  show "(push_bit 5 m OR i) AND 0x1f = i"
    unfolding mask by (rule bit_eqI) (use m i in \<open>force simp: bit_simps\<close>)
qed

lemma head_byte_split: "push_bit 5 (drop_bit 5 b) OR (b AND 0x1f) = (b :: byte)"
proof -
  have mask: "(0x1f :: byte) = mask 5"
    by (simp add: mask_eq_exp_minus_1)
  show ?thesis
    unfolding mask by (rule bit_eqI) (auto simp: bit_simps)
qed

lemma cbor_head_be:
  "cbor_head m v =
    (if v < 24 then [push_bit 5 m OR ucast v]
     else if v \<le> 0xff then (push_bit 5 m OR 24) # to_be_bytes 1 v
     else if v \<le> 0xffff then (push_bit 5 m OR 25) # to_be_bytes 2 v
     else if v \<le> 0xffffffff then (push_bit 5 m OR 26) # to_be_bytes 4 v
     else (push_bit 5 m OR 27) # to_be_bytes 8 v)"
proof -
  have tf: "(try_from v :: 'a::len word option) = Some (ucast v)" if "unat v < 2 ^ LENGTH('a)"
    using that by (simp add: try_from_def)
  have 1: "to_be_bytes (Suc 0) v = [ucast v]"
    by (simp add: to_be_bytes_def)
  show ?thesis
    by (auto simp: cbor_head_def Let_def tf word_less_nat_alt word_le_nat_alt to_be_bytes_ucast 1)
qed

lemma length_cbor_head: "0 < length (cbor_head m v)" "length (cbor_head m v) \<le> 9"
  by (simp_all add: cbor_head_be)

lemma rd_head_wide:
  assumes "rest rd = b # to_be_bytes w v @ post" "b AND 0x1f = 24 + of_nat k" "k < 4" "w = 2 ^ k"
    "unat v < 2 ^ (8 * w)"
    "(if w = 1 then 24 else if w = 2 then 0x100 else if w = 4 then 0x10000 else 0x100000000) \<le> v"
  shows "rd_head rd = (Inr (drop_bit 5 b, v), advance rd (1 + w))"
proof -
  have fold: "foldl be_step 0 (to_be_bytes w v) = v"
    using assms(5) by (simp add: foldl_be_to_be_bytes word_small_take_bit)
  have k: "unat (of_nat k :: byte) = k"
    using assms(3) by (simp add: unat_of_nat)
  have info: "\<not> b AND 0x1f < 24" "\<not> 28 \<le> b AND 0x1f" "unat ((b AND 0x1f) - 24) = k"
    using assms(3) by (auto simp: assms(2) k word_less_nat_alt word_le_nat_alt unat_word_ariths)
  show ?thesis
    using assms(6) by (simp add: rd_head_rest assms(1) Let_def info fold assms(4) [symmetric])
qed

lemma cbor_head_wide:
  assumes "24 \<le> v"
  obtains k w where "cbor_head m v = (push_bit 5 m OR (24 + of_nat k)) # to_be_bytes w v"
    and "k < 4" and "w = 2 ^ k" and "unat v < 2 ^ (8 * w)"
    and "(if w = 1 then 24 else if w = 2 then 0x100 else if w = 4 then 0x10000 else 0x100000000) \<le> v"
proof -
  have v: "24 \<le> unat v" "unat v < 2 ^ 64"
    using assms unsigned_less [of v] by (simp_all add: word_le_nat_alt)
  consider "unat v \<le> 0xff" | "0xff < unat v" "unat v \<le> 0xffff"
    | "0xffff < unat v" "unat v \<le> 0xffffffff" | "0xffffffff < unat v"
    by linarith
  then show ?thesis
  proof cases
    case 1
    show ?thesis
      by (rule that [of 0 1]) (use 1 v in \<open>simp_all add: cbor_head_be word_less_nat_alt word_le_nat_alt\<close>)
  next
    case 2
    show ?thesis
      by (rule that [of 1 2]) (use 2 v in \<open>simp_all add: cbor_head_be word_less_nat_alt word_le_nat_alt\<close>)
  next
    case 3
    show ?thesis
      by (rule that [of 2 4]) (use 3 v in \<open>simp_all add: cbor_head_be word_less_nat_alt word_le_nat_alt\<close>)
  next
    case 4
    show ?thesis
      by (rule that [of 3 8]) (use 4 v in \<open>simp_all add: cbor_head_be word_less_nat_alt word_le_nat_alt\<close>)
  qed
qed

lemma rd_head_encoded:
  assumes "m < 8" "rest rd = cbor_head m v @ post"
  shows "rd_head rd = (Inr (m, v), advance rd (length (cbor_head m v)))"
proof (cases "v < 24")
  case True
  then have i: "(ucast v :: byte) < 24" "ucast (ucast v :: byte) = v"
    by (simp_all add: word_less_nat_alt unsigned_ucast_eq take_bit_nat_eq_self word_unat_eq_iff
        word_small_take_bit)
  then have "(ucast v :: byte) < 32"
    by (simp add: word_less_nat_alt)
  from head_byte [OF assms(1) this] show ?thesis
    using True assms(2) i by (simp add: cbor_head_be rd_head_rest Let_def del: drop_bit_or)
next
  case False
  then obtain k w where w: "cbor_head m v = (push_bit 5 m OR (24 + of_nat k)) # to_be_bytes w v"
    "k < 4" "w = 2 ^ k" "unat v < 2 ^ (8 * w)"
    "(if w = 1 then 24 else if w = 2 then 0x100 else if w = 4 then 0x10000 else 0x100000000) \<le> v"
    using cbor_head_wide [of v m] by (simp only: not_less) blast
  have "24 + of_nat k < (32 :: byte)"
    using w(2) by (simp add: word_less_nat_alt unat_word_ariths unat_of_nat)
  note b = head_byte [OF assms(1) this]
  have "rest rd = (push_bit 5 m OR (24 + of_nat k)) # to_be_bytes w v @ post"
    using assms(2) w(1) by simp
  from rd_head_wide [OF this b(2) w(2-5)] show ?thesis
    by (simp only: b w(1)) simp
qed

lemma be_value:
  assumes "length bs = w" "w \<le> 8"
  shows "to_be_bytes w (foldl be_step 0 bs) = bs" "unat (foldl be_step 0 bs) < 2 ^ (8 * w)"
proof -
  let ?v = "foldl be_step 0 bs"
  have be: "to_be_bytes w ?v = bs" "take_bit (8 * w) ?v = ?v"
    using to_be_bytes_foldl_be [OF assms(2,1)] by simp_all
  have "unat (take_bit (8 * w) ?v) < 2 ^ (8 * w)"
    by (simp add: unsigned_take_bit_eq)
  then show "unat ?v < 2 ^ (8 * w)"
    by (simp only: be)
  show "to_be_bytes w ?v = bs"
    by (rule be)
qed

lemma rd_head_decoded:
  assumes "rd_head rd = (Inr (m, v), rd')"
  shows "m < 8 \<and> (\<exists>post. rest rd = cbor_head m v @ post \<and> rd' = advance rd (length (cbor_head m v)))"
proof -
  obtain b bs where r: "rest rd = b # bs"
    using assms by (cases "rest rd") (auto simp: rd_head_rest)
  let ?info = "b AND 0x1f"
  have m: "m = drop_bit 5 b" and info: "?info < 28"
    using assms by (auto simp: rd_head_rest r Let_def word_less_nat_alt word_le_nat_alt split: if_splits)
  have b: "b = push_bit 5 m OR ?info"
    by (simp only: m head_byte_split)
  have "unat m = unat b div 2 ^ 5"
    by (simp add: m drop_bit_eq_div unat_div_distrib)
  then have m8: "m < 8"
    using unsigned_less [of b, where ?'a = nat] by (simp add: word_less_nat_alt)
  show ?thesis
  proof (cases "?info < 24")
    case True
    then have "v = ucast ?info" "rd' = advance rd 1"
      using assms by (auto simp: rd_head_rest r Let_def)
    moreover have "ucast (ucast ?info :: u64) = ?info" "(ucast ?info :: u64) < 24"
      using True by (simp_all only: ucast_ucast_byte unat_ucast_byte word_less_nat_alt) simp_all
    ultimately show ?thesis
      using b r m8 by (simp add: cbor_head_be)
  next
    case False
    define k where "k = unat (?info - 24)"
    have k: "k < 4" "?info = 24 + of_nat k"
      using False info by (auto simp: k_def unat_sub word_less_nat_alt word_le_nat_alt)
    define w where "w = (2 :: nat) ^ k"
    have dec: "w \<le> length bs" "v = foldl be_step 0 (take w bs)" "rd' = advance rd (1 + w)"
      "(if w = 1 then 24 else if w = 2 then 0x100 else if w = 4 then 0x10000 else 0x100000000) \<le> v"
      using assms False by (auto simp: rd_head_rest r Let_def k_def [symmetric] w_def [symmetric] push_bit_eq_mult split: if_splits)
    have k4: "k \<in> {0, 1, 2, 3}"
      using k(1) by auto
    then have "w \<le> 8"
      by (auto simp: w_def)
    note be = be_value [of "take w bs" w, folded dec(2), simplified dec(1) min.absorb2 length_take, OF refl this]
    have "b # take w bs = cbor_head m v"
      using k4 b be dec(4) k(2)
      by (auto simp: cbor_head_be w_def word_less_nat_alt word_le_nat_alt)
    then show ?thesis
      using m8 r dec by (metis append_Cons append_take_drop_id length_Cons length_take min.absorb2 plus_1_eq_Suc)
  qed
qed

subsection \<open>The judgements\<close>

definition reads :: "('e, 'a) read \<Rightarrow> bytes \<Rightarrow> 'a \<Rightarrow> bool" where
  "reads m bs x \<longleftrightarrow> (\<forall>rd post. rest rd = bs @ post \<longrightarrow> m rd = (Inr x, advance rd (length bs)))"

definition parses :: "('e, 'a) read \<Rightarrow> (bytes \<Rightarrow> 'a \<Rightarrow> bool) \<Rightarrow> bool" where
  "parses m P \<longleftrightarrow>
    (\<forall>rd x rd'. m rd = (Inr x, rd') \<longrightarrow>
       (\<exists>bs post. rest rd = bs @ post \<and> rd' = advance rd (length bs) \<and> P bs x))"

definition atomic :: "('e, 'a) read \<Rightarrow> bool" where
  "atomic m \<longleftrightarrow> (\<forall>rd e rd'. m rd = (Inl e, rd') \<longrightarrow> rd' = rd)"

lemma readsD: "reads m bs x \<Longrightarrow> rest rd = bs @ post \<Longrightarrow> m rd = (Inr x, advance rd (length bs))"
  by (simp add: reads_def)

lemma parsesE:
  assumes "parses m P" "m rd = (Inr x, rd')"
  obtains bs post where "rest rd = bs @ post" "rd' = advance rd (length bs)" "P bs x"
  using assms unfolding parses_def by blast

lemma atomicD: "atomic m \<Longrightarrow> m rd = (Inl e, rd') \<Longrightarrow> rd' = rd"
  by (simp add: atomic_def)

lemma reads_return [reads_intro]: "reads (rreturn x) [] x"
  by (simp add: reads_def rreturn_def)

lemma reads_returnI: "x = y \<Longrightarrow> reads (rreturn x) [] y"
  by (simp add: reads_return)

lemma reads_bind:
  assumes "reads m bs x" "reads (f x) cs y"
  shows "reads (rbind m f) (bs @ cs) y"
  unfolding reads_def
proof (intro allI impI)
  fix rd post
  assume "rest rd = (bs @ cs) @ post"
  then have "m rd = (Inr x, advance rd (length bs))"
    "f x (advance rd (length bs)) = (Inr y, advance rd (length bs + length cs))"
    using readsD [OF assms(1), of rd "cs @ post"]
      readsD [OF assms(2), of "advance rd (length bs)" post] by auto
  then show "rbind m f rd = (Inr y, advance rd (length (bs @ cs)))"
    by (simp add: rbind_def)
qed

lemma reads_wrap: "reads m bs x \<Longrightarrow> reads (rbind m (\<lambda>x. rreturn (k x))) bs (k x)"
  using reads_bind [of m bs x "\<lambda>x. rreturn (k x)" "[]" "k x"] by (simp add: reads_return)

lemma reads_map_err [reads_intro]: "reads m bs x \<Longrightarrow> reads (rmap_err g m) bs x"
  by (auto simp: reads_def rmap_err_def)

lemma reads_times [reads_intro]:
  "list_all2 (reads m) bss xs \<Longrightarrow> reads (rtimes (length xs) m) (concat bss) xs"
proof (induction rule: list_all2_induct)
  case (Cons b bss x xs)
  have "reads (rbind (rtimes (length xs) m) (\<lambda>xs. rreturn (x # xs))) (concat bss @ []) (x # xs)"
    by (rule reads_bind [OF Cons.IH reads_return])
  then show ?case
    using reads_bind [OF Cons.hyps(1)] by simp
qed (simp add: reads_return)

lemma parses_return: "R [] x \<Longrightarrow> parses (rreturn x) R"
  by (auto simp: parses_def rreturn_def intro: exI [where x = "[]"])

lemma parses_fail: "parses (rfail e) R"
  by (simp add: parses_def rfail_def)

lemma parses_mono: "parses m P \<Longrightarrow> (\<And>bs x. P bs x \<Longrightarrow> Q bs x) \<Longrightarrow> parses m Q"
  unfolding parses_def by blast

lemma parses_bind:
  assumes "parses m P" "\<And>x bs. P bs x \<Longrightarrow> parses (f x) (\<lambda>cs y. R (bs @ cs) y)"
  shows "parses (rbind m f) R"
  unfolding parses_def
proof (intro allI impI)
  fix rd y rd'
  assume "rbind m f rd = (Inr y, rd')"
  then obtain x rd1 where m: "m rd = (Inr x, rd1)" and f: "f x rd1 = (Inr y, rd')"
    by (auto simp: rbind_def split: prod.splits sum.splits)
  from parsesE [OF assms(1) m] obtain bs p1 where 1:
    "rest rd = bs @ p1" "rd1 = advance rd (length bs)" "P bs x" .
  from parsesE [OF assms(2) [OF 1(3)] f] obtain cs p2 where 2:
    "rest rd1 = cs @ p2" "rd' = advance rd1 (length cs)" "R (bs @ cs) y" .
  show "\<exists>bs post. rest rd = bs @ post \<and> rd' = advance rd (length bs) \<and> R bs y"
    using 1 2 by (intro exI [where x = "bs @ cs"] exI [where x = p2]) simp
qed

lemma parses_wrap:
  assumes "parses m P" "\<And>bs x. P bs x \<Longrightarrow> Q bs (k x)"
  shows "parses (rbind m (\<lambda>x. rreturn (k x))) Q"
  by (rule parses_bind [OF assms(1)], rule parses_return) (simp add: assms(2))

lemma parses_if: "(b \<Longrightarrow> parses m R) \<Longrightarrow> (\<not> b \<Longrightarrow> parses n R) \<Longrightarrow> parses (if b then m else n) R"
  by simp

lemma parses_map_err [parses_intro]: "parses m P \<Longrightarrow> parses (rmap_err g m) P"
  by (auto simp: parses_def rmap_err_def split: prod.splits sum.splits)

lemma parses_times [parses_intro]:
  assumes "parses m P"
  shows "parses (rtimes n m) (\<lambda>bs xs. length xs = n \<and> (\<exists>bss. bs = concat bss \<and> list_all2 P bss xs))"
proof (induction n)
  case 0
  show ?case
    by (auto intro!: parses_return exI [where x = "[]"])
next
  case (Suc n)
  show ?case
  proof (simp only: rtimes.simps, rule parses_bind [OF assms], rule parses_bind [OF Suc.IH], rule parses_return)
    fix x b xs bs
    assume "P b x" "length xs = n \<and> (\<exists>bss. bs = concat bss \<and> list_all2 P bss xs)"
    then obtain bss where "length xs = n" "bs = concat bss" "list_all2 P (b # bss) (x # xs)"
      by auto
    then show "length (x # xs) = Suc n \<and> (\<exists>bss. b @ bs @ [] = concat bss \<and> list_all2 P bss (x # xs))"
      by (auto intro!: exI [where x = "b # bss"])
  qed
qed

subsection \<open>The primitive reads\<close>

lemma major_less [simp]: "MAJOR_UINT < 8" "MAJOR_BYTES < 8" "MAJOR_TEXT < 8" "MAJOR_ARRAY < 8"
  "MAJOR_SIMPLE < 8"
  by (simp_all add: majors)

lemma atomic_head: "atomic rd_head"
  by (auto simp: atomic_def rd_head_rest Let_def split: list.splits if_splits)

lemma rd_head_Inl: "rd_head rd = (Inl e, rd') \<Longrightarrow> rd' = rd"
  by (rule atomicD [OF atomic_head])

lemma rd_head_Inr:
  assumes "rd_head rd = (Inr (m, v), rd')"
  obtains post where "rest rd = cbor_head m v @ post" "rd' = advance rd (length (cbor_head m v))"
    "m < 8"
  using rd_head_decoded [OF assms] by auto

text \<open>A length or count that its head can carry.\<close>

definition fits :: "nat \<Rightarrow> bool" where
  "fits n \<longleftrightarrow> n < 2 ^ 64"

lemma unat_of_nat_fits: "fits n \<Longrightarrow> unat (of_nat n :: u64) = n"
  by (simp add: fits_def unat_of_nat)

lemma fits_unat: "fits (unat (v :: u64))"
  using unsigned_less [of v, where ?'a = nat] by (simp add: fits_def)

lemma fits_small: "n < 1000 \<Longrightarrow> fits n"
  by (simp add: fits_def)

lemma fits_mono: "fits n \<Longrightarrow> m \<le> n \<Longrightarrow> fits m"
  by (simp add: fits_def)

lemma reads_uint [reads_intro]: "reads rd_uint (cbor_uint v) v"
  by (auto simp: reads_def rd_uint_def cbor_uint_def rd_head_encoded [OF major_less(1)])

lemma parses_uint [parses_intro]: "parses rd_uint (\<lambda>bs v. bs = cbor_uint v)"
  by (auto simp: parses_def rd_uint_def cbor_uint_def split: prod.splits sum.splits if_splits
      elim!: rd_head_Inr)

lemma reads_narrow:
  assumes "LENGTH('a::len) \<le> 64"
  shows "reads rd_narrow (cbor_uint (ucast v)) (v :: 'a word)"
  using readsD [OF reads_uint] assms by (auto simp: reads_def rd_narrow_def try_from_ucast)

lemma parses_narrow: "parses rd_narrow (\<lambda>bs v. bs = cbor_uint (ucast v))"
  unfolding parses_def rd_narrow_def
  by (auto split: prod.splits sum.splits option.splits dest!: try_from_Some elim!: parsesE [OF parses_uint])

lemmas reads_u8 [reads_intro] = reads_narrow [where ?'a = 8, folded rd_u8_def, simplified]
lemmas reads_u16 [reads_intro] = reads_narrow [where ?'a = 16, folded rd_u16_def, simplified]
lemmas reads_u32 [reads_intro] = reads_narrow [where ?'a = 32, folded rd_u32_def, simplified]
lemmas parses_u8 [parses_intro] = parses_narrow [where ?'a = 8, folded rd_u8_def]
lemmas parses_u16 [parses_intro] = parses_narrow [where ?'a = 16, folded rd_u16_def]
lemmas parses_u32 [parses_intro] = parses_narrow [where ?'a = 32, folded rd_u32_def]

text \<open>A byte string and a text string share their head and length rule.\<close>

lemma string_encoded:
  assumes "M < 8" "fits (length v)" "rest rd = cbor_head M (of_nat (length v)) @ v @ post"
  obtains rd1 where "rd_head rd = (Inr (M, of_nat (length v)), rd1)" "rest rd1 = v @ post"
    "rd1 = advance rd (length (cbor_head M (of_nat (length v))))" "unat (of_nat (length v) :: u64) = length v"
  using rd_head_encoded [OF assms(1,3)] assms(2,3) unat_of_nat_fits by auto

lemma string_decoded:
  assumes "rd_head rd = (Inr (M, n), rd1)" "unat n \<le> length (rest rd1)"
    "v = take (unat n) (rest rd1)" "rd' = advance rd1 (unat n)"
  shows "\<exists>post. rest rd = (cbor_head M (of_nat (length v)) @ v) @ post \<and>
    rd' = advance rd (length (cbor_head M (of_nat (length v)) @ v)) \<and> fits (length v)"
proof -
  from assms(2,3) have n: "length v = unat n"
    by simp
  then have of_n: "of_nat (length v) = n"
    by simp
  from assms(1) obtain post where "rest rd = cbor_head M n @ post"
    "rd1 = advance rd (length (cbor_head M n))"
    by (rule rd_head_Inr)
  then show ?thesis
    using assms(3,4) n of_n fits_unat [of n] by (auto simp: append_take_drop_id intro: exI [where x = "drop (unat n) post"])
qed

lemma rest_fold: "drop (rd_offset rd) (rd_data rd) = rest rd"
  "rd\<lparr>rd_offset := rd_offset rd + n\<rparr> = advance rd n"
  by (simp_all add: rest_def advance_def)

lemma reads_bytes [reads_intro]: "fits (length v) \<Longrightarrow> reads rd_bytes (cbor_bytes v) v"
  by (auto simp: reads_def cbor_bytes_def rd_bytes_def rd_remaining_rest rest_fold
      elim!: string_encoded [OF major_less(2)])

lemma parses_bytes [parses_intro]:
  "parses rd_bytes (\<lambda>bs v. bs = cbor_bytes v \<and> fits (length v))"
  unfolding parses_def
proof (intro allI impI)
  fix rd v rd'
  assume "rd_bytes rd = (Inr v, rd')"
  then obtain n rd1 where "rd_head rd = (Inr (MAJOR_BYTES, n), rd1)"
    "unat n \<le> length (rest rd1)" "v = take (unat n) (rest rd1)" "rd' = advance rd1 (unat n)"
    by (auto simp: rd_bytes_def rd_remaining_rest rest_fold split: prod.splits sum.splits if_splits)
  from string_decoded [OF this] show "\<exists>bs post. rest rd = bs @ post \<and>
    rd' = advance rd (length bs) \<and> bs = cbor_bytes v \<and> fits (length v)"
    unfolding cbor_bytes_def by blast
qed

lemma reads_text [reads_intro]:
  "fits (length v) \<Longrightarrow> utf8_valid v \<Longrightarrow> reads rd_text (cbor_text v) v"
  by (auto simp: reads_def cbor_text_def rd_text_def rd_remaining_rest rest_fold
      elim!: string_encoded [OF major_less(3)])

lemma parses_text [parses_intro]:
  "parses rd_text (\<lambda>bs v. bs = cbor_text v \<and> fits (length v) \<and> utf8_valid v)"
  unfolding parses_def
proof (intro allI impI)
  fix rd v rd'
  assume "rd_text rd = (Inr v, rd')"
  then obtain n rd1 where r: "rd_head rd = (Inr (MAJOR_TEXT, n), rd1)"
    "unat n \<le> length (rest rd1)" "v = take (unat n) (rest rd1)" "rd' = advance rd1 (unat n)"
    and "utf8_valid v"
    by (auto simp: rd_text_def rd_remaining_rest rest_fold Let_def split: prod.splits sum.splits if_splits)
  with string_decoded [OF r] show "\<exists>bs post. rest rd = bs @ post \<and>
    rd' = advance rd (length bs) \<and> bs = cbor_text v \<and> fits (length v) \<and> utf8_valid v"
    unfolding cbor_text_def by blast
qed

lemma reads_bytes_of [reads_intro]:
  "length v = n \<Longrightarrow> fits n \<Longrightarrow> reads (rd_bytes_of n) (cbor_bytes v) v"
  using readsD [OF reads_bytes] by (fastforce simp: reads_def rd_bytes_of_def)

lemma parses_bytes_of [parses_intro]:
  "parses (rd_bytes_of n) (\<lambda>bs v. bs = cbor_bytes v \<and> length v = n \<and> fits n)"
  unfolding parses_def rd_bytes_of_def
  by (auto split: prod.splits sum.splits if_splits elim!: parsesE [OF parses_bytes])

lemma simple_byte: "cbor_NULL = cbor_head MAJOR_SIMPLE 22" "cbor_FALSE = cbor_head MAJOR_SIMPLE 20"
  "cbor_TRUE = cbor_head MAJOR_SIMPLE 21"
  by (simp_all add: cbor_NULL_def cbor_FALSE_def cbor_TRUE_def cbor_head_be MAJOR_SIMPLE_def)

lemma reads_boolean [reads_intro]: "reads rd_boolean (cbor_boolean v) v"
  by (auto simp: reads_def rd_boolean_def cbor_boolean_def simple_byte rd_head_encoded [OF major_less(5)])

lemma parses_boolean [parses_intro]: "parses rd_boolean (\<lambda>bs v. bs = cbor_boolean v)"
  by (auto simp: parses_def rd_boolean_def cbor_boolean_def simple_byte
      split: prod.splits sum.splits if_splits elim!: rd_head_Inr)

lemma rd_head_major:
  "rd_head rd = (Inr (m, v), rd') \<Longrightarrow> rd_byte_at rd (rd_offset rd) = Inr b \<Longrightarrow> drop_bit 5 b = m"
  by (auto simp: rd_head_def Let_def split: sum.splits if_splits)

lemma rd_head_byte_at:
  "rd_head rd = (Inr (m, v), rd') \<Longrightarrow> \<exists>b. rd_byte_at rd (rd_offset rd) = Inr b \<and> drop_bit 5 b = m"
  by (auto simp: rd_head_def Let_def split: sum.splits if_splits)

lemma byte_at_encoded:
  assumes "m < 8" "rest rd = cbor_head m v @ post"
  obtains b where "rd_byte_at rd (rd_offset rd) = Inr b" "drop_bit 5 b = m"
  using rd_head_byte_at [OF rd_head_encoded [OF assms]] by auto

lemma null_encoded:
  assumes "rest rd = cbor_NULL @ post"
  obtains b where "rd_byte_at rd (rd_offset rd) = Inr b" "drop_bit 5 b = MAJOR_SIMPLE"
    "rd_head rd = (Inr (MAJOR_SIMPLE, 22), advance rd (length cbor_NULL))"
  using assms rd_head_encoded [OF major_less(5)] byte_at_encoded [OF major_less(5)]
  unfolding simple_byte by blast

lemma null_decoded:
  assumes "rd_byte_at rd (rd_offset rd) = Inr b" "drop_bit 5 b = MAJOR_SIMPLE"
    "rd_head rd = (Inr (m, 22), rd')"
  obtains post where "rest rd = cbor_NULL @ post" "rd' = advance rd (length cbor_NULL)"
  using rd_head_major [OF assms(3,1)] rd_head_Inr [OF assms(3)] assms(2)
  unfolding simple_byte by auto

lemma reads_optional_bytes [reads_intro]:
  assumes "\<And>v. ov = Some v \<Longrightarrow> fits (length v)"
  shows "reads rd_optional_bytes (cbor_optional_bytes ov) ov"
proof (cases ov)
  case None
  show ?thesis
    unfolding reads_def cbor_optional_bytes_def None
    by (auto simp: rd_optional_bytes_def elim!: null_encoded)
next
  case (Some v)
  show ?thesis
    unfolding reads_def
  proof (intro allI impI)
    fix rd post
    assume r: "rest rd = cbor_optional_bytes ov @ post"
    then obtain b where "rd_byte_at rd (rd_offset rd) = Inr b" "drop_bit 5 b = MAJOR_BYTES"
      by (auto simp: Some cbor_optional_bytes_def cbor_bytes_def elim: byte_at_encoded [OF major_less(2)])
    moreover have "rd_bytes rd = (Inr v, advance rd (length (cbor_bytes v)))"
      using r assms by (auto simp: Some cbor_optional_bytes_def intro!: readsD [OF reads_bytes])
    ultimately show "rd_optional_bytes rd = (Inr ov, advance rd (length (cbor_optional_bytes ov)))"
      by (simp add: rd_optional_bytes_def Some cbor_optional_bytes_def majors)
  qed
qed

lemma parses_optional_bytes [parses_intro]:
  "parses rd_optional_bytes (\<lambda>bs ov. bs = cbor_optional_bytes ov \<and> (\<forall>v. ov = Some v \<longrightarrow> fits (length v)))"
  unfolding parses_def rd_optional_bytes_def cbor_optional_bytes_def
  by (auto split: prod.splits sum.splits if_splits elim!: parsesE [OF parses_bytes] null_decoded)

text \<open>\<open>optional_is_null\<close> looks at the next item without taking it, so what it reads when the
  answer is no depends on what follows.\<close>

lemma reads_bind_null:
  assumes "reads (f True) bs y"
  shows "reads (rbind rd_optional_is_null f) (cbor_NULL @ bs) y"
proof (rule reads_bind [where x = True])
  show "reads rd_optional_is_null cbor_NULL True"
    by (auto simp: reads_def rd_optional_is_null_def elim!: null_encoded)
qed (rule assms)

lemma reads_bind_not_null:
  assumes "reads (f False) (cbor_head m v @ bs) y" "m < 8" "m \<noteq> MAJOR_SIMPLE"
  shows "reads (rbind rd_optional_is_null f) (cbor_head m v @ bs) y"
  unfolding reads_def
proof (intro allI impI)
  fix rd post
  assume r: "rest rd = (cbor_head m v @ bs) @ post"
  then obtain b where "rd_byte_at rd (rd_offset rd) = Inr b" "drop_bit 5 b = m"
    by (auto elim: byte_at_encoded [OF assms(2)])
  then show "rbind rd_optional_is_null f rd = (Inr y, advance rd (length (cbor_head m v @ bs)))"
    using readsD [OF assms(1) r] assms(3) by (simp add: rbind_def rd_optional_is_null_def)
qed

lemma parses_optional_is_null [parses_intro]:
  "parses rd_optional_is_null (\<lambda>bs isnull. bs = (if isnull then cbor_NULL else []))"
  unfolding parses_def rd_optional_is_null_def
  by (auto split: prod.splits sum.splits if_splits elim!: null_decoded)

lemma parses_array_header [parses_intro]:
  "parses rd_array_header (\<lambda>bs n. bs = cbor_head MAJOR_ARRAY (of_nat n) \<and> fits n)"
  unfolding parses_def rd_array_header_def
  by (auto simp: fits_unat split: prod.splits sum.splits if_splits elim!: rd_head_Inr)

lemma parses_array [parses_intro]:
  "parses (rd_array n) (\<lambda>bs _. bs = cbor_head MAJOR_ARRAY (of_nat n) \<and> fits n)"
  unfolding parses_def rd_array_def
  by (auto split: prod.splits sum.splits if_splits elim!: parsesE [OF parses_array_header])

subsection \<open>One step of a decoder\<close>

text \<open>A decoder is a chain of reads, each under the error conversion of its \<open>?\<close>. These rules take
  one read off the chain: on the encoder side together with the bytes it consumes, on the
  decoder side recording them in front of what is still to be parsed.\<close>

lemma reads_step:
  assumes "reads m bs x" "reads (f x) cs y"
  shows "reads (rbind (rmap_err g m) f) (bs @ cs) y"
  by (rule reads_bind [where x = x]) (auto intro: reads_map_err assms)

lemma reads_last:
  assumes "reads m bs x" "reads (f x) [] y"
  shows "reads (rbind (rmap_err g m) f) bs y"
  using reads_step [of m bs x f "[]" y g] assms by simp

lemmas reads_steps =
  reads_uint [THEN reads_step] reads_u8 [THEN reads_step] reads_u16 [THEN reads_step]
  reads_u32 [THEN reads_step] reads_bytes [THEN reads_step] reads_bytes_of [THEN reads_step]
  reads_text [THEN reads_step] reads_boolean [THEN reads_step] reads_optional_bytes [THEN reads_step]
  reads_uint [THEN reads_last] reads_u8 [THEN reads_last] reads_u16 [THEN reads_last]
  reads_u32 [THEN reads_last] reads_bytes [THEN reads_last] reads_bytes_of [THEN reads_last]
  reads_text [THEN reads_last] reads_boolean [THEN reads_last] reads_optional_bytes [THEN reads_last]
  reads_returnI

lemma parses_step:
  assumes "parses m P" "\<And>x bs. P bs x \<Longrightarrow> parses (f x) (\<lambda>cs y. R (bs @ cs) y)"
  shows "parses (rbind (rmap_err g m) f) R"
  by (rule parses_bind [OF parses_map_err]) (rule assms)+

lemmas parses_steps =
  parses_uint [THEN parses_step] parses_u8 [THEN parses_step] parses_u16 [THEN parses_step]
  parses_u32 [THEN parses_step] parses_bytes [THEN parses_step] parses_bytes_of [THEN parses_step]
  parses_text [THEN parses_step] parses_boolean [THEN parses_step]
  parses_optional_bytes [THEN parses_step] parses_optional_is_null [THEN parses_step]
  parses_array [THEN parses_step]
  parses_array_header [THEN parses_step] parses_if parses_fail parses_return

lemma cbor_nonempty [simp]:
  "cbor_head m v \<noteq> []" "cbor_uint v \<noteq> []" "cbor_bytes b \<noteq> []" "cbor_text b \<noteq> []"
  "cbor_boolean t \<noteq> []" "cbor_optional_bytes ob \<noteq> []" "cbor_array items \<noteq> []"
  using length_cbor_head(1) [of _ v]
  by (auto simp: cbor_uint_def cbor_bytes_def cbor_text_def cbor_boolean_def cbor_TRUE_def
      cbor_FALSE_def cbor_NULL_def cbor_optional_bytes_def cbor_array_def cbor_head_be split: option.split)

lemmas cbor_nonempty_sym [simp] = cbor_nonempty [symmetric]

lemma length_concat_nonempty: "\<forall>b\<in>set bss. b \<noteq> [] \<Longrightarrow> length bss \<le> length (concat bss)"
proof (induction bss)
  case (Cons b bss)
  then show ?case
    by (cases b) auto
qed simp

text \<open>An array header is read before the items it counts, and it refuses a count larger than the
  bytes that remain, so its rule needs the items in view.\<close>

lemma rd_array_header_encoded:
  assumes "rest rd = cbor_array items @ post" "\<forall>b\<in>set items. b \<noteq> []" "fits (length items)"
  obtains rd' where "rd_array_header rd = (Inr (length items), rd')" "rest rd' = concat items @ post"
    "rd' = advance rd (length (cbor_head MAJOR_ARRAY (of_nat (length items))))"
proof -
  let ?h = "cbor_head MAJOR_ARRAY (of_nat (length items))"
  have "rd_head rd = (Inr (MAJOR_ARRAY, of_nat (length items)), advance rd (length ?h))"
    using assms(1) by (simp add: rd_head_encoded cbor_array_def)
  moreover have "length items \<le> length (concat items)"
    by (rule length_concat_nonempty [OF assms(2)])
  ultimately have "rd_array_header rd = (Inr (length items), advance rd (length ?h))"
    using assms(1) by (simp add: rd_array_header_def rd_remaining_rest cbor_array_def
        unat_of_nat_fits [OF assms(3)])
  then show ?thesis
    using that assms(1) by (simp add: cbor_array_def)
qed

lemma reads_header_step:
  assumes "reads (f n) (concat items @ cs) y" "\<forall>b\<in>set items. b \<noteq> []" "fits (length items)"
    "n = length items"
  shows "reads (rbind (rmap_err g rd_array_header) f) (cbor_array items @ cs) y"
  unfolding reads_def
proof (intro allI impI)
  fix rd post
  assume "rest rd = (cbor_array items @ cs) @ post"
  then have "rest rd = cbor_array items @ cs @ post"
    by simp
  then obtain rd' where "rd_array_header rd = (Inr n, rd')" "rest rd' = concat items @ cs @ post"
    "rd' = advance rd (length (cbor_head MAJOR_ARRAY (of_nat (length items))))"
    using assms(2-4) by (blast elim: rd_array_header_encoded)
  then show "rbind (rmap_err g rd_array_header) f rd =
      (Inr y, advance rd (length (cbor_array items @ cs)))"
    using readsD [OF assms(1), of rd' post]
    by (simp add: rbind_def rmap_err_def cbor_array_def add.assoc)
qed

lemma reads_array_step:
  assumes "reads (f ()) (concat items @ cs) y" "\<forall>b\<in>set items. b \<noteq> []" "fits (length items)"
    "n = length items"
  shows "reads (rbind (rmap_err g (rd_array n)) f) (cbor_array items @ cs) y"
proof -
  have "rbind (rmap_err g (rd_array n)) f rd = rbind (rmap_err g rd_array_header) (\<lambda>_. f ()) rd"
    if r: "rest rd = (cbor_array items @ cs) @ post" for rd post
  proof -
    from r have "rest rd = cbor_array items @ cs @ post"
      by simp
    then obtain rd' where "rd_array_header rd = (Inr n, rd')"
      using assms(2-4) by (blast elim: rd_array_header_encoded)
    then show ?thesis
      by (simp add: rbind_def rmap_err_def rd_array_def)
  qed
  moreover have "reads (rbind (rmap_err g rd_array_header) (\<lambda>_. f ())) (cbor_array items @ cs) y"
    by (rule reads_header_step) (rule assms)+
  ultimately show ?thesis
    by (simp only: reads_def) auto
qed

lemma reads_list_step:
  assumes "list_all2 (reads m) items xs" "reads (f xs) cs y" "\<forall>b\<in>set items. b \<noteq> []"
    "fits (length items)"
  shows "reads (rbind (rmap_err g rd_array_header) (\<lambda>n. rbind (rtimes n m) f)) (cbor_array items @ cs) y"
proof (rule reads_header_step)
  have "length items = length xs"
    by (rule list_all2_lengthD [OF assms(1)])
  then show "reads (rbind (rtimes (length items) m) f) (concat items @ cs) y"
    using reads_bind [where f = f and x = xs, OF reads_times [OF assms(1)] assms(2)] by simp
qed (use assms in auto)

text \<open>A two-item array whose first item is a form number and whose second is that form's fields.\<close>

lemma reads_form:
  assumes "reads (f form) fs y" "fs \<noteq> []"
  shows "reads (rbind (rmap_err g (rd_array 2)) (\<lambda>_. rbind (rmap_err h rd_u8) f))
    (cbor_array [cbor_uint (ucast form), fs]) y"
  using reads_array_step [where items = "[cbor_uint (ucast form), fs]" and cs = "[]" and n = 2 and g = g
      and f = "\<lambda>_. rbind (rmap_err h rd_u8) f", simplified, OF reads_step [where f = f and x = form and cs = fs and y = y, OF reads_u8 assms(1)]] assms(2)
  by (simp add: fits_def)

lemmas reads_arrays = reads_array_step reads_array_step [where cs = "[]", unfolded append_Nil2]
lemmas reads_lists = reads_list_step reads_list_step [where cs = "[]", unfolded append_Nil2]

subsection \<open>Whole messages\<close>

text \<open>Every decoder of the relay reads a body, calls \<open>finish\<close>, and returns what it read;
  \<open>g\<close> is the conversion its \<open>?\<close> applies to a \<open>CborError\<close>.\<close>

definition rd_whole :: "(cbor_error \<Rightarrow> 'e) \<Rightarrow> ('e, 'a) read \<Rightarrow> bytes \<Rightarrow> 'e + 'a" where
  "rd_whole g body data =
    fst (rbind body (\<lambda>x. rbind (rmap_err g rd_finish) (\<lambda>_. rreturn x)) (rd_new data))"

lemma rest_new [simp]: "rest (rd_new data) = data"
  by (simp add: rest_def rd_new_def)

lemma rd_finish_new:
  "n \<le> length data \<Longrightarrow>
    rd_finish (advance (rd_new data) n) =
      (if n = length data then Inr () else Inl (TrailingBytes (length data - n)), advance (rd_new data) n)"
  by (simp add: rd_finish_def rd_is_at_end_def rd_remaining_def advance_def rd_new_def)

lemma rd_whole_encoded: "reads body bs x \<Longrightarrow> rd_whole g body bs = Inr x"
  using readsD [of body bs x "rd_new bs" "[]"] rd_finish_new [of "length bs" bs]
  by (simp add: rd_whole_def rbind_def rmap_err_def rreturn_def)

lemma rd_whole_decoded:
  assumes "parses body P" "rd_whole g body data = Inr x"
  shows "P data x"
proof -
  obtain rd where b: "body (rd_new data) = (Inr x, rd)" and f: "fst (rd_finish rd) = Inr ()"
    using assms(2)
    by (auto simp: rd_whole_def rbind_def rmap_err_def rreturn_def split: prod.splits sum.splits)
  from parsesE [OF assms(1) b] obtain bs post where
    "data = bs @ post" "rd = advance (rd_new data) (length bs)" "P bs x"
    by auto
  then show ?thesis
    using f rd_finish_new [of "length bs" data] by (auto split: if_splits)
qed

text \<open>What a wire format promises: every well-formed value survives the trip, and the decoder
  accepts nothing but the one encoding of a well-formed value.\<close>

locale wire_codec =
  fixes enc :: "'a \<Rightarrow> bytes" and dec :: "bytes \<Rightarrow> 'e + 'a" and valid :: "'a \<Rightarrow> bool"
  assumes dec_enc: "valid x \<Longrightarrow> dec (enc x) = Inr x"
    and dec_sound: "dec bs = Inr x \<Longrightarrow> valid x \<and> bs = enc x"
begin

lemma dec_iff: "dec bs = Inr x \<longleftrightarrow> valid x \<and> bs = enc x"
  using dec_enc dec_sound by auto

lemma enc_inj: "valid x \<Longrightarrow> valid y \<Longrightarrow> enc x = enc y \<Longrightarrow> x = y"
  using dec_enc by (metis sum.inject(2))

lemma dec_refuses_iff: "(\<exists>e. dec bs = Inl e) \<longleftrightarrow> (\<forall>x. valid x \<longrightarrow> bs \<noteq> enc x)"
  using dec_iff by (metis Inl_Inr_False obj_sumE)

end

lemma wire_codecI:
  assumes "\<And>x. valid x \<Longrightarrow> reads body (enc x) x" "parses body (\<lambda>bs x. valid x \<and> bs = enc x)"
  shows "wire_codec enc (rd_whole g body) valid"
  using assms by unfold_locales (auto intro: rd_whole_encoded dest: rd_whole_decoded)

subsection \<open>What the reader promises its callers\<close>

lemma atomic_bytes: "atomic rd_bytes"
  by (auto simp: atomic_def rd_bytes_def dest!: rd_head_Inl split: prod.splits sum.splits if_splits
      elim!: rd_head_Inr)

lemma atomic_array_header: "atomic rd_array_header"
  by (auto simp: atomic_def rd_array_header_def dest!: rd_head_Inl
      split: prod.splits sum.splits if_splits elim!: rd_head_Inr)

text \<open>A read of an item either succeeds past the whole item or fails and leaves the cursor
  where it was: \<open>uint\<close>, \<open>bytes\<close>, \<open>bytes_of\<close>, \<open>boolean\<close>, \<open>text\<close>, \<open>optional_bytes\<close>,
  \<open>optional_is_null\<close>, \<open>array_header\<close>, \<open>array\<close> and \<open>finish\<close>.\<close>

theorem reader_failure_keeps_cursor:
  "atomic rd_uint \<and> atomic rd_bytes \<and> atomic (rd_bytes_of n) \<and> atomic rd_boolean \<and> atomic rd_text \<and>
   atomic rd_optional_bytes \<and> atomic rd_optional_is_null \<and> atomic rd_array_header \<and>
   atomic (rd_array k) \<and> atomic rd_finish"
proof (intro conjI)
  show "atomic rd_uint"
    by (auto simp: atomic_def rd_uint_def dest!: rd_head_Inl split: prod.splits sum.splits if_splits
        elim!: rd_head_Inr)
  show "atomic rd_boolean"
    by (auto simp: atomic_def rd_boolean_def dest!: rd_head_Inl
        split: prod.splits sum.splits if_splits elim!: rd_head_Inr)
  show "atomic rd_text"
    by (auto simp: atomic_def rd_text_def Let_def dest!: rd_head_Inl
        split: prod.splits sum.splits if_splits elim!: rd_head_Inr)
  show "atomic (rd_bytes_of n)"
    by (auto simp: atomic_def rd_bytes_of_def dest!: atomicD [OF atomic_bytes]
        split: prod.splits sum.splits if_splits elim!: parsesE [OF parses_bytes])
  show "atomic rd_optional_bytes"
    by (auto simp: atomic_def rd_optional_bytes_def dest!: atomicD [OF atomic_bytes] rd_head_Inl
        split: prod.splits sum.splits if_splits elim!: rd_head_Inr)
  show "atomic rd_optional_is_null"
    by (auto simp: atomic_def rd_optional_is_null_def dest!: rd_head_Inl
        split: prod.splits sum.splits if_splits elim!: rd_head_Inr)
  show "atomic (rd_array k)"
    by (auto simp: atomic_def rd_array_def dest!: atomicD [OF atomic_array_header]
        split: prod.splits sum.splits if_splits elim!: parsesE [OF parses_array_header])
  show "atomic rd_finish"
    by (simp add: atomic_def rd_finish_def)
qed (rule atomic_bytes atomic_array_header)+

text \<open>The narrowing reads are the exception: a value that does not fit is refused after the
  cursor has moved past it.\<close>

lemma rd_u8_moves_cursor:
  "rd_u8 (rd_new (cbor_uint 256)) =
    (Inl (OutOfRange 256), advance (rd_new (cbor_uint 256)) (length (cbor_uint 256)))"
  using readsD [OF reads_uint, of "rd_new (cbor_uint 256)" 256 "[]"]
  by (simp add: rd_u8_def rd_narrow_def try_from_def)

text \<open>C28. \<open>read_head\<close> accepts exactly the canonical heads: it returns a major type and an argument
  if and only if the input starts with the bytes \<open>head\<close> writes for them, and then it moves
  past those bytes. No value has a second, longer spelling.\<close>

theorem rd_head_iff:
  "rd_head rd = (Inr (m, v), rd') \<longleftrightarrow>
     m < 8 \<and> (\<exists>post. rest rd = cbor_head m v @ post) \<and> rd' = advance rd (length (cbor_head m v))"
  using rd_head_decoded [of rd m v rd'] rd_head_encoded [of m rd v] by auto

end
