(* ===== verification/Error_Codes.thy ===== *)
theory Error_Codes
  imports Codec
begin

text \<open>
  The error registry of \<open>src/backend/wealdrelay/src/frame.rs\<close>: the six classes a client branches
  on, the codes, the strings both have on the wire, and \<open>FrameError\<close>, the body of an \<open>ERROR\<close> frame.
\<close>

definition as_bytes :: "string \<Rightarrow> bytes" where
  "as_bytes s = map of_char s"

datatype error_class = Retry | Reject | Denied | Quota | Version | Limit

fun class_as_str :: "error_class \<Rightarrow> string" where
  "class_as_str Retry = ''retry''"
| "class_as_str Reject = ''reject''"
| "class_as_str Denied = ''denied''"
| "class_as_str Quota = ''quota''"
| "class_as_str Version = ''version''"
| "class_as_str Limit = ''limit''"

definition is_retryable :: "error_class \<Rightarrow> bool" where
  "is_retryable c \<longleftrightarrow> c \<in> {Retry, Quota, Limit}"

datatype error_code =
    Backpressure
  | LockTimeout
  | Failover
  | PushBackpressure
  | MalformedHeader
  | NoncanonicalCbor
  | HashMismatch
  | EnvelopeTooLarge
  | UnknownRequiredField
  | PushHandleMalformed
  | PlaintextRefused
  | WriterNotInAccessSet
  | GroupUnknown
  | ServiceReadOnly
  | GroupFrozen
  | PushNotConfigured
  | WrapNotNewer
  | StorageExhausted
  | LogBudgetExhausted
  | RateLimited
  | SeatsExhausted
  | GroupIngressLimited
  | PushRegistrationRate
  | ProtocolUnsupported
  | BelowClientFloor

fun code_class :: "error_code \<Rightarrow> error_class" where
  "code_class Backpressure = Retry"
| "code_class LockTimeout = Retry"
| "code_class Failover = Retry"
| "code_class PushBackpressure = Retry"
| "code_class MalformedHeader = Reject"
| "code_class NoncanonicalCbor = Reject"
| "code_class HashMismatch = Reject"
| "code_class EnvelopeTooLarge = Reject"
| "code_class UnknownRequiredField = Reject"
| "code_class PushHandleMalformed = Reject"
| "code_class PlaintextRefused = Denied"
| "code_class WriterNotInAccessSet = Denied"
| "code_class GroupUnknown = Denied"
| "code_class ServiceReadOnly = Denied"
| "code_class GroupFrozen = Denied"
| "code_class PushNotConfigured = Denied"
| "code_class WrapNotNewer = Denied"
| "code_class StorageExhausted = Quota"
| "code_class LogBudgetExhausted = Quota"
| "code_class RateLimited = Quota"
| "code_class SeatsExhausted = Quota"
| "code_class GroupIngressLimited = Quota"
| "code_class PushRegistrationRate = Limit"
| "code_class ProtocolUnsupported = Version"
| "code_class BelowClientFloor = Version"

fun code_as_str :: "error_code \<Rightarrow> string" where
  "code_as_str Backpressure = ''backpressure''"
| "code_as_str LockTimeout = ''lock_timeout''"
| "code_as_str Failover = ''failover''"
| "code_as_str PushBackpressure = ''push_backpressure''"
| "code_as_str MalformedHeader = ''malformed_header''"
| "code_as_str NoncanonicalCbor = ''noncanonical_cbor''"
| "code_as_str HashMismatch = ''hash_mismatch''"
| "code_as_str EnvelopeTooLarge = ''envelope_too_large''"
| "code_as_str UnknownRequiredField = ''unknown_required_field''"
| "code_as_str PushHandleMalformed = ''push_handle_malformed''"
| "code_as_str PlaintextRefused = ''plaintext_refused''"
| "code_as_str WriterNotInAccessSet = ''writer_not_in_access_set''"
| "code_as_str GroupUnknown = ''group_unknown''"
| "code_as_str ServiceReadOnly = ''service_read_only''"
| "code_as_str GroupFrozen = ''group_frozen''"
| "code_as_str PushNotConfigured = ''push_not_configured''"
| "code_as_str WrapNotNewer = ''wrap_not_newer''"
| "code_as_str StorageExhausted = ''storage_exhausted''"
| "code_as_str LogBudgetExhausted = ''log_budget_exhausted''"
| "code_as_str RateLimited = ''rate_limited''"
| "code_as_str SeatsExhausted = ''seats_exhausted''"
| "code_as_str GroupIngressLimited = ''group_ingress_limited''"
| "code_as_str PushRegistrationRate = ''push_registration_rate''"
| "code_as_str ProtocolUnsupported = ''protocol_unsupported''"
| "code_as_str BelowClientFloor = ''below_client_floor''"

definition qualified_str :: "error_code \<Rightarrow> string" where
  "qualified_str c = class_as_str (code_class c) @ ''/'' @ code_as_str c"

definition ALL_CODES :: "error_code list" where
  "ALL_CODES = [Backpressure,
    LockTimeout,
    Failover,
    PushBackpressure,
    MalformedHeader,
    NoncanonicalCbor,
    HashMismatch,
    EnvelopeTooLarge,
    UnknownRequiredField,
    PushHandleMalformed,
    PlaintextRefused,
    WriterNotInAccessSet,
    GroupUnknown,
    ServiceReadOnly,
    GroupFrozen,
    PushNotConfigured,
    WrapNotNewer,
    StorageExhausted,
    LogBudgetExhausted,
    RateLimited,
    SeatsExhausted,
    GroupIngressLimited,
    PushRegistrationRate,
    ProtocolUnsupported,
    BelowClientFloor]"

record frame_error =
  fe_code :: error_code
  fe_retry_after :: "u32 option"
  fe_detail :: "bytes option"

definition new_error :: "error_code \<Rightarrow> frame_error" where
  "new_error c = \<lparr>fe_code = c, fe_retry_after = None, fe_detail = None\<rparr>"

definition with_retry_after :: "u32 \<Rightarrow> frame_error \<Rightarrow> frame_error" where
  "with_retry_after seconds e = e\<lparr>fe_retry_after := Some seconds\<rparr>"

definition with_detail :: "bytes \<Rightarrow> frame_error \<Rightarrow> frame_error" where
  "with_detail d e = e\<lparr>fe_detail := Some d\<rparr>"

definition error_class_of :: "frame_error \<Rightarrow> error_class" where
  "error_class_of e = code_class (fe_code e)"

lemma set_ALL_CODES [simp]: "set ALL_CODES = UNIV"
proof (rule UNIV_eq_I [symmetric])
  fix c
  show "c \<in> set ALL_CODES"
    by (cases c) (simp_all add: ALL_CODES_def)
qed

lemma as_bytes_inject [simp]: "as_bytes s = as_bytes t \<longleftrightarrow> s = t"
proof -
  have "unat (of_char c :: byte) = of_char c" for c
  proof -
    have "(of_char c :: byte) = of_nat (of_char c)"
      by (simp only: of_nat_of_char)
    moreover have "of_char c < (256 :: nat)"
      using of_char_mod_256 [of c, where ?'a = nat] by (metis mod_less_divisor zero_less_numeral)
    ultimately show ?thesis
      by (simp add: unat_of_nat del: of_nat_of_char)
  qed
  then have "inj (of_char :: char \<Rightarrow> byte)"
    by (metis injI of_char_eq_iff)
  then show ?thesis
    by (simp add: as_bytes_def inj_map_eq_map)
qed

lemma class_as_str_inject: "class_as_str c = class_as_str d \<longleftrightarrow> c = d"
  by (cases c; cases d) simp_all

lemma code_as_str_inject: "code_as_str c = code_as_str d \<longleftrightarrow> c = d"
  by (cases c; cases d) simp_all

text \<open>The registry names every code once: \<open>ErrorCode::ALL\<close> lists every code and lists it once,
  no two codes share a stable string, and the qualified \<open>class/code\<close> string determines both.\<close>

theorem error_registry_unique:
  "set ALL_CODES = UNIV \<and> distinct ALL_CODES \<and> inj code_as_str \<and> inj qualified_str"
proof (intro conjI)
  show "distinct ALL_CODES"
    by (simp add: ALL_CODES_def)
  show "inj code_as_str"
    by (simp add: inj_def code_as_str_inject)
  show "inj qualified_str"
    unfolding inj_def qualified_str_def
  proof (intro allI impI)
    fix c d :: error_code
    assume "class_as_str (code_class c) @ ''/'' @ code_as_str c =
      class_as_str (code_class d) @ ''/'' @ code_as_str d"
    then show "c = d"
      by (cases "code_class c"; cases "code_class d") (simp_all add: code_as_str_inject)
  qed
qed simp

end
