(* ===== verification/Negentropy.thy ===== *)
theory Negentropy
  imports Error_Codes
begin

text \<open>
  The reconciliation payload, \<open>src/backend/wealdrelay/src/negentropy/mod.rs\<close>: items, ranges,
  messages, their codec, and the functions on sorted item slices both roles are built from. An id
  is a 32-byte string ordered lexicographically, as Rust orders \<open>[u8; 32]\<close>. \<open>partition_point\<close> is
  the binary search of the standard library. BLAKE3 is the parameter \<open>blake3\<close>.
\<close>

subsection \<open>Items, ranges and messages\<close>

definition RECON_VERSION :: u64 where "RECON_VERSION = 1"
definition INFINITY :: u64 where "INFINITY = - 1"
definition IDLIST_LIMIT :: nat where "IDLIST_LIMIT = 16"
definition SPLIT_FACTOR :: nat where "SPLIT_FACTOR = 8"
definition MAX_RANGES :: nat where "MAX_RANGES = 1024"
definition MAX_IDS_PER_RANGE :: nat where "MAX_IDS_PER_RANGE = 4096"

type_synonym id = bytes

record item =
  it_seq :: u64
  it_id :: id

datatype mode = Skip | Fingerprint id | IdList "id list"

fun mode_tag :: "mode \<Rightarrow> u64" where
  "mode_tag Skip = 0"
| "mode_tag (Fingerprint _) = 1"
| "mode_tag (IdList _) = 2"

record range =
  rg_upper :: u64
  rg_mode :: mode

definition mk_range :: "u64 \<Rightarrow> mode \<Rightarrow> range" where
  "mk_range upper mode = \<lparr>rg_upper = upper, rg_mode = mode\<rparr>"

record message =
  msg_ranges :: "range list"

datatype recon_error =
    ReconCbor cbor_error
  | ReconUnsupportedVersion u64
  | TooManyRanges nat
  | TooManyIds nat
  | UnknownMode u64
  | UnorderedRanges
  | IncompleteCover
  | UnorderedIds
  | EmptyMessage

definition recon_error_code :: "recon_error \<Rightarrow> error_code" where
  "recon_error_code e = (case e of ReconCbor _ \<Rightarrow> NoncanonicalCbor | _ \<Rightarrow> MalformedHeader)"

definition settled :: message where
  "settled = \<lparr>msg_ranges = [mk_range INFINITY Skip]\<rparr>"

definition is_settled :: "message \<Rightarrow> bool" where
  "is_settled m \<longleftrightarrow> list_all (\<lambda>r. rg_mode r = Skip) (msg_ranges m)"

subsection \<open>The codec\<close>

fun encode_mode :: "mode \<Rightarrow> bytes" where
  "encode_mode Skip = cbor_NULL"
| "encode_mode (Fingerprint fp) = cbor_bytes fp"
| "encode_mode (IdList ids) = cbor_array (map cbor_bytes ids)"

definition encode_range :: "range \<Rightarrow> bytes" where
  "encode_range r =
    cbor_array [cbor_uint (rg_upper r), cbor_uint (mode_tag (rg_mode r)), encode_mode (rg_mode r)]"

definition message_encode :: "message \<Rightarrow> bytes" where
  "message_encode m = cbor_array [cbor_uint RECON_VERSION, cbor_array (map encode_range (msg_ranges m))]"

definition fixed :: "bytes \<Rightarrow> id" where
  "fixed bs = take 32 bs @ replicate (32 - length bs) 0"

fun decode_ids :: "nat \<Rightarrow> id list \<Rightarrow> (recon_error, id list) read" where
  "decode_ids 0 ids = rreturn ids"
| "decode_ids (Suc n) ids =
    rbind (rmap_err ReconCbor (rd_bytes_of 32)) (\<lambda>b.
    if ids \<noteq> [] \<and> fixed b \<le> last ids then rfail UnorderedIds else decode_ids n (ids @ [fixed b]))"

definition decode_range :: "(recon_error, range) read" where
  "decode_range =
    rbind (rmap_err ReconCbor (rd_array 3)) (\<lambda>_.
    rbind (rmap_err ReconCbor rd_uint) (\<lambda>upper.
    rbind (rmap_err ReconCbor rd_uint) (\<lambda>tag.
    if tag = 0 then
      rbind (rmap_err ReconCbor rd_optional_bytes) (\<lambda>ob.
      case ob of
        None \<Rightarrow> rreturn (mk_range upper Skip)
      | Some _ \<Rightarrow> rfail (ReconCbor (TypeMismatch ''null'')))
    else if tag = 1 then
      rbind (rmap_err ReconCbor (rd_bytes_of 32)) (\<lambda>b. rreturn (mk_range upper (Fingerprint (fixed b))))
    else if tag = 2 then
      rbind (rmap_err ReconCbor rd_array_header) (\<lambda>count.
      if count > MAX_IDS_PER_RANGE then rfail (TooManyIds count)
      else rbind (decode_ids count []) (\<lambda>ids. rreturn (mk_range upper (IdList ids))))
    else rfail (UnknownMode tag))))"

fun decode_ranges :: "nat \<Rightarrow> u64 option \<Rightarrow> range list \<Rightarrow> (recon_error, u64 option \<times> range list) read" where
  "decode_ranges 0 previous ranges = rreturn (previous, ranges)"
| "decode_ranges (Suc n) previous ranges =
    rbind decode_range (\<lambda>range.
    if (case previous of None \<Rightarrow> False | Some p \<Rightarrow> rg_upper range \<le> p) then rfail UnorderedRanges
    else decode_ranges n (Some (rg_upper range)) (ranges @ [range]))"

definition message_body :: "(recon_error, message) read" where
  "message_body =
    rbind (rmap_err ReconCbor (rd_array 2)) (\<lambda>_.
    rbind (rmap_err ReconCbor rd_uint) (\<lambda>version.
    if version \<noteq> RECON_VERSION then rfail (ReconUnsupportedVersion version)
    else
      rbind (rmap_err ReconCbor rd_array_header) (\<lambda>count.
      if count = 0 then rfail EmptyMessage
      else if count > MAX_RANGES then rfail (TooManyRanges count)
      else
        rbind (decode_ranges count None []) (\<lambda>(previous, ranges).
        if previous \<noteq> Some INFINITY then rfail IncompleteCover
        else rreturn \<lparr>msg_ranges = ranges\<rparr>))))"

definition message_decode :: "bytes \<Rightarrow> recon_error + message" where
  "message_decode = rd_whole ReconCbor message_body"

fun spans_from :: "u64 \<Rightarrow> range list \<Rightarrow> (u64 \<times> u64 \<times> mode) list" where
  "spans_from lower [] = []"
| "spans_from lower (r # rs) = (lower, rg_upper r, rg_mode r) # spans_from (rg_upper r) rs"

definition spans :: "message \<Rightarrow> (u64 \<times> u64 \<times> mode) list" where
  "spans m = spans_from 0 (msg_ranges m)"

definition id_from_slice :: "bytes \<Rightarrow> id" where
  "id_from_slice bs = take 32 bs @ replicate (32 - length bs) 0"

subsection \<open>Sorted item slices\<close>

definition item_bytes :: "item \<Rightarrow> bytes" where
  "item_bytes i = to_be_bytes 8 (it_seq i) @ it_id i"

definition fingerprint_input :: "item list \<Rightarrow> bytes" where
  "fingerprint_input items =
    as_bytes ''weald negentropy fingerprint v1'' @ to_be_bytes 8 (of_nat (length items) :: u64) @
    concat (map item_bytes items)"

definition fingerprint :: "(bytes \<Rightarrow> bytes) \<Rightarrow> item list \<Rightarrow> id" where
  "fingerprint blake3 items = blake3 (fingerprint_input items)"

text \<open>\<open>slice::partition_point\<close>: a binary search that halves \<open>sz\<close> and keeps in \<open>base\<close> the last
  index known to satisfy the predicate.\<close>

fun bisect :: "('a \<Rightarrow> bool) \<Rightarrow> 'a list \<Rightarrow> nat \<Rightarrow> nat \<Rightarrow> nat" where
  "bisect p xs base sz =
    (if sz > 1 then
       let half = sz div 2; mid = base + half in
       bisect p xs (if p (xs ! mid) then mid else base) (sz - half)
     else base)"

declare bisect.simps [simp del]

definition partition_point :: "('a \<Rightarrow> bool) \<Rightarrow> 'a list \<Rightarrow> nat" where
  "partition_point p xs =
    (if xs = [] then 0
     else let base = bisect p xs 0 (length xs) in if p (xs ! base) then base + 1 else base)"

definition items_in :: "item list \<Rightarrow> u64 \<Rightarrow> u64 \<Rightarrow> item list" where
  "items_in items lower upper =
    (let start = partition_point (\<lambda>i. it_seq i < lower) items;
         stop = partition_point (\<lambda>i. it_seq i < upper) items in
     take (stop - start) (drop start items))"

definition ids_of :: "item list \<Rightarrow> id list" where
  "ids_of items = remdups_adj (sort (map it_id items))"

lemma bisect_partitioned:
  assumes "\<And>i. i < length xs \<Longrightarrow> p (xs ! i) \<longleftrightarrow> i < k"
    and "0 < sz" "base + sz \<le> length xs" "k \<le> base + sz" "base = 0 \<or> base < k"
  shows "let b = bisect p xs base sz in b < length xs \<and> k \<le> b + 1 \<and> (b = 0 \<or> b < k)"
  using assms(2-)
proof (induction sz arbitrary: base rule: less_induct)
  case (less sz)
  show ?case
  proof (cases "1 < sz")
    case True
    let ?half = "sz div 2" and ?base = "if p (xs ! (base + sz div 2)) then base + sz div 2 else base"
    have half: "0 < ?half" "?half < sz" "base + ?half < length xs"
      using True less.prems by auto
    then have "p (xs ! (base + ?half)) \<longleftrightarrow> base + ?half < k"
      using assms(1) by blast
    then have "let b = bisect p xs ?base (sz - ?half) in b < length xs \<and> k \<le> b + 1 \<and> (b = 0 \<or> b < k)"
      using half less.prems by (intro less.IH) auto
    then show ?thesis
      using True by (simp add: bisect.simps [of p xs base sz] Let_def)
  next
    case False
    then show ?thesis
      using less.prems by (simp add: bisect.simps [of p xs base sz])
  qed
qed

lemma partition_point_eq:
  assumes "\<And>i. i < length xs \<Longrightarrow> p (xs ! i) \<longleftrightarrow> i < k" "k \<le> length xs"
  shows "partition_point p xs = k"
proof (cases "xs = []")
  case False
  let ?b = "bisect p xs 0 (length xs)"
  have "?b < length xs \<and> k \<le> ?b + 1 \<and> (?b = 0 \<or> ?b < k)"
    using bisect_partitioned [OF assms(1), of "length xs" 0] assms(2) False by (simp add: Let_def)
  then show ?thesis
    using assms(1) [of ?b] False by (auto simp: partition_point_def Let_def)
qed (use assms in \<open>simp add: partition_point_def\<close>)

abbreviation seq_sorted :: "item list \<Rightarrow> bool" where
  "seq_sorted items \<equiv> sorted (map it_seq items)"

lemma seq_sorted_split:
  "seq_sorted items \<Longrightarrow>
    filter (\<lambda>i. it_seq i < b) items @ filter (\<lambda>i. b \<le> it_seq i) items = items"
proof (induction items)
  case (Cons a items)
  show ?case
  proof (cases "it_seq a < b")
    case True
    then show ?thesis
      using Cons by (simp add: leD)
  next
    case False
    then have "\<forall>x\<in>set items. b \<le> it_seq x"
      using Cons.prems by auto
    then have "filter (\<lambda>i. it_seq i < b) items = []" "filter (\<lambda>i. b \<le> it_seq i) items = items"
      by (auto simp: filter_empty_conv)
    then show ?thesis
      using False by simp
  qed
qed simp

lemma partition_point_seq:
  assumes "seq_sorted items"
  shows "partition_point (\<lambda>i. it_seq i < b) items = length (filter (\<lambda>i. it_seq i < b) items)"
proof (rule partition_point_eq)
  let ?xs = "filter (\<lambda>i. it_seq i < b) items" and ?ys = "filter (\<lambda>i. b \<le> it_seq i) items"
  fix i
  assume i: "i < length items"
  have items: "items = ?xs @ ?ys"
    by (simp only: seq_sorted_split [OF assms])
  show "it_seq (items ! i) < b \<longleftrightarrow> i < length ?xs"
  proof (cases "i < length ?xs")
    case True
    then have "?xs ! i \<in> set ?xs"
      by (rule nth_mem)
    then show ?thesis
      using True by (subst items) (simp add: nth_append)
  next
    case False
    then have "?ys ! (i - length ?xs) \<in> set ?ys"
      using i by (intro nth_mem) (subst (asm) items, simp)
    then show ?thesis
      using False by (subst items) (simp add: nth_append not_less)
  qed
qed simp

lemma items_in_slice:
  assumes "seq_sorted items" "lower \<le> upper"
  shows "items_in items lower upper = filter (\<lambda>i. lower \<le> it_seq i \<and> it_seq i < upper) items \<and>
    partition_point (\<lambda>i. it_seq i < lower) items \<le> partition_point (\<lambda>i. it_seq i < upper) items"
proof -
  let ?lo = "filter (\<lambda>i. it_seq i < lower) items" and ?up = "filter (\<lambda>i. it_seq i < upper) items"
  have lo: "filter (\<lambda>i. it_seq i < lower) ?up = ?lo"
    using assms(2) by (auto intro!: filter_cong)
  then have le: "length ?lo \<le> length ?up"
    by (metis length_filter_le)
  have "take (length ?up) items = ?up"
    using seq_sorted_split [OF assms(1), of upper] by (metis append_eq_conv_conj)
  moreover have "seq_sorted ?up"
    using assms(1) by (rule sorted_filter)
  then have "drop (length ?lo) ?up = filter (\<lambda>i. lower \<le> it_seq i) ?up"
    using seq_sorted_split [of ?up lower] by (metis append_eq_conv_conj lo)
  ultimately have "take (length ?up - length ?lo) (drop (length ?lo) items) = filter (\<lambda>i. lower \<le> it_seq i) ?up"
    by (simp add: drop_take [symmetric])
  then show ?thesis
    using le by (simp add: items_in_def partition_point_seq [OF assms(1)] conj_commute)
qed

lemma items_in_eq:
  "seq_sorted items \<Longrightarrow> lower \<le> upper \<Longrightarrow>
    items_in items lower upper = filter (\<lambda>i. lower \<le> it_seq i \<and> it_seq i < upper) items"
  by (simp add: items_in_slice)

text \<open>The binary search is the linear scan: on a slice sorted by sequence number, \<open>items_in\<close>
  returns exactly the items whose sequence number lies in \<open>[lower, upper)\<close>, in order, and the
  slice it takes never starts after its end or past the end of the items.\<close>

theorem items_in_filter:
  assumes "seq_sorted items" "lower \<le> upper"
  shows "items_in items lower upper = filter (\<lambda>i. lower \<le> it_seq i \<and> it_seq i < upper) items \<and>
    partition_point (\<lambda>i. it_seq i < lower) items \<le> partition_point (\<lambda>i. it_seq i < upper) items \<and>
    partition_point (\<lambda>i. it_seq i < upper) items \<le> length items"
  using items_in_slice [OF assms] partition_point_seq [OF assms(1)] by simp

definition sample_items :: "item list" where
  "sample_items = map (\<lambda>n. \<lparr>it_seq = of_nat n, it_id = replicate 32 (of_nat n)\<rparr>) [2, 3, 3, 5, 9]"

theorem items_in_filter_witness:
  "items_in sample_items 3 9 = map (\<lambda>n. \<lparr>it_seq = of_nat n, it_id = replicate 32 (of_nat n)\<rparr>) [3, 3, 5]"
  using items_in_filter [of sample_items 3 9] by (simp add: sample_items_def)

subsection \<open>Id lists\<close>

lemma set_ids_of [simp]: "set (ids_of items) = it_id ` set items"
  by (simp add: ids_of_def)

lemma ids_of_empty [simp]: "ids_of items = [] \<longleftrightarrow> items = []"
  by (metis image_is_empty set_empty set_ids_of)

lemma ids_of_ascending: "sorted_wrt (<) (ids_of items)"
  by (simp add: ids_of_def ascending_remdups_adj)

lemma length_ids_of: "length (ids_of items) \<le> length items"
  using remdups_adj_length [of "sort (map it_id items)"] by (simp add: ids_of_def)

subsection \<open>The message codec\<close>

fun mode_wf :: "mode \<Rightarrow> bool" where
  "mode_wf Skip \<longleftrightarrow> True"
| "mode_wf (Fingerprint fp) \<longleftrightarrow> length fp = 32"
| "mode_wf (IdList ids) \<longleftrightarrow>
    length ids \<le> MAX_IDS_PER_RANGE \<and> sorted_wrt (<) ids \<and> (\<forall>i\<in>set ids. length i = 32)"

definition cover :: "range list \<Rightarrow> bool" where
  "cover rs \<longleftrightarrow> rs \<noteq> [] \<and> sorted_wrt (<) (map rg_upper rs) \<and> rg_upper (last rs) = INFINITY"

definition message_wf :: "message \<Rightarrow> bool" where
  "message_wf m \<longleftrightarrow> cover (msg_ranges m) \<and> length (msg_ranges m) \<le> MAX_RANGES \<and>
    (\<forall>r\<in>set (msg_ranges m). mode_wf (rg_mode r))"

lemma fixed_id [simp]: "length b = 32 \<Longrightarrow> fixed b = b"
  by (simp add: fixed_def)

lemma reads_decode_ids:
  "\<lbrakk>n = length ids; sorted_wrt (<) (acc @ ids); \<forall>i\<in>set ids. length i = 32\<rbrakk> \<Longrightarrow>
    reads (decode_ids n acc) (concat (map cbor_bytes ids)) (acc @ ids)"
proof (induction ids arbitrary: acc n)
  case (Cons i ids)
  then have "acc \<noteq> [] \<Longrightarrow> last acc < i"
    by (simp add: sorted_wrt_append)
  moreover have "reads (decode_ids (length ids) (acc @ [i])) (concat (map cbor_bytes ids)) ((acc @ [i]) @ ids)"
    using Cons.prems by (intro Cons.IH) auto
  ultimately show ?case
    using Cons.prems by (auto simp: fits_small leD intro!: reads_bytes_of [THEN reads_step])
qed (simp add: reads_return)

lemma parses_decode_ids:
  "sorted_wrt (<) acc \<Longrightarrow>
   parses (decode_ids n acc) (\<lambda>bs ids. \<exists>new. ids = acc @ new \<and> length new = n \<and>
     bs = concat (map cbor_bytes new) \<and> sorted_wrt (<) ids \<and> (\<forall>i\<in>set new. length i = 32))"
proof (induction n arbitrary: acc)
  case 0
  then show ?case
    by (auto intro!: parses_return)
next
  case (Suc n)
  show ?case
    unfolding decode_ids.simps
  proof (rule parses_steps, rule parses_if, rule parses_fail)
    fix b bs
    assume b: "bs = cbor_bytes b \<and> length b = 32 \<and> fits 32" and "\<not> (acc \<noteq> [] \<and> fixed b \<le> last acc)"
    then have "sorted_wrt (<) (acc @ [b])"
      using Suc.prems by (auto simp: ascending_snoc)
    from Suc.IH [OF this] have "parses (decode_ids n (acc @ [fixed b])) (\<lambda>bs ids. \<exists>new. ids = (acc @ [b]) @ new \<and>
      length new = n \<and> bs = concat (map cbor_bytes new) \<and> sorted_wrt (<) ids \<and> (\<forall>i\<in>set new. length i = 32))"
      using b by simp
    then show "parses (decode_ids n (acc @ [fixed b])) (\<lambda>cs ids. \<exists>new. ids = acc @ new \<and>
      length new = Suc n \<and> bs @ cs = concat (map cbor_bytes new) \<and> sorted_wrt (<) ids \<and>
      (\<forall>i\<in>set new. length i = 32))"
      by (rule parses_mono) (use b in \<open>auto intro: exI [where x = "b # _"]\<close>)
  qed
qed

lemma encode_mode_nonempty [simp]: "encode_mode md \<noteq> []"
  by (cases md) (simp_all add: cbor_NULL_def)

lemma fits_ids: "n \<le> MAX_IDS_PER_RANGE \<Longrightarrow> fits n"
  by (simp add: MAX_IDS_PER_RANGE_def fits_def)

lemma fits_ranges: "n \<le> MAX_RANGES \<Longrightarrow> fits n"
  by (simp add: MAX_RANGES_def fits_def)

lemma reads_id_list:
  assumes "mode_wf (IdList ids)"
  shows "reads (rbind (rmap_err ReconCbor rd_array_header) (\<lambda>count.
      if count > MAX_IDS_PER_RANGE then rfail (TooManyIds count)
      else rbind (decode_ids count []) (\<lambda>ids. rreturn (mk_range upper (IdList ids)))))
    (cbor_array (map cbor_bytes ids)) (mk_range upper (IdList ids))"
proof (rule reads_header_step [where cs = "[]" and n = "length ids", unfolded append_Nil2])
  have "reads (decode_ids (length ids) []) (concat (map cbor_bytes ids)) ids"
    using reads_decode_ids [of "length ids" ids "[]"] assms by simp
  then show "reads (if length ids > MAX_IDS_PER_RANGE then rfail (TooManyIds (length ids))
      else rbind (decode_ids (length ids) []) (\<lambda>ids. rreturn (mk_range upper (IdList ids))))
    (concat (map cbor_bytes ids)) (mk_range upper (IdList ids))"
    using assms by (auto intro: reads_wrap)
qed (use assms in \<open>auto intro: fits_ids\<close>)

lemma mk_range_simps [simp]:
  "rg_upper (mk_range upper md) = upper" "rg_mode (mk_range upper md) = md"
  "mk_range (rg_upper r) (rg_mode r) = r"
  by (simp_all add: mk_range_def)

lemma reads_mk_range: "mode_wf md \<Longrightarrow> reads decode_range (encode_range (mk_range upper md)) (mk_range upper md)"
  unfolding decode_range_def encode_range_def
  by (rule reads_arrays(2); cases md)
     (auto simp: fits_small cbor_optional_bytes_def [of None, simplified, symmetric]
       simp del: mode_wf.simps(3) intro!: reads_steps reads_id_list)

lemma reads_range: "mode_wf (rg_mode r) \<Longrightarrow> reads decode_range (encode_range r) r"
  using reads_mk_range [of "rg_mode r" "rg_upper r"] by simp

lemma parses_range: "parses decode_range (\<lambda>bs r. mode_wf (rg_mode r) \<and> bs = encode_range r)"
  unfolding decode_range_def
  by (auto simp: encode_range_def cbor_array_def cbor_optional_bytes_def
      intro!: parses_steps parses_bind [OF parses_decode_ids] split: option.split)

text \<open>The loop of \<open>decode\<close> carries the previous upper bound beside the ranges read so far.\<close>

definition previous_of :: "range list \<Rightarrow> u64 option" where
  "previous_of rs = (if rs = [] then None else Some (rg_upper (last rs)))"

lemma reads_decode_ranges:
  "\<lbrakk>n = length rs; sorted_wrt (<) (map rg_upper (acc @ rs)); \<forall>r\<in>set rs. mode_wf (rg_mode r)\<rbrakk> \<Longrightarrow>
    reads (decode_ranges n (previous_of acc) acc) (concat (map encode_range rs)) (previous_of (acc @ rs), acc @ rs)"
proof (induction rs arbitrary: acc n)
  case (Cons r rs)
  have asc: "\<not> (case previous_of acc of None \<Rightarrow> False | Some p \<Rightarrow> rg_upper r \<le> p)"
    using Cons.prems by (auto simp: previous_of_def sorted_wrt_append not_le)
  have tail: "reads (decode_ranges (length rs) (previous_of (acc @ [r])) (acc @ [r])) (concat (map encode_range rs))
    (previous_of ((acc @ [r]) @ rs), (acc @ [r]) @ rs)"
    using Cons.prems by (intro Cons.IH) auto
  have "reads (decode_ranges (Suc (length rs)) (previous_of acc) acc)
    (encode_range r @ concat (map encode_range rs)) (previous_of (acc @ r # rs), acc @ r # rs)"
    unfolding decode_ranges.simps
    by (rule reads_bind [OF reads_range]) (use Cons.prems asc tail in \<open>simp_all add: previous_of_def\<close>)
  then show ?case
    using Cons.prems by simp
qed (simp add: reads_return)

lemma parses_decode_ranges:
  "sorted_wrt (<) (map rg_upper acc) \<Longrightarrow>
   parses (decode_ranges n (previous_of acc) acc) (\<lambda>bs (previous, rs). previous = previous_of rs \<and>
     (\<exists>new. rs = acc @ new \<and> length new = n \<and> bs = concat (map encode_range new) \<and>
        sorted_wrt (<) (map rg_upper rs) \<and> (\<forall>r\<in>set new. mode_wf (rg_mode r))))"
proof (induction n arbitrary: acc)
  case 0
  then show ?case
    by (auto intro!: parses_return)
next
  case (Suc n)
  show ?case
    unfolding decode_ranges.simps
  proof (rule parses_bind [OF parses_range], rule parses_if, rule parses_fail)
    fix r bs
    assume r: "mode_wf (rg_mode r) \<and> bs = encode_range r"
      and "\<not> (case previous_of acc of None \<Rightarrow> False | Some p \<Rightarrow> rg_upper r \<le> p)"
    then have "sorted_wrt (<) (map rg_upper (acc @ [r]))"
      using Suc.prems by (auto simp: previous_of_def ascending_snoc last_map split: if_splits)
    from Suc.IH [OF this] have "parses (decode_ranges n (Some (rg_upper r)) (acc @ [r])) (\<lambda>bs (previous, rs).
      previous = previous_of rs \<and> (\<exists>new. rs = (acc @ [r]) @ new \<and> length new = n \<and>
        bs = concat (map encode_range new) \<and> sorted_wrt (<) (map rg_upper rs) \<and>
        (\<forall>r\<in>set new. mode_wf (rg_mode r))))"
      by (simp add: previous_of_def)
    then show "parses (decode_ranges n (Some (rg_upper r)) (acc @ [r])) (\<lambda>cs (previous, rs).
       previous = previous_of rs \<and> (\<exists>new. rs = acc @ new \<and> length new = Suc n \<and>
         bs @ cs = concat (map encode_range new) \<and> sorted_wrt (<) (map rg_upper rs) \<and>
         (\<forall>r\<in>set new. mode_wf (rg_mode r))))"
      by (rule parses_mono) (use r in \<open>auto intro: exI [where x = "r # _"]\<close>)
  qed
qed

lemma encode_range_nonempty [simp]: "encode_range r \<noteq> []"
  by (simp add: encode_range_def)

lemma reads_message:
  assumes "message_wf m"
  shows "reads message_body (message_encode m) m"
proof -
  let ?rs = "msg_ranges m"
  have wf: "?rs \<noteq> []" "sorted_wrt (<) (map rg_upper ?rs)" "rg_upper (last ?rs) = INFINITY"
    "length ?rs \<le> MAX_RANGES" "\<forall>r\<in>set ?rs. mode_wf (rg_mode r)"
    using assms by (auto simp: message_wf_def cover_def)
  have "reads (decode_ranges (length ?rs) None []) (concat (map encode_range ?rs)) (Some INFINITY, ?rs)"
    using reads_decode_ranges [of "length ?rs" ?rs "[]"] wf by (simp add: previous_of_def)
  then have "reads (rbind (decode_ranges (length ?rs) None []) (\<lambda>(previous, ranges).
        if previous \<noteq> Some INFINITY then rfail IncompleteCover else rreturn \<lparr>msg_ranges = ranges\<rparr>))
      (concat (map encode_range ?rs) @ []) m"
    by (rule reads_bind) (auto intro: reads_returnI)
  then show ?thesis
    unfolding message_body_def message_encode_def
    using wf by (auto simp: fits_small fits_ranges encode_range_nonempty [symmetric] intro!: reads_arrays reads_steps
        reads_header_step [where cs = "[]" and n = "length ?rs", unfolded append_Nil2])
qed

lemma parses_message: "parses message_body (\<lambda>bs m. message_wf m \<and> bs = message_encode m)"
  unfolding message_body_def
  by (auto simp: message_wf_def message_encode_def cover_def cbor_array_def not_less
      intro!: parses_steps parses_bind [OF parses_decode_ranges [of "[]", unfolded previous_of_def, simplified]]
      split: prod.splits if_splits)

interpretation recon: wire_codec message_encode message_decode message_wf
  unfolding message_decode_def by (rule wire_codecI [OF reads_message parses_message])

text \<open>C37. The reconciliation codec: \<open>Message::decode\<close> returns a message if and only if its ranges are
  a cover (non-empty, strictly ascending upper bounds, the last at the open end) of at most
  \<open>MAX_RANGES\<close> ranges, every id list is strictly ascending and within its limit, and the input is
  exactly \<open>Message::encode\<close> of it.\<close>

theorem message_decode_iff: "message_decode bs = Inr m \<longleftrightarrow> message_wf m \<and> bs = message_encode m"
  by (rule recon.dec_iff)

end
