(* ===== verification/Reconcile.thy ===== *)
theory Reconcile
  imports Negentropy
begin

text \<open>
  The two roles of reconciliation, \<open>src/backend/wealdrelay/src/negentropy/reconcile.rs\<close>: \<open>initiate\<close>
  and \<open>advance\<close> for the client, \<open>respond\<close> for the relay. A \<open>BTreeSet\<close> of ids is a set, and what
  is collected from it its sorted list. The loops over the spans carry the ranges built so far; the
  number of spans still to come, \<open>total - index\<close> in the source, is the length of the list left.
\<close>

definition span_budget :: "nat \<Rightarrow> nat \<Rightarrow> nat" where
  "span_budget built spans_remaining =
    (let reserved = spans_remaining - 1 in max (MAX_RANGES - built - reserved) 1)"

record response =
  resp_reply :: message
  resp_push :: "id list"

record client_step =
  cs_reply :: "message option"
  cs_want :: "id list"
  cs_send :: "id list"

definition done_step :: "client_step \<Rightarrow> bool" where
  "done_step s \<longleftrightarrow> cs_reply s = None"

definition div_ceil :: "nat \<Rightarrow> nat \<Rightarrow> nat" where
  "div_ceil a b = (a + b - 1) div b"

text \<open>\<open>widen\<close> is the inner loop that keeps items of one sequence number together.\<close>

function widen :: "item list \<Rightarrow> nat \<Rightarrow> nat" where
  "widen items stop =
    (if stop < length items \<and> it_seq (items ! stop) = it_seq (items ! (stop - 1))
     then widen items (stop + 1) else stop)"
  by pat_completeness auto
termination
  by (relation "measure (\<lambda>(items, stop). length items - stop)") auto

declare widen.simps [simp del]

lemma widen_ge: "stop \<le> widen items stop"
proof (induction items stop rule: widen.induct)
  case (1 items stop)
  then show ?case
    by (subst widen.simps) (auto dest: Suc_leD)
qed

definition bucket_size :: "item list \<Rightarrow> nat \<Rightarrow> nat" where
  "bucket_size items factor = max (div_ceil (length items) factor) 1"

function split_loop :: "(bytes \<Rightarrow> bytes) \<Rightarrow> item list \<Rightarrow> u64 \<Rightarrow> nat \<Rightarrow> nat \<Rightarrow> range list" where
  "split_loop blake3 items upper factor index =
    (if index < length items then
       let stop = widen items (min (index + bucket_size items factor) (length items));
           chunk = take (stop - index) (drop index items);
           bound = (if stop = length items then upper else it_seq (items ! stop)) in
       mk_range bound (Fingerprint (fingerprint blake3 chunk)) # split_loop blake3 items upper factor stop
     else [])"
  by pat_completeness auto
termination
proof (relation "measure (\<lambda>(_, items, _, _, index). length items - index)", goal_cases)
  case (2 blake3 items upper factor index stop chunk bound)
  have "index < min (index + bucket_size items factor) (length items)"
    using 2 by (simp add: bucket_size_def)
  then show ?case
    using 2 widen_ge [of "min (index + bucket_size items factor) (length items)" items] by auto
qed simp

declare split_loop.simps [simp del]

definition split_bounded :: "(bytes \<Rightarrow> bytes) \<Rightarrow> item list \<Rightarrow> u64 \<Rightarrow> nat \<Rightarrow> range list" where
  "split_bounded blake3 items upper budget =
    (let factor = min SPLIT_FACTOR (max budget 1) in
     if factor = 1 then
       if length items \<le> MAX_IDS_PER_RANGE then [mk_range upper (IdList (ids_of items))]
       else [mk_range upper (Fingerprint (fingerprint blake3 items))]
     else
       let ranges = split_loop blake3 items upper factor 0 in
       if length ranges = 1 \<and> length items > IDLIST_LIMIT \<and> length items \<le> MAX_IDS_PER_RANGE
       then [mk_range upper (IdList (ids_of items))]
       else ranges)"

definition split_items :: "(bytes \<Rightarrow> bytes) \<Rightarrow> item list \<Rightarrow> u64 \<Rightarrow> range list" where
  "split_items blake3 items upper = split_bounded blake3 items upper SPLIT_FACTOR"

definition initiate :: "(bytes \<Rightarrow> bytes) \<Rightarrow> item list \<Rightarrow> message" where
  "initiate blake3 items =
    (if length items \<le> IDLIST_LIMIT
     then \<lparr>msg_ranges = [mk_range INFINITY (IdList (ids_of items))]\<rparr>
     else \<lparr>msg_ranges = split_items blake3 items INFINITY\<rparr>)"

subsection \<open>The relay's answer\<close>

text \<open>One turn of the loop of \<open>respond\<close>: the ranges it pushes and the ids it inserts.\<close>

fun respond_span :: "(bytes \<Rightarrow> bytes) \<Rightarrow> item list \<Rightarrow> nat \<Rightarrow> u64 \<times> u64 \<times> mode \<Rightarrow> range list \<times> id set" where
  "respond_span blake3 mine budget (lower, upper, Skip) = ([mk_range upper Skip], {})"
| "respond_span blake3 mine budget (lower, upper, Fingerprint theirs) =
    (let ours = fingerprint blake3 mine in
     if ours = theirs then ([mk_range upper Skip], {})
     else if length mine \<le> IDLIST_LIMIT then ([mk_range upper (IdList (ids_of mine))], {})
     else (split_bounded blake3 mine upper budget, {}))"
| "respond_span blake3 mine budget (lower, upper, IdList theirs) =
    (let ours = ids_of mine; push = {i \<in> set ours. i \<notin> set theirs} in
     if set theirs \<subseteq> set ours then ([mk_range upper Skip], push)
     else if length mine \<le> IDLIST_LIMIT then ([mk_range upper (IdList ours)], push)
     else (split_bounded blake3 mine upper budget, push))"

fun respond_loop :: "(bytes \<Rightarrow> bytes) \<Rightarrow> item list \<Rightarrow> range list \<times> id set \<Rightarrow> (u64 \<times> u64 \<times> mode) list \<Rightarrow>
    range list \<times> id set" where
  "respond_loop blake3 local (ranges, push) [] = (ranges, push)"
| "respond_loop blake3 local (ranges, push) ((lower, upper, mode) # later) =
    (let budget = span_budget (length ranges) (length later + 1);
         mine = items_in local lower upper;
         (new, ids) = respond_span blake3 mine budget (lower, upper, mode) in
     respond_loop blake3 local (ranges @ new, push \<union> ids) later)"

definition respond :: "(bytes \<Rightarrow> bytes) \<Rightarrow> item list \<Rightarrow> message \<Rightarrow> response" where
  "respond blake3 local incoming =
    (let (ranges, push) = respond_loop blake3 local ([], {}) (spans incoming) in
     \<lparr>resp_reply = \<lparr>msg_ranges = ranges\<rparr>, resp_push = sorted_list_of_set push\<rparr>)"

subsection \<open>The client's answer\<close>

text \<open>One turn of the loop of \<open>advance\<close>: the ranges it pushes, the ids it wants, the ids it sends
  and whether it has anything to say.\<close>

fun advance_span :: "(bytes \<Rightarrow> bytes) \<Rightarrow> item list \<Rightarrow> nat \<Rightarrow> u64 \<times> u64 \<times> mode \<Rightarrow>
    range list \<times> id set \<times> id set \<times> bool" where
  "advance_span blake3 mine budget (lower, upper, Skip) = ([mk_range upper Skip], {}, {}, False)"
| "advance_span blake3 mine budget (lower, upper, Fingerprint theirs) =
    (let ours = fingerprint blake3 mine in
     if ours = theirs then ([mk_range upper Skip], {}, {}, False)
     else if length mine \<le> IDLIST_LIMIT then ([mk_range upper (IdList (ids_of mine))], {}, {}, True)
     else (split_bounded blake3 mine upper budget, {}, {}, True))"
| "advance_span blake3 mine budget (lower, upper, IdList theirs) =
    (let ours = ids_of mine;
         want = {i \<in> set theirs. i \<notin> set ours};
         send = {i \<in> set ours. i \<notin> set theirs} in
     if set ours = set theirs then ([mk_range upper Skip], want, send, False)
     else if length mine \<le> IDLIST_LIMIT then ([mk_range upper (IdList ours)], want, send, True)
     else (split_bounded blake3 mine upper budget, want, send, True))"

fun advance_loop :: "(bytes \<Rightarrow> bytes) \<Rightarrow> item list \<Rightarrow> range list \<times> id set \<times> id set \<times> bool \<Rightarrow>
    (u64 \<times> u64 \<times> mode) list \<Rightarrow> range list \<times> id set \<times> id set \<times> bool" where
  "advance_loop blake3 local (ranges, want, send, say) [] = (ranges, want, send, say)"
| "advance_loop blake3 local (ranges, want, send, say) ((lower, upper, mode) # later) =
    (let budget = span_budget (length ranges) (length later + 1);
         mine = items_in local lower upper;
         (new, w, s, talk) = advance_span blake3 mine budget (lower, upper, mode) in
     advance_loop blake3 local (ranges @ new, want \<union> w, send \<union> s, say \<or> talk) later)"

definition advance_client :: "(bytes \<Rightarrow> bytes) \<Rightarrow> item list \<Rightarrow> message \<Rightarrow> client_step" where
  "advance_client blake3 local incoming =
    (let (ranges, want, send, say) = advance_loop blake3 local ([], {}, {}, False) (spans incoming) in
     \<lparr>cs_reply = (if say then Some \<lparr>msg_ranges = ranges\<rparr> else None),
      cs_want = sorted_list_of_set want, cs_send = sorted_list_of_set send\<rparr>)"

subsection \<open>Splitting\<close>

lemma widen_spec:
  "0 < stop \<Longrightarrow> stop \<le> length items \<Longrightarrow> seq_sorted items \<Longrightarrow>
    stop \<le> widen items stop \<and> widen items stop \<le> length items \<and>
    (widen items stop < length items \<longrightarrow>
       it_seq (items ! (widen items stop - 1)) < it_seq (items ! widen items stop))"
proof (induction items stop rule: widen.induct)
  case (1 items stop)
  show ?case
  proof (cases "stop < length items \<and> it_seq (items ! stop) = it_seq (items ! (stop - 1))")
    case True
    then show ?thesis
      using 1 by (subst (1 2 3 4 5) widen.simps) (simp add: Suc_le_eq)
  next
    case False
    have "it_seq (items ! (stop - 1)) \<le> it_seq (items ! stop)" if "stop < length items"
      using sorted_nth_mono [OF "1.prems"(3), of "stop - 1" stop] that by simp
    then show ?thesis
      using 1 False by (subst (1 2 3 4 5) widen.simps) auto
  qed
qed

definition chunk_stop :: "item list \<Rightarrow> nat \<Rightarrow> nat \<Rightarrow> nat" where
  "chunk_stop items factor index = widen items (min (index + bucket_size items factor) (length items))"

lemma chunk_stop_spec:
  assumes "seq_sorted items" "index < length items"
  shows "index < chunk_stop items factor index" "chunk_stop items factor index \<le> length items"
    and "chunk_stop items factor index < length items \<Longrightarrow>
      it_seq (items ! (chunk_stop items factor index - 1)) < it_seq (items ! chunk_stop items factor index) \<and>
      index + bucket_size items factor \<le> chunk_stop items factor index"
proof -
  let ?m = "min (index + bucket_size items factor) (length items)"
  have m: "index < ?m" "?m \<le> length items"
    using assms(2) by (auto simp: bucket_size_def)
  then have "0 < ?m"
    by linarith
  note w = widen_spec [OF this m(2) assms(1), folded chunk_stop_def]
  show "index < chunk_stop items factor index" "chunk_stop items factor index \<le> length items"
    using m w by linarith+
  show "it_seq (items ! (chunk_stop items factor index - 1)) < it_seq (items ! chunk_stop items factor index) \<and>
      index + bucket_size items factor \<le> chunk_stop items factor index"
    if "chunk_stop items factor index < length items"
    using w that by auto
qed

lemma split_loop_Cons:
  "index < length items \<Longrightarrow>
    split_loop blake3 items upper factor index =
      (let stop = chunk_stop items factor index in
       mk_range (if stop = length items then upper else it_seq (items ! stop))
         (Fingerprint (fingerprint blake3 (take (stop - index) (drop index items)))) #
       split_loop blake3 items upper factor stop)"
  "length items \<le> index \<Longrightarrow> split_loop blake3 items upper factor index = []"
  by (subst split_loop.simps, simp add: Let_def chunk_stop_def)+

text \<open>Induction over the chunks of a split: the last chunk runs to the end, and every earlier one
  ends strictly before the next sequence number.\<close>

lemma split_induct [consumes 2, case_names final more]:
  assumes "seq_sorted items" "index < length items"
    and "\<And>index. index < length items \<Longrightarrow> chunk_stop items factor index = length items \<Longrightarrow> P index"
    and "\<And>index stop. index < stop \<Longrightarrow> stop < length items \<Longrightarrow> stop = chunk_stop items factor index \<Longrightarrow>
      index + bucket_size items factor \<le> stop \<Longrightarrow> it_seq (items ! index) < it_seq (items ! stop) \<Longrightarrow>
      it_seq (items ! (stop - 1)) < it_seq (items ! stop) \<Longrightarrow> P stop \<Longrightarrow> P index"
  shows "P index"
  using assms(2)
proof (induction "length items - index" arbitrary: index rule: less_induct)
  case less
  let ?stop = "chunk_stop items factor index"
  note stop = chunk_stop_spec [OF assms(1) less.prems, of factor]
  show ?case
  proof (cases "?stop = length items")
    case False
    then have lt: "?stop < length items"
      using stop(2) by simp
    have "it_seq (items ! index) \<le> it_seq (items ! (?stop - 1))"
      using sorted_nth_mono [OF assms(1), of index "?stop - 1"] stop(1) lt by simp
    then show ?thesis
      using stop lt less by (intro assms(4) [of index ?stop]) auto
  qed (use assms(3) less.prems in simp)
qed

lemma split_loop_cover:
  assumes "seq_sorted items" "index < length items" "\<forall>i\<in>set items. it_seq i < upper"
  shows "(let rs = split_loop blake3 items upper factor index in
    rs \<noteq> [] \<and> sorted_wrt (<) (map rg_upper rs) \<and> rg_upper (last rs) = upper \<and>
    (\<forall>r\<in>set rs. it_seq (items ! index) < rg_upper r) \<and>
    (length rs - 1) * bucket_size items factor < length items - index)"
  using assms(1,2)
proof (induction index rule: split_induct [where factor = factor])
  case (final index)
  then show ?case
    using assms(3) by (simp add: split_loop_Cons Let_def)
next
  case (more index stop)
  let ?rs = "split_loop blake3 items upper factor stop"
  have ih: "?rs \<noteq> []" "sorted_wrt (<) (map rg_upper ?rs)" "rg_upper (last ?rs) = upper"
    "\<forall>r\<in>set ?rs. it_seq (items ! stop) < rg_upper r"
    "(length ?rs - 1) * bucket_size items factor < length items - stop"
    using more(7) by (simp_all add: Let_def)
  have "length ?rs * bucket_size items factor < length items - index"
    using ih(1,5) more(2,4) by (cases "length ?rs") auto
  then show ?case
    using ih more by (auto simp: split_loop_Cons Let_def)
qed

lemma split_loop_modes:
  "\<forall>r\<in>set (split_loop blake3 items upper factor index). \<exists>chunk. rg_mode r = Fingerprint (fingerprint blake3 chunk)"
proof (induction blake3 items upper factor index rule: split_loop.induct)
  case (1 blake3 items upper factor index)
  then show ?case
    by (subst split_loop.simps) (auto simp: Let_def)
qed

lemma div_ceil_mult:
  assumes "0 < b"
  shows "a \<le> b * div_ceil a b"
proof -
  have "a + b - 1 = b * ((a + b - 1) div b) + (a + b - 1) mod b" "(a + b - 1) mod b < b"
    using assms by simp_all
  then show ?thesis
    unfolding div_ceil_def by linarith
qed

lemma bucket_size_mult:
  assumes "0 < factor"
  shows "length items \<le> factor * bucket_size items factor"
  using div_ceil_mult [OF assms, of "length items"]
  by (rule order.trans) (simp add: bucket_size_def)

text \<open>What both roles promise about the ranges that answer one span: they cover the span in
  ascending order, stay within the budget, and each can be encoded.\<close>

definition answer_ok :: "u64 \<Rightarrow> u64 \<Rightarrow> nat \<Rightarrow> range list \<Rightarrow> bool" where
  "answer_ok lower upper budget new \<longleftrightarrow>
    new \<noteq> [] \<and> sorted_wrt (<) (map rg_upper new) \<and> rg_upper (last new) = upper \<and>
    (\<forall>r\<in>set new. rg_upper r = upper \<or> lower < rg_upper r) \<and> length new \<le> budget \<and>
    (\<forall>r\<in>set new. mode_wf (rg_mode r))"

definition slice_ok :: "u64 \<Rightarrow> u64 \<Rightarrow> item list \<Rightarrow> bool" where
  "slice_ok lower upper items \<longleftrightarrow>
    seq_sorted items \<and> (\<forall>i\<in>set items. lower \<le> it_seq i \<and> it_seq i < upper \<and> length (it_id i) = 32)"

lemma answer_single: "mode_wf md \<Longrightarrow> 1 \<le> budget \<Longrightarrow> answer_ok lower upper budget [mk_range upper md]"
  by (simp add: answer_ok_def)

lemma mode_wf_ids_of:
  "slice_ok lower upper items \<Longrightarrow> length items \<le> MAX_IDS_PER_RANGE \<Longrightarrow> mode_wf (IdList (ids_of items))"
  using length_ids_of [of items] by (auto simp: slice_ok_def ids_of_ascending)

lemma answer_split:
  assumes "slice_ok lower upper items" "items \<noteq> []" "1 \<le> budget" "\<And>x. length (blake3 x) = 32"
  shows "answer_ok lower upper budget (split_bounded blake3 items upper budget)"
proof -
  let ?factor = "min SPLIT_FACTOR (max budget 1)" and ?rs = "\<lambda>f. split_loop blake3 items upper f 0"
  have factor: "1 \<le> ?factor" "?factor \<le> budget"
    using assms(3) by (auto simp: SPLIT_FACTOR_def)
  have cov: "?rs f \<noteq> []" "sorted_wrt (<) (map rg_upper (?rs f))" "rg_upper (last (?rs f)) = upper"
    "\<forall>r\<in>set (?rs f). it_seq (items ! 0) < rg_upper r" "(length (?rs f) - 1) * bucket_size items f < length items"
    for f
    using split_loop_cover [of items 0 upper blake3 f] assms(1,2) by (simp_all add: Let_def slice_ok_def)
  have "length (?rs ?factor) \<le> ?factor"
  proof (rule ccontr)
    assume "\<not> ?thesis"
    then have "?factor * bucket_size items ?factor \<le> (length (?rs ?factor) - 1) * bucket_size items ?factor"
      by (intro mult_le_mono1) linarith
    then show False
      using cov(5) [of ?factor] bucket_size_mult [of ?factor items] factor(1) by linarith
  qed
  then have "length (?rs ?factor) \<le> budget"
    using factor(2) by linarith
  moreover have "\<forall>r\<in>set (?rs f). mode_wf (rg_mode r)" for f
    using split_loop_modes [of blake3 items upper f 0] assms(4) by (fastforce simp: fingerprint_def)
  moreover have "lower \<le> it_seq (items ! 0)"
    using assms(1,2) by (simp add: slice_ok_def)
  ultimately have "answer_ok lower upper budget (?rs ?factor)"
    using cov [of ?factor] unfolding answer_ok_def by (auto intro: order.strict_trans1)
  moreover have "answer_ok lower upper budget [mk_range upper (Fingerprint (fingerprint blake3 items))]"
    using assms(3,4) by (intro answer_single) (simp_all add: fingerprint_def)
  moreover have "answer_ok lower upper budget [mk_range upper (IdList (ids_of items))]"
    if "length items \<le> MAX_IDS_PER_RANGE"
    using that assms(1,3) mode_wf_ids_of by (intro answer_single) blast+
  ultimately show ?thesis
    unfolding split_bounded_def Let_def by (simp only: split: if_split) blast
qed

subsection \<open>A role answers every span\<close>

text \<open>The ranges of both roles are built by one loop; a role is what it answers to one span.\<close>

fun answer_loop :: "(item list \<Rightarrow> nat \<Rightarrow> u64 \<times> u64 \<times> mode \<Rightarrow> range list) \<Rightarrow> item list \<Rightarrow> range list \<Rightarrow>
    (u64 \<times> u64 \<times> mode) list \<Rightarrow> range list" where
  "answer_loop answer local ranges [] = ranges"
| "answer_loop answer local ranges ((lower, upper, md) # later) =
    answer_loop answer local
      (ranges @ answer (items_in local lower upper) (span_budget (length ranges) (length later + 1)) (lower, upper, md))
      later"

lemma respond_loop_ranges:
  "fst (respond_loop blake3 local (ranges, push) sps) =
    answer_loop (\<lambda>mine budget sp. fst (respond_span blake3 mine budget sp)) local ranges sps"
proof (induction sps arbitrary: ranges push)
  case (Cons sp sps)
  then show ?case
    by (cases sp) (simp add: Let_def case_prod_beta)
qed simp

lemma advance_loop_ranges:
  "fst (advance_loop blake3 local (ranges, want, send, say) sps) =
    answer_loop (\<lambda>mine budget sp. fst (advance_span blake3 mine budget sp)) local ranges sps"
proof (induction sps arbitrary: ranges want send say)
  case (Cons sp sps)
  then show ?case
    by (cases sp) (simp add: Let_def case_prod_beta)
qed simp

lemma length_spans_from [simp]: "length (spans_from lower rs) = length rs"
  by (induction rs arbitrary: lower) simp_all

definition local_ok :: "item list \<Rightarrow> bool" where
  "local_ok local \<longleftrightarrow> seq_sorted local \<and> (\<forall>i\<in>set local. length (it_id i) = 32)"

lemma slice_ok_items_in:
  "local_ok local \<Longrightarrow> lower \<le> upper \<Longrightarrow> slice_ok lower upper (items_in local lower upper)"
  by (auto simp: local_ok_def slice_ok_def items_in_eq sorted_filter)

lemma span_budget_spec:
  "built + remaining \<le> MAX_RANGES \<Longrightarrow> 0 < remaining \<Longrightarrow>
    1 \<le> span_budget built remaining \<and> built + span_budget built remaining + (remaining - 1) \<le> MAX_RANGES"
  by (auto simp: span_budget_def Let_def)

locale reconciliation_role =
  fixes answer :: "(bytes \<Rightarrow> bytes) \<Rightarrow> item list \<Rightarrow> nat \<Rightarrow> u64 \<times> u64 \<times> mode \<Rightarrow> range list"
  assumes answers: "slice_ok lower upper mine \<Longrightarrow> 1 \<le> budget \<Longrightarrow> (\<And>x. length (blake3 x) = 32) \<Longrightarrow>
    answer_ok lower upper budget (answer blake3 mine budget (lower, upper, md))"
begin

lemma answer_loop_wf:
  assumes "local_ok local" "\<And>x. length (blake3 x) = 32"
  shows "\<lbrakk>sorted_wrt (<) (map rg_upper rs); length ranges + length rs \<le> MAX_RANGES;
    sorted_wrt (<) (map rg_upper ranges); \<forall>r\<in>set ranges. mode_wf (rg_mode r);
    previous_of ranges = (if ranges = [] then None else Some lower); ranges = [] \<Longrightarrow> lower = 0;
    ranges \<noteq> [] \<Longrightarrow> \<forall>r\<in>set rs. lower < rg_upper r; out = answer_loop (answer blake3) local ranges (spans_from lower rs)\<rbrakk> \<Longrightarrow>
    sorted_wrt (<) (map rg_upper out) \<and> length out \<le> MAX_RANGES \<and> (\<forall>r\<in>set out. mode_wf (rg_mode r)) \<and>
    previous_of out = previous_of (ranges @ rs)"
proof (induction rs arbitrary: ranges lower out)
  case Nil
  then show ?case
    by simp
next
  case (Cons r rs)
  let ?upper = "rg_upper r"
  let ?budget = "span_budget (length ranges) (length rs + 1)"
  let ?new = "answer blake3 (items_in local lower ?upper) ?budget (lower, ?upper, rg_mode r)"
  have budget: "1 \<le> ?budget" "length ranges + ?budget + length rs \<le> MAX_RANGES"
    using span_budget_spec [of "length ranges" "length rs + 1"] Cons.prems(2) by simp_all
  have "lower \<le> ?upper"
    using Cons.prems(6,7) by (cases "ranges = []") auto
  then have new: "answer_ok lower ?upper ?budget ?new"
    using assms budget(1) by (intro answers slice_ok_items_in)
  then have n: "?new \<noteq> []" "sorted_wrt (<) (map rg_upper ?new)" "rg_upper (last ?new) = ?upper"
    "\<forall>x\<in>set ?new. rg_upper x = ?upper \<or> lower < rg_upper x" "length ?new \<le> ?budget"
    "\<forall>x\<in>set ?new. mode_wf (rg_mode x)"
    by (simp_all add: answer_ok_def)
  have "last (map rg_upper ranges) < y" if "ranges \<noteq> []" "y \<in> set (map rg_upper ?new)" for y
    using that Cons.prems(5,7) n(4) by (auto simp: previous_of_def last_map)
  then have "sorted_wrt (<) (map rg_upper ranges @ map rg_upper ?new)"
    using Cons.prems(3) n(2) by (intro ascending_append) auto
  then have "sorted_wrt (<) (map rg_upper out) \<and> length out \<le> MAX_RANGES \<and> (\<forall>r\<in>set out. mode_wf (rg_mode r)) \<and>
    previous_of out = previous_of ((ranges @ ?new) @ rs)"
    using Cons.prems n budget(2)
    by (intro Cons.IH [of "ranges @ ?new" ?upper]) (auto simp: previous_of_def)
  moreover have "previous_of ((ranges @ ?new) @ rs) = previous_of (ranges @ r # rs)"
    using n(1,3) by (cases rs) (simp_all add: previous_of_def)
  ultimately show ?case
    by simp
qed

text \<open>The answer to a well-formed message is a well-formed message.\<close>

lemma answer_message_wf:
  assumes "local_ok local" "\<And>x. length (blake3 x) = 32" "message_wf m"
  shows "message_wf \<lparr>msg_ranges = answer_loop (answer blake3) local [] (spans m)\<rparr>"
proof -
  let ?out = "answer_loop (answer blake3) local [] (spans m)"
  have "sorted_wrt (<) (map rg_upper ?out) \<and> length ?out \<le> MAX_RANGES \<and> (\<forall>r\<in>set ?out. mode_wf (rg_mode r)) \<and>
    previous_of ?out = previous_of ([] @ msg_ranges m)"
    using assms(3) by (intro answer_loop_wf [OF assms(1,2), where lower = 0])
      (auto simp: message_wf_def cover_def previous_of_def spans_def)
  then show ?thesis
    using assms(3) by (auto simp: message_wf_def cover_def previous_of_def split: if_splits)
qed

end

lemma answer_range:
  assumes "slice_ok lower upper mine" "1 \<le> budget" "\<And>x. length (blake3 x) = 32" "IDLIST_LIMIT < length mine"
  shows "answer_ok lower upper budget (split_bounded blake3 mine upper budget)"
  using assms by (intro answer_split) auto

lemma mode_wf_short_ids:
  "slice_ok lower upper mine \<Longrightarrow> length mine \<le> IDLIST_LIMIT \<Longrightarrow> mode_wf (IdList (ids_of mine))"
  by (rule mode_wf_ids_of) (simp_all add: IDLIST_LIMIT_def MAX_IDS_PER_RANGE_def)

interpretation relay: reconciliation_role "\<lambda>blake3 mine budget sp. fst (respond_span blake3 mine budget sp)"
proof (unfold_locales, goal_cases)
  case (1 lower upper mine budget blake3 md)
  then show ?case
    by (cases md) (auto simp: Let_def intro!: answer_single answer_range mode_wf_short_ids simp del: mode_wf.simps(3))
qed

interpretation client: reconciliation_role "\<lambda>blake3 mine budget sp. fst (advance_span blake3 mine budget sp)"
proof (unfold_locales, goal_cases)
  case (1 lower upper mine budget blake3 md)
  then show ?case
    by (cases md) (auto simp: Let_def intro!: answer_single answer_range mode_wf_short_ids simp del: mode_wf.simps(3))
qed

subsection \<open>Replies stay decodable\<close>

lemma respond_reply: "resp_reply (respond blake3 local m) =
  \<lparr>msg_ranges = answer_loop (\<lambda>mine budget sp. fst (respond_span blake3 mine budget sp)) local [] (spans m)\<rparr>"
  by (simp add: respond_def case_prod_beta respond_loop_ranges)

lemma advance_reply: "cs_reply (advance_client blake3 local m) = Some reply \<Longrightarrow> reply =
  \<lparr>msg_ranges = answer_loop (\<lambda>mine budget sp. fst (advance_span blake3 mine budget sp)) local [] (spans m)\<rparr>"
  by (auto simp: advance_client_def case_prod_beta advance_loop_ranges split: if_splits)

text \<open>A reply is never one the peer must refuse: whatever message the relay decoded, its answer
  is within \<open>MAX_RANGES\<close>, is an ascending cover with encodable ranges, and therefore decodes to
  itself at the client, for every set of 32-byte items sorted by sequence number.\<close>

theorem respond_reply_decodes:
  assumes "local_ok local" "\<And>x. length (blake3 x) = 32" "message_decode bs = Inr m"
  shows "message_decode (message_encode (resp_reply (respond blake3 local m))) = Inr (resp_reply (respond blake3 local m))"
  using relay.answer_message_wf [OF assms(1,2)] recon.dec_sound [OF assms(3)]
  by (simp add: recon.dec_iff respond_reply)

definition zero_hash :: "bytes \<Rightarrow> bytes" where
  "zero_hash x = replicate 32 0"

definition ask_all :: message where
  "ask_all = \<lparr>msg_ranges = [mk_range INFINITY (IdList [])]\<rparr>"

lemma ask_all_decodes: "message_decode (message_encode ask_all) = Inr ask_all"
  by (simp add: recon.dec_iff message_wf_def cover_def ask_all_def MAX_RANGES_def)

lemma sample_local_ok: "local_ok sample_items"
  by (simp add: local_ok_def sample_items_def)

lemma sample_items_in: "items_in sample_items 0 INFINITY = sample_items"
  using items_in_eq [of sample_items 0 INFINITY] sample_local_ok
  by (simp add: local_ok_def sample_items_def INFINITY_def)

theorem respond_reply_decodes_witness:
  "message_decode (message_encode (resp_reply (respond zero_hash sample_items ask_all))) =
    Inr (resp_reply (respond zero_hash sample_items ask_all))"
  using respond_reply_decodes [OF sample_local_ok _ ask_all_decodes, of zero_hash]
  by (simp add: zero_hash_def)

text \<open>The same of the client: whatever \<open>advance\<close> has to say decodes to itself at the relay.\<close>

theorem advance_reply_decodes:
  assumes "local_ok local" "\<And>x. length (blake3 x) = 32" "message_decode bs = Inr m"
    "cs_reply (advance_client blake3 local m) = Some reply"
  shows "message_decode (message_encode reply) = Inr reply"
  using client.answer_message_wf [OF assms(1,2)] recon.dec_sound [OF assms(3)] advance_reply [OF assms(4)]
  by (simp add: recon.dec_iff)

theorem advance_reply_decodes_witness:
  "message_decode (message_encode \<lparr>msg_ranges = [mk_range INFINITY (IdList (ids_of sample_items))]\<rparr>) =
    Inr \<lparr>msg_ranges = [mk_range INFINITY (IdList (ids_of sample_items))]\<rparr>"
proof (rule advance_reply_decodes [OF sample_local_ok _ ask_all_decodes, of zero_hash])
  show "cs_reply (advance_client zero_hash sample_items ask_all) =
    Some \<lparr>msg_ranges = [mk_range INFINITY (IdList (ids_of sample_items))]\<rparr>"
    by (simp add: advance_client_def ask_all_def spans_def sample_items_in Let_def)
       (simp add: sample_items_def IDLIST_LIMIT_def)
qed (simp add: zero_hash_def)

subsection \<open>What a split says\<close>

lemma sorted_cut:
  assumes "seq_sorted items" "0 < stop" "stop < length items"
    "it_seq (items ! (stop - 1)) < it_seq (items ! stop)"
  shows "filter (\<lambda>i. it_seq i < it_seq (items ! stop)) items = take stop items"
    and "filter (\<lambda>i. it_seq (items ! stop) \<le> it_seq i) items = drop stop items"
proof -
  let ?b = "it_seq (items ! stop)"
  have items: "items = take stop items @ drop stop items"
    by simp
  have lo: "it_seq x < ?b" if "x \<in> set (take stop items)" for x
  proof -
    obtain j where "j < length (take stop items)" "x = take stop items ! j"
      using \<open>x \<in> set (take stop items)\<close> by (metis in_set_conv_nth)
    then have "it_seq x \<le> it_seq (items ! (stop - 1))"
      using sorted_nth_mono [OF assms(1), of j "stop - 1"] assms(3) by simp
    then show ?thesis
      using assms(4) by simp
  qed
  have hi: "?b \<le> it_seq x" if "x \<in> set (drop stop items)" for x
  proof -
    obtain j where "j < length (drop stop items)" "x = drop stop items ! j"
      using \<open>x \<in> set (drop stop items)\<close> by (metis in_set_conv_nth)
    then show ?thesis
      using sorted_nth_mono [OF assms(1), of stop "stop + j"] by simp
  qed
  show "filter (\<lambda>i. it_seq i < ?b) items = take stop items"
    by (subst (1) items, subst filter_append) (auto simp: filter_id_conv filter_empty_conv lo hi leD)
  show "filter (\<lambda>i. ?b \<le> it_seq i) items = drop stop items"
    by (subst (1) items, subst filter_append) (auto simp: filter_id_conv filter_empty_conv lo hi leD not_le)
qed

lemma items_in_from:
  assumes "seq_sorted items" "lo \<le> u" "filter (\<lambda>i. lo \<le> it_seq i) items = drop index items"
  shows "items_in items lo u = filter (\<lambda>i. it_seq i < u) (drop index items)"
  by (simp add: items_in_eq [OF assms(1,2)] assms(3) [symmetric] conj_commute)

lemma filter_below_cut:
  assumes "seq_sorted items" "index < stop" "stop < length items"
    "it_seq (items ! (stop - 1)) < it_seq (items ! stop)"
  shows "filter (\<lambda>i. it_seq i < it_seq (items ! stop)) (drop index items) = take (stop - index) (drop index items)"
proof -
  let ?p = "\<lambda>i. it_seq i < it_seq (items ! stop)"
  have "drop index items = drop index (take stop items) @ drop stop items"
    using assms(2,3) by (metis append_take_drop_id drop_append drop_take diff_is_0_eq' drop0 length_take
        less_imp_le_nat min.absorb4)
  moreover have "\<forall>x\<in>set (drop index (take stop items)). ?p x" "\<forall>x\<in>set (drop stop items). \<not> ?p x"
    using sorted_cut [OF assms(1) _ assms(3,4), symmetric] assms(2) by (auto dest!: in_set_dropD)
  then have "filter ?p (drop index (take stop items)) = drop index (take stop items)" "filter ?p (drop stop items) = []"
    by (auto simp: filter_id_conv filter_empty_conv)
  ultimately have "filter ?p (drop index items) = drop index (take stop items)"
    by (metis append_Nil2 filter_append)
  then show ?thesis
    by (simp add: drop_take)
qed

lemma lo_le_index:
  assumes "index < length items" "filter (\<lambda>i. lo \<le> it_seq i) items = drop index items"
  shows "lo \<le> it_seq (items ! index)"
proof -
  have "items ! index \<in> set (drop index items)"
    using assms(1) by (metis Cons_nth_drop_Suc list.set_intros(1))
  then show ?thesis
    by (simp add: assms(2) [symmetric])
qed

definition split_span_ok :: "(bytes \<Rightarrow> bytes) \<Rightarrow> item list \<Rightarrow> nat \<Rightarrow> u64 \<Rightarrow> u64 \<Rightarrow> u64 \<times> u64 \<times> mode \<Rightarrow> bool" where
  "split_span_ok blake3 items index lo upper = (\<lambda>(l, u, md). lo \<le> l \<and> l \<le> u \<and> u \<le> upper \<and>
     md = Fingerprint (fingerprint blake3 (items_in items l u)) \<and> length (items_in items l u) \<le> length items - index)"

lemma split_loop_spans:
  assumes "seq_sorted items" "index < length items" "\<forall>i\<in>set items. it_seq i < upper"
    "filter (\<lambda>i. lo \<le> it_seq i) items = drop index items"
  shows "\<forall>sp\<in>set (spans_from lo (split_loop blake3 items upper factor index)). split_span_ok blake3 items index lo upper sp"
  using assms(1,2,4)
proof (induction index arbitrary: lo rule: split_induct [where factor = factor])
  case (final index)
  have "it_seq (items ! index) < upper"
    using final(1) assms(3) by simp
  then have "lo \<le> upper"
    using lo_le_index [OF final(1,3)] by simp
  then have "items_in items lo upper = drop index items"
    using assms(1,3) final by (auto simp: items_in_from filter_id_conv dest: in_set_dropD)
  then show ?case
    using final \<open>lo \<le> upper\<close> by (simp add: split_loop_Cons Let_def split_span_ok_def)
next
  case (more index stop)
  let ?b = "it_seq (items ! stop)"
  have b: "lo \<le> ?b" "?b \<le> upper"
    using lo_le_index [of index items lo] more assms(3) by (auto simp: order.strict_iff_order)
  have cut: "filter (\<lambda>i. ?b \<le> it_seq i) items = drop stop items"
    using sorted_cut(2) [OF assms(1) _ more(2,6)] more(1) by simp
  have "items_in items lo ?b = take (stop - index) (drop index items)"
    using items_in_from [OF assms(1) b(1) more(8)] filter_below_cut [OF assms(1) more(1,2,6)] by simp
  then have "split_span_ok blake3 items index lo upper (lo, ?b, Fingerprint (fingerprint blake3 (take (stop - index) (drop index items))))"
    using b more(1,2) by (simp add: split_span_ok_def)
  moreover have "split_span_ok blake3 items index lo upper sp" if "split_span_ok blake3 items stop ?b upper sp" for sp
    using that b(1) more(1) by (auto simp: split_span_ok_def)
  ultimately show ?case
    using more(1-3) more(7) [OF cut] by (auto simp: split_loop_Cons Let_def)
qed

text \<open>\<open>tells blake3 local sp\<close>: what a span says is true of the items \<open>local\<close>.\<close>

definition tells :: "(bytes \<Rightarrow> bytes) \<Rightarrow> item list \<Rightarrow> u64 \<times> u64 \<times> mode \<Rightarrow> bool" where
  "tells blake3 local = (\<lambda>(l, u, md). case md of
     Skip \<Rightarrow> True
   | Fingerprint f \<Rightarrow> f = fingerprint blake3 (items_in local l u)
   | IdList ids \<Rightarrow> set ids = it_id ` set (items_in local l u))"

lemma slice_sorted: "local_ok local \<Longrightarrow> lower \<le> upper \<Longrightarrow> seq_sorted (items_in local lower upper)"
  using slice_ok_items_in by (simp add: slice_ok_def)

lemma items_in_items_in:
  assumes "local_ok local" "lower \<le> l" "l \<le> u" "u \<le> upper"
  shows "items_in (items_in local lower upper) l u = items_in local l u"
proof -
  have "lower \<le> upper"
    using assms(2-4) by simp
  then show ?thesis
    using assms slice_sorted [of local lower upper]
    by (auto simp: items_in_eq local_ok_def intro!: filter_cong)
qed

lemma split_bounded_spans:
  assumes "local_ok local" "lower \<le> upper" "items = items_in local lower upper" "items \<noteq> []"
  shows "\<forall>sp\<in>set (spans_from lower (split_bounded blake3 items upper budget)). tells blake3 local sp \<and> snd (snd sp) \<noteq> Skip"
proof -
  have ok: "slice_ok lower upper items"
    using slice_ok_items_in [OF assms(1,2)] assms(3) by simp
  then have "filter (\<lambda>i. lower \<le> it_seq i) items = drop 0 items"
    by (simp add: slice_ok_def filter_id_conv)
  then have "\<forall>sp\<in>set (spans_from lower (split_loop blake3 items upper f 0)). split_span_ok blake3 items 0 lower upper sp" for f
    using ok assms(4) by (intro split_loop_spans) (auto simp: slice_ok_def)
  then have "\<forall>sp\<in>set (spans_from lower (split_loop blake3 items upper f 0)). tells blake3 local sp \<and> snd (snd sp) \<noteq> Skip" for f
    using items_in_items_in [OF assms(1)] assms(3) by (fastforce simp: split_span_ok_def tells_def)
  moreover have "tells blake3 local (lower, upper, IdList (ids_of items))"
    "tells blake3 local (lower, upper, Fingerprint (fingerprint blake3 items))"
    by (simp_all add: tells_def assms(3))
  ultimately show ?thesis
    by (simp add: split_bounded_def Let_def)
qed

lemma split_loop_smaller:
  assumes "seq_sorted items" "\<forall>i\<in>set items. lower \<le> it_seq i \<and> it_seq i < upper"
    "0 < length items" "length (split_loop blake3 items upper factor 0) \<noteq> 1"
    "(l, u, md) \<in> set (spans_from lower (split_loop blake3 items upper factor 0))"
  shows "lower \<le> l \<and> l \<le> u \<and> u \<le> upper \<and> length (items_in items l u) < length items"
proof -
  define stop where "stop = chunk_stop items factor 0"
  define b where "b = it_seq (items ! stop)"
  note spec = chunk_stop_spec [OF assms(1,3), of factor, folded stop_def]
  have stop: "0 < stop" "stop < length items"
    using spec assms(3,4) by (auto simp: split_loop_Cons stop_def [symmetric] Let_def le_less)
  note cut = sorted_cut [OF assms(1) stop spec(3) [OF stop(2), THEN conjunct1], folded b_def]
  have b: "lower \<le> b" "b \<le> upper"
    using assms(2) nth_mem [OF stop(2)] by (auto simp: b_def order.strict_iff_order)
  have "items_in items lower b = take stop items"
    unfolding items_in_eq [OF assms(1) b(1)] cut(1) [symmetric]
    using assms(2) by (auto intro!: filter_cong)
  then have first: "length (items_in items lower b) = stop"
    using stop(2) by simp
  have later: "\<forall>sp\<in>set (spans_from b (split_loop blake3 items upper factor stop)). split_span_ok blake3 items stop b upper sp"
    using assms(1,2) stop(2) cut(2) by (intro split_loop_spans) auto
  have "(l = lower \<and> u = b) \<or> (l, u, md) \<in> set (spans_from b (split_loop blake3 items upper factor stop))"
    using assms(5) assms(3) stop(2) by (auto simp: split_loop_Cons Let_def stop_def b_def)
  then consider "l = lower" "u = b" | "split_span_ok blake3 items stop b upper (l, u, md)"
    using later by blast
  then show ?thesis
  proof cases
    case 1
    then show ?thesis
      using first stop b by simp
  next
    case 2
    then have "b \<le> l" "l \<le> u" "u \<le> upper" "length (items_in items l u) \<le> length items - stop"
      by (simp_all add: split_span_ok_def)
    then show ?thesis
      using stop b(1) by force
  qed
qed

text \<open>The ranges of a split end where the span ends, in ascending order.\<close>

lemma split_bounded_cover:
  assumes "seq_sorted items" "items \<noteq> []" "\<forall>i\<in>set items. it_seq i < upper"
  shows "split_bounded blake3 items upper budget \<noteq> [] \<and>
    sorted_wrt (<) (map rg_upper (split_bounded blake3 items upper budget)) \<and>
    rg_upper (last (split_bounded blake3 items upper budget)) = upper"
  using split_loop_cover [OF assms(1) _ assms(3), of 0 blake3 "min SPLIT_FACTOR (max budget 1)"] assms(2)
  by (simp add: split_bounded_def Let_def)

text \<open>C36. A split makes progress: a span that holds more items than an id list should name, and no
  more than one may name, comes back, for every budget, as ranges that cover the span in ascending
  order, none of them settled; each either lists exactly the ids of the items in it or carries the
  fingerprint of the items in it, and then these are strictly fewer than the span held.\<close>

theorem split_makes_progress:
  fixes local lower upper blake3 budget
  defines "items \<equiv> items_in local lower upper"
  defines "ranges \<equiv> split_bounded blake3 items upper budget"
  assumes "local_ok local" "lower \<le> upper" "IDLIST_LIMIT < length items" "length items \<le> MAX_IDS_PER_RANGE"
  shows "ranges \<noteq> [] \<and> sorted_wrt (<) (map rg_upper ranges) \<and> rg_upper (last ranges) = upper \<and>
    (\<forall>(l, u, md)\<in>set (spans_from lower ranges).
      (\<exists>ids. md = IdList ids \<and> set ids = it_id ` set (items_in local l u)) \<or>
      (md = Fingerprint (fingerprint blake3 (items_in local l u)) \<and> length (items_in local l u) < length items))"
proof -
  let ?factor = "min SPLIT_FACTOR (max budget 1)"
  have ok: "seq_sorted items" "\<forall>i\<in>set items. lower \<le> it_seq i \<and> it_seq i < upper" and ne: "0 < length items" "items \<noteq> []"
    using slice_ok_items_in [OF assms(3,4)] assms(5) by (auto simp: slice_ok_def items_def)
  have "length (items_in local l u) < length items" if sp: "(l, u, Fingerprint f) \<in> set (spans_from lower ranges)" for l u f
  proof -
    have "length (split_loop blake3 items upper ?factor 0) \<noteq> 1"
      and "(l, u, Fingerprint f) \<in> set (spans_from lower (split_loop blake3 items upper ?factor 0))"
      using assms(5,6) sp by (auto simp: ranges_def split_bounded_def Let_def split: if_splits)
    from split_loop_smaller [OF ok ne(1) this] show ?thesis
      using items_in_items_in [OF assms(3), of lower l u upper] by (auto simp: items_def)
  qed
  moreover have "\<forall>sp\<in>set (spans_from lower ranges). tells blake3 local sp \<and> snd (snd sp) \<noteq> Skip"
    unfolding ranges_def by (rule split_bounded_spans [OF assms(3,4) items_def [THEN meta_eq_to_obj_eq] ne(2)])
  ultimately show ?thesis
    using split_bounded_cover [OF ok(1) ne(2), of upper blake3 budget] ok(2)
    by (fastforce simp: tells_def ranges_def split: mode.splits)
qed

definition dense_items :: "item list" where
  "dense_items = map (\<lambda>n. \<lparr>it_seq = of_nat n, it_id = replicate 32 (of_nat n)\<rparr>) [1..<21]"

theorem split_makes_progress_witness:
  "(0, 4, Fingerprint (fingerprint zero_hash (items_in dense_items 0 4))) \<in>
     set (spans_from 0 (split_bounded zero_hash (items_in dense_items 0 100) 100 8)) \<and>
   length (items_in dense_items 0 4) < length (items_in dense_items 0 100)"
proof -
  have "(0, 4, Fingerprint (fingerprint zero_hash (items_in dense_items 0 4))) \<in>
    set (spans_from 0 (split_bounded zero_hash (items_in dense_items 0 100) 100 8))"
    "local_ok dense_items" "IDLIST_LIMIT < length (items_in dense_items 0 100)"
    "length (items_in dense_items 0 100) \<le> MAX_IDS_PER_RANGE"
    by code_simp+
  then show ?thesis
    using split_makes_progress [where local = dense_items and lower = 0 and upper = 100 and ?blake3.0 = zero_hash and budget = 8]
    by fastforce
qed

end
