(* ===== verification/Exchange.thy ===== *)
theory Exchange
  imports Reconcile
begin

text \<open>
  The whole reconciliation exchange, client and relay taking turns as \<open>negentropy/reconcile.rs\<close>
  describes it: the client opens with \<open>initiate\<close>, the relay answers with \<open>respond\<close> and pushes, the
  client applies what it received and goes on with \<open>advance\<close> until it has nothing to say. The relay
  may accept writes between rounds and the client may hold more than the pushes gave it. The result
  is that an exchange that ends has delivered everything the relay held when it began.
\<close>

subsection \<open>Fingerprints\<close>

lemma to_be_bytes_inject: "to_be_bytes 8 (v :: u64) = to_be_bytes 8 w \<longleftrightarrow> v = w"
proof
  assume "to_be_bytes 8 v = to_be_bytes 8 w"
  moreover have "foldl be_step 0 (to_be_bytes 8 x) = x" for x :: u64
    using unsigned_less [of x, where ?'a = nat] by (intro foldl_be_to_be_bytes word_small_take_bit) simp
  ultimately show "v = w"
    by metis
qed simp

lemma length_fingerprint_items:
  "\<forall>i\<in>set xs. length (it_id i) = 32 \<Longrightarrow> length (concat (map item_bytes xs)) = 40 * length xs"
  by (induction xs) (simp_all add: item_bytes_def)

lemma fingerprint_input_inject:
  assumes "fingerprint_input xs = fingerprint_input ys"
    "\<forall>i\<in>set xs. length (it_id i) = 32" "\<forall>i\<in>set ys. length (it_id i) = 32"
  shows "xs = ys"
proof -
  have "concat (map item_bytes xs) = concat (map item_bytes ys)"
    using assms(1) by (simp add: fingerprint_input_def)
  moreover have len: "length xs = length ys"
    using calculation length_fingerprint_items [OF assms(2)] length_fingerprint_items [OF assms(3)] by simp
  ultimately have "map item_bytes xs = map item_bytes ys"
    using assms(2,3) by (intro concat_injective) (auto simp: item_bytes_def set_zip)
  moreover have "i = j" if "i \<in> set xs" "j \<in> set ys" "item_bytes i = item_bytes j" for i j
    using that by (simp add: item_bytes_def to_be_bytes_inject)
  ultimately show ?thesis
    by (metis len list_eq_iff_nth_eq length_map nth_map nth_mem)
qed

text \<open>No slice of one side collides with a slice of the other side that ends at the same bound.\<close>

definition no_collision :: "(bytes \<Rightarrow> bytes) \<Rightarrow> item list \<Rightarrow> item list \<Rightarrow> bool" where
  "no_collision blake3 R C \<longleftrightarrow>
    (\<forall>l l' u. l \<le> u \<longrightarrow> l' \<le> u \<longrightarrow>
       blake3 (fingerprint_input (items_in R l u)) = blake3 (fingerprint_input (items_in C l' u)) \<longrightarrow>
       fingerprint_input (items_in R l u) = fingerprint_input (items_in C l' u))"

lemma fingerprint_eqD:
  assumes "no_collision blake3 R C" "local_ok R" "local_ok C" "l \<le> u" "l' \<le> u"
    "fingerprint blake3 (items_in R l u) = fingerprint blake3 (items_in C l' u)"
  shows "items_in R l u = items_in C l' u"
proof (rule fingerprint_input_inject)
  show "fingerprint_input (items_in R l u) = fingerprint_input (items_in C l' u)"
    using assms(1,4,5,6) by (simp add: no_collision_def fingerprint_def)
qed (use slice_ok_items_in assms(2-5) in \<open>auto simp: slice_ok_def\<close>)

subsection \<open>The spans of a reply\<close>

lemma spans_from_append:
  "spans_from lower (rs @ rs') =
    spans_from lower rs @ spans_from (if rs = [] then lower else rg_upper (last rs)) rs'"
  by (induction rs arbitrary: lower) auto

context reconciliation_role
begin

lemma answer_loop_spans:
  assumes "local_ok local" "\<And>x. length (blake3 x) = 32"
    and "\<And>l u md budget. (l, u, md) \<in> S \<Longrightarrow> l \<le> u \<Longrightarrow> 1 \<le> budget \<Longrightarrow>
      \<forall>sp\<in>set (spans_from l (answer blake3 (items_in local l u) budget (l, u, md))). Q sp"
  shows "\<lbrakk>set (spans_from lower rs) \<subseteq> S; sorted_wrt (<) (map rg_upper rs);
    lower = (if ranges = [] then 0 else rg_upper (last ranges));
    ranges \<noteq> [] \<Longrightarrow> \<forall>r\<in>set rs. lower < rg_upper r; \<forall>sp\<in>set (spans_from 0 ranges). Q sp\<rbrakk> \<Longrightarrow>
    \<forall>sp\<in>set (spans_from 0 (answer_loop (answer blake3) local ranges (spans_from lower rs))). Q sp"
proof (induction rs arbitrary: ranges lower)
  case (Cons r rs)
  let ?budget = "span_budget (length ranges) (length rs + 1)"
  let ?new = "answer blake3 (items_in local lower (rg_upper r)) ?budget (lower, rg_upper r, rg_mode r)"
  have lu: "lower \<le> rg_upper r" and b: "1 \<le> ?budget"
    using Cons.prems(3,4) by (auto simp: span_budget_def Let_def split: if_splits)
  then have "answer_ok lower (rg_upper r) ?budget ?new"
    using assms(1,2) by (intro answers slice_ok_items_in)
  then have new: "?new \<noteq> []" "rg_upper (last ?new) = rg_upper r"
    by (simp_all add: answer_ok_def)
  have "\<forall>sp\<in>set (spans_from lower ?new). Q sp"
    using assms(3) [OF _ lu b, of "rg_mode r"] Cons.prems(1) by simp
  then have "\<forall>sp\<in>set (spans_from 0 (ranges @ ?new)). Q sp"
    using Cons.prems(3,5) by (auto simp: spans_from_append)
  then have "\<forall>sp\<in>set (spans_from 0 (answer_loop (answer blake3) local (ranges @ ?new) (spans_from (rg_upper r) rs))). Q sp"
    using Cons.prems(1,2) new by (intro Cons.IH) auto
  then show ?case
    by simp
qed simp

end

lemma respond_reply_spans:
  assumes "local_ok R" "\<And>x. length (blake3 x) = 32" "message_wf m"
    and "\<And>l u md budget. (l, u, md) \<in> set (spans m) \<Longrightarrow> l \<le> u \<Longrightarrow> 1 \<le> budget \<Longrightarrow>
      \<forall>sp\<in>set (spans_from l (fst (respond_span blake3 (items_in R l u) budget (l, u, md)))). Q sp"
  shows "\<forall>sp\<in>set (spans (resp_reply (respond blake3 R m))). Q sp"
  using relay.answer_loop_spans [OF assms(1,2,4), where lower = 0 and rs = "msg_ranges m" and ranges = "[]"]
    assms(3)
  by (simp add: respond_reply message_wf_def cover_def) (simp add: spans_def)

lemma advance_reply_spans:
  assumes "local_ok C" "\<And>x. length (blake3 x) = 32" "message_wf m"
    "cs_reply (advance_client blake3 C m) = Some reply"
    and "\<And>l u md budget. (l, u, md) \<in> set (spans m) \<Longrightarrow> l \<le> u \<Longrightarrow> 1 \<le> budget \<Longrightarrow>
      \<forall>sp\<in>set (spans_from l (fst (advance_span blake3 (items_in C l u) budget (l, u, md)))). Q sp"
  shows "\<forall>sp\<in>set (spans reply). Q sp"
  using client.answer_loop_spans [OF assms(1,2,5), where lower = 0 and rs = "msg_ranges m" and ranges = "[]"]
    assms(3) advance_reply [OF assms(4)]
  by (simp add: message_wf_def cover_def) (simp add: spans_def)

subsection \<open>What the relay pushes\<close>

definition span_push :: "item list \<Rightarrow> u64 \<times> u64 \<times> mode \<Rightarrow> id set" where
  "span_push R = (\<lambda>(l, u, md). case md of
     IdList theirs \<Rightarrow> {i \<in> it_id ` set (items_in R l u). i \<notin> set theirs} | _ \<Rightarrow> {})"

lemma snd_respond_span: "snd (respond_span blake3 (items_in R l u) budget (l, u, md)) = span_push R (l, u, md)"
  by (cases md) (auto simp: span_push_def Let_def)

lemma respond_loop_push:
  "snd (respond_loop blake3 R (ranges, push) sps) = push \<union> (\<Union>sp\<in>set sps. span_push R sp)"
proof (induction sps arbitrary: ranges push)
  case (Cons sp sps)
  obtain l u md where "sp = (l, u, md)"
    by (cases sp)
  then show ?case
    using Cons.IH snd_respond_span [of blake3 R l u _ md]
    by (simp add: Let_def case_prod_beta Un_assoc)
qed simp

lemma finite_span_push: "finite (span_push R sp)"
  by (auto simp: span_push_def split: prod.splits mode.splits)

lemma set_resp_push: "set (resp_push (respond blake3 R m)) = (\<Union>sp\<in>set (spans m). span_push R sp)"
  by (simp add: respond_def case_prod_beta respond_loop_push finite_span_push)

lemma spans_from_le:
  "sorted_wrt (<) (map rg_upper rs) \<Longrightarrow> \<forall>r\<in>set rs. lower \<le> rg_upper r \<Longrightarrow>
    (l, u, md) \<in> set (spans_from lower rs) \<Longrightarrow> l \<le> u"
proof (induction rs arbitrary: lower)
  case (Cons r rs)
  have "\<forall>x\<in>set rs. rg_upper r \<le> rg_upper x"
    using Cons.prems(1) by (auto intro: less_imp_le)
  then show ?case
    using Cons by auto
qed simp

lemma spans_le: "message_wf m \<Longrightarrow> (l, u, md) \<in> set (spans m) \<Longrightarrow> l \<le> u"
  unfolding spans_def by (rule spans_from_le [where lower = 0]) (auto simp: message_wf_def cover_def)

text \<open>The relay pushes exactly what the client lacks: the ids pushed in answer to a message are
  those of the relay's items that lie in a span for which the client listed its ids and whose id
  the client did not list; they go out in ascending order, once each.\<close>

theorem respond_push_exact:
  assumes "local_ok R" "message_wf m"
  shows "set (resp_push (respond blake3 R m)) =
      {it_id i | i l u theirs. i \<in> set R \<and> (l, u, IdList theirs) \<in> set (spans m) \<and>
        l \<le> it_seq i \<and> it_seq i < u \<and> it_id i \<notin> set theirs} \<and>
    sorted_wrt (<) (resp_push (respond blake3 R m))"
proof
  have "span_push R (l, u, md) = {it_id i | i theirs. i \<in> set R \<and> md = IdList theirs \<and>
      l \<le> it_seq i \<and> it_seq i < u \<and> it_id i \<notin> set theirs}" if "l \<le> u" for l u md
    using that assms(1) by (auto simp: span_push_def items_in_eq local_ok_def split: mode.splits)
  then have "(\<Union>sp\<in>set (spans m). span_push R sp) = (\<Union>(l, u, md)\<in>set (spans m). {it_id i | i theirs. i \<in> set R \<and>
      md = IdList theirs \<and> l \<le> it_seq i \<and> it_seq i < u \<and> it_id i \<notin> set theirs})"
    using spans_le [OF assms(2)] by (auto intro!: SUP_cong)
  then show "set (resp_push (respond blake3 R m)) =
      {it_id i | i l u theirs. i \<in> set R \<and> (l, u, IdList theirs) \<in> set (spans m) \<and>
        l \<le> it_seq i \<and> it_seq i < u \<and> it_id i \<notin> set theirs}"
    unfolding set_resp_push by blast
  show "sorted_wrt (<) (resp_push (respond blake3 R m))"
    by (simp add: respond_def case_prod_beta strict_sorted_iff)
qed

theorem respond_push_exact_witness:
  "sorted_wrt (<) (resp_push (respond zero_hash sample_items ask_all)) \<and>
   set (resp_push (respond zero_hash sample_items ask_all)) =
     {it_id i | i l u theirs. i \<in> set sample_items \<and> (l, u, IdList theirs) \<in> set (spans ask_all) \<and>
       l \<le> it_seq i \<and> it_seq i < u \<and> it_id i \<notin> set theirs}"
  using respond_push_exact [OF sample_local_ok, of ask_all zero_hash] ask_all_decodes
  by (simp add: recon.dec_iff)

subsection \<open>The exchange\<close>

text \<open>\<open>delivered R0 K sp\<close>: every item the relay held at the start that lies in the span has its id
  among the ids \<open>K\<close>.\<close>

definition delivered :: "item list \<Rightarrow> id set \<Rightarrow> u64 \<times> u64 \<times> mode \<Rightarrow> bool" where
  "delivered R0 K = (\<lambda>(l, u, md). \<forall>i\<in>set R0. l \<le> it_seq i \<longrightarrow> it_seq i < u \<longrightarrow> it_id i \<in> K)"

lemma delivered_mono: "delivered R0 K sp \<Longrightarrow> K \<subseteq> K' \<Longrightarrow> delivered R0 K' sp"
  by (auto simp: delivered_def)

lemma delivered_items:
  assumes "local_ok R" "set R0 \<subseteq> set R" "l \<le> u" "it_id ` set (items_in R l u) \<subseteq> K"
  shows "delivered R0 K (l, u, md)"
  using assms by (auto simp: delivered_def items_in_eq local_ok_def)

text \<open>What a span says of its sender's items. A fingerprint may be of a slice that starts below the
  span: \<open>sync.rs\<close> reopens the last range of a split with the fingerprint of the whole span.\<close>

definition says :: "(bytes \<Rightarrow> bytes) \<Rightarrow> item list \<Rightarrow> u64 \<times> u64 \<times> mode \<Rightarrow> bool" where
  "says blake3 local = (\<lambda>(l, u, md). case md of
     Skip \<Rightarrow> True
   | Fingerprint f \<Rightarrow> \<exists>l0\<le>l. f = fingerprint blake3 (items_in local l0 u)
   | IdList ids \<Rightarrow> set ids = it_id ` set (items_in local l u))"

lemma tells_says: "tells blake3 local sp \<Longrightarrow> says blake3 local sp"
  by (cases sp; cases "snd (snd sp)") (auto simp: tells_def says_def intro: exI [where x = "fst sp"])

text \<open>A message a role sent: what it says is true of the sender's items, and what it calls settled
  has been delivered.\<close>

definition sent_ok :: "(bytes \<Rightarrow> bytes) \<Rightarrow> item list \<Rightarrow> item list \<Rightarrow> id set \<Rightarrow> u64 \<times> u64 \<times> mode \<Rightarrow> bool" where
  "sent_ok blake3 local R0 K sp \<longleftrightarrow> says blake3 local sp \<and> (snd (snd sp) = Skip \<longrightarrow> delivered R0 K sp)"

lemma sent_ok_mono: "sent_ok blake3 local R0 K sp \<Longrightarrow> K \<subseteq> K' \<Longrightarrow> sent_ok blake3 local R0 K' sp"
  by (auto simp: sent_ok_def intro: delivered_mono)

lemma split_sent_ok:
  assumes "local_ok local" "l \<le> u" "IDLIST_LIMIT < length (items_in local l u)"
  shows "\<forall>sp\<in>set (spans_from l (split_bounded blake3 (items_in local l u) u budget)). sent_ok blake3 local R0 K sp"
proof -
  have "items_in local l u \<noteq> []"
    using assms(3) by auto
  from split_bounded_spans [OF assms(1,2) refl this] show ?thesis
    unfolding sent_ok_def using tells_says by blast
qed

lemma ids_sent_ok: "sent_ok blake3 local R0 K (l, u, IdList (ids_of (items_in local l u)))"
  by (simp add: sent_ok_def says_def)

lemma skip_sent_ok: "delivered R0 K (l, u, Skip) \<Longrightarrow> sent_ok blake3 local R0 K (l, u, Skip)"
  by (simp add: sent_ok_def says_def)

lemma same_slice_delivered:
  assumes "local_ok R" "local_ok C" "no_collision blake3 R C" "set R0 \<subseteq> set R" "l0 \<le> l" "l \<le> u" "l1 \<le> u"
    "it_id ` set C \<subseteq> K" "fingerprint blake3 (items_in R l0 u) = fingerprint blake3 (items_in C l1 u)"
  shows "delivered R0 K (l, u, md)"
proof (rule delivered_items [OF assms(1,4,6)])
  have l0: "l0 \<le> u"
    using assms(5,6) by (rule order_trans)
  then have eq: "items_in R l0 u = items_in C l1 u"
    by (rule fingerprint_eqD [OF assms(3,1,2) _ assms(7,9)])
  have "set (items_in R l u) \<subseteq> set (items_in R l0 u)"
    using l0 assms(1,6) order_trans [OF assms(5)] by (auto simp: items_in_eq local_ok_def)
  also have "\<dots> \<subseteq> set C"
    unfolding eq using assms(2,7) by (auto simp: items_in_eq local_ok_def)
  finally show "it_id ` set (items_in R l u) \<subseteq> K"
    by (rule order_trans [OF image_mono assms(8)])
qed

lemma relay_span_sent_ok:
  assumes "local_ok R" "local_ok C" "no_collision blake3 R C" "set R0 \<subseteq> set R" "l \<le> u"
    "sent_ok blake3 C R0 K (l, u, md)" "it_id ` set C \<subseteq> K" "K \<union> span_push R (l, u, md) \<subseteq> K'"
  shows "\<forall>sp\<in>set (spans_from l (fst (respond_span blake3 (items_in R l u) budget (l, u, md)))). sent_ok blake3 R R0 K' sp"
proof (cases md)
  case Skip
  then show ?thesis
    using assms(6,8) delivered_mono [of R0 K "(l, u, Skip)" K'] by (auto simp: sent_ok_def says_def)
next
  case (Fingerprint f)
  then obtain l1 where l1: "l1 \<le> l" "f = fingerprint blake3 (items_in C l1 u)"
    using assms(6) by (auto simp: sent_ok_def says_def)
  have "delivered R0 K' (l, u, Skip)" if "fingerprint blake3 (items_in R l u) = f"
    using that assms l1 by (intro same_slice_delivered [OF assms(1-4) order_refl assms(5), of l1]) auto
  then show ?thesis
    using Fingerprint split_sent_ok [OF assms(1,5), of blake3 budget R0 K']
    by (simp add: Let_def ids_sent_ok skip_sent_ok)
next
  case (IdList theirs)
  have "it_id ` set (items_in R l u) \<subseteq> set theirs \<union> span_push R (l, u, md)"
    by (auto simp: IdList span_push_def)
  moreover have "set theirs \<subseteq> it_id ` set C"
    using assms(2,5,6) IdList by (auto simp: sent_ok_def says_def items_in_eq local_ok_def)
  ultimately have "delivered R0 K' (l, u, Skip)"
    using assms(7,8) by (intro delivered_items [OF assms(1,4,5)]) blast
  then show ?thesis
    using IdList split_sent_ok [OF assms(1,5), of blake3 budget R0 K']
    by (simp add: Let_def ids_sent_ok skip_sent_ok)
qed

lemma client_span_sent_ok:
  assumes "local_ok R" "local_ok C" "no_collision blake3 R C" "set R0 \<subseteq> set R" "l \<le> u"
    "sent_ok blake3 R R0 K (l, u, md)" "it_id ` set C \<subseteq> K"
  shows "\<forall>sp\<in>set (spans_from l (fst (advance_span blake3 (items_in C l u) budget (l, u, md)))). sent_ok blake3 C R0 K sp"
    and "\<not> snd (snd (snd (advance_span blake3 (items_in C l u) budget (l, u, md)))) \<Longrightarrow> delivered R0 K (l, u, md)"
proof -
  have fp: "delivered R0 K (l, u, md')" if md: "md = Fingerprint (fingerprint blake3 (items_in C l u))" for md'
  proof -
    obtain l0 where "l0 \<le> l" "fingerprint blake3 (items_in R l0 u) = fingerprint blake3 (items_in C l u)"
      using md assms(6) by (auto simp: sent_ok_def says_def)
    then show ?thesis
      using assms(5,7) by (intro same_slice_delivered [OF assms(1-4)]) auto
  qed
  have ids: "delivered R0 K (l, u, md')" if "md = IdList theirs" "it_id ` set (items_in C l u) = set theirs" for theirs md'
    using that assms(2,5-7) by (intro delivered_items [OF assms(1,4,5)])
      (auto simp: sent_ok_def says_def items_in_eq [of C] local_ok_def)
  show "\<forall>sp\<in>set (spans_from l (fst (advance_span blake3 (items_in C l u) budget (l, u, md)))). sent_ok blake3 C R0 K sp"
    using fp ids assms(6) split_sent_ok [OF assms(2,5), of blake3 budget R0 K]
    by (cases md) (auto simp: Let_def ids_sent_ok skip_sent_ok sent_ok_def [of _ R])
  show "delivered R0 K (l, u, md)"
    if "\<not> snd (snd (snd (advance_span blake3 (items_in C l u) budget (l, u, md))))"
    using that fp ids assms(6) by (cases md) (auto simp: Let_def sent_ok_def split: if_splits)
qed

lemma relay_message_ok:
  assumes "local_ok R" "local_ok C" "no_collision blake3 R C" "set R0 \<subseteq> set R" "\<And>x. length (blake3 x) = 32"
    "message_wf m" "\<forall>sp\<in>set (spans m). sent_ok blake3 C R0 K sp" "it_id ` set C \<subseteq> K"
  shows "\<forall>sp\<in>set (spans (resp_reply (respond blake3 R m))).
    sent_ok blake3 R R0 (K \<union> set (resp_push (respond blake3 R m))) sp"
proof (rule respond_reply_spans [OF assms(1,5,6)])
  fix l u md and budget :: nat
  assume sp: "(l, u, md) \<in> set (spans m)" "l \<le> u"
  show "\<forall>sp\<in>set (spans_from l (fst (respond_span blake3 (items_in R l u) budget (l, u, md)))).
    sent_ok blake3 R R0 (K \<union> set (resp_push (respond blake3 R m))) sp"
    using assms sp by (intro relay_span_sent_ok [of R C _ _ l u K]) (auto simp: set_resp_push)
qed

lemma client_message_ok:
  assumes "local_ok R" "local_ok C" "no_collision blake3 R C" "set R0 \<subseteq> set R" "\<And>x. length (blake3 x) = 32"
    "message_wf m" "\<forall>sp\<in>set (spans m). sent_ok blake3 R R0 K sp" "it_id ` set C \<subseteq> K"
    "cs_reply (advance_client blake3 C m) = Some reply"
  shows "\<forall>sp\<in>set (spans reply). sent_ok blake3 C R0 K sp"
proof (rule advance_reply_spans [OF assms(2,5,6,9)])
  fix l u md and budget :: nat
  assume sp: "(l, u, md) \<in> set (spans m)" "l \<le> u"
  show "\<forall>sp\<in>set (spans_from l (fst (advance_span blake3 (items_in C l u) budget (l, u, md)))). sent_ok blake3 C R0 K sp"
    using assms sp by (intro client_span_sent_ok [of R]) auto
qed

lemma advance_span_quiet:
  "\<not> snd (snd (snd (advance_span blake3 mine budget sp))) \<Longrightarrow>
    fst (snd (advance_span blake3 mine budget sp)) = {} \<and> fst (snd (snd (advance_span blake3 mine budget sp))) = {}"
  by (cases "(blake3, mine, budget, sp)" rule: advance_span.cases) (auto simp: Let_def split: if_splits)

lemma advance_loop_quiet:
  "\<not> snd (snd (snd (advance_loop blake3 C (ranges, want, send, say) sps))) \<Longrightarrow>
    \<not> say \<and> fst (snd (advance_loop blake3 C (ranges, want, send, say) sps)) = want \<and>
    fst (snd (snd (advance_loop blake3 C (ranges, want, send, say) sps))) = send \<and>
    (\<forall>(l, u, md)\<in>set sps. \<exists>budget. \<not> snd (snd (snd (advance_span blake3 (items_in C l u) budget (l, u, md)))))"
proof (induction sps arbitrary: ranges want send say)
  case (Cons sp sps)
  obtain l u md where sp: "sp = (l, u, md)"
    by (cases sp)
  let ?budget = "span_budget (length ranges) (Suc (length sps))"
  obtain new w s talk where ans: "advance_span blake3 (items_in C l u) ?budget (l, u, md) = (new, w, s, talk)"
    by (cases "advance_span blake3 (items_in C l u) ?budget (l, u, md)")
  have loop: "advance_loop blake3 C (ranges, want, send, say) (sp # sps) =
    advance_loop blake3 C (ranges @ new, want \<union> w, send \<union> s, say \<or> talk) sps"
    using ans by (simp add: sp Let_def)
  note ih = Cons.IH [OF Cons.prems [unfolded loop]]
  then have "w = {}" "s = {}"
    using advance_span_quiet [of blake3 "items_in C l u" ?budget "(l, u, md)"] by (simp_all add: ans)
  moreover have "\<exists>budget. \<not> snd (snd (snd (advance_span blake3 (items_in C l u) budget (l, u, md))))"
    using ih ans by (intro exI [where x = ?budget]) simp
  moreover have "say = False" "talk = False"
    using ih by simp_all
  ultimately show ?case
    unfolding loop using ih by (simp add: sp)
qed simp

text \<open>A client step with nothing to say has nothing to move: when \<open>advance\<close> withholds a reply,
  it wants no envelope and sends none.\<close>

theorem done_step_moves_nothing:
  assumes "done_step (advance_client blake3 local m)"
  shows "cs_want (advance_client blake3 local m) = [] \<and> cs_send (advance_client blake3 local m) = []"
  using assms advance_loop_quiet [of blake3 local "[]" "{}" "{}" False "spans m"]
  by (simp add: done_step_def advance_client_def case_prod_beta split: if_splits)

theorem done_step_moves_nothing_witness:
  "cs_want (advance_client zero_hash sample_items settled) = [] \<and>
   cs_send (advance_client zero_hash sample_items settled) = []"
  by (rule done_step_moves_nothing) (simp add: done_step_def advance_client_def settled_def spans_def)

lemma cover_point:
  "rs \<noteq> [] \<Longrightarrow> lower \<le> x \<Longrightarrow> x < rg_upper (last rs) \<Longrightarrow>
    \<exists>l u md. (l, u, md) \<in> set (spans_from lower rs) \<and> l \<le> x \<and> x < u"
proof (induction rs arbitrary: lower)
  case (Cons r rs)
  show ?case
  proof (cases "x < rg_upper r")
    case True
    then show ?thesis
      using Cons.prems by (intro exI [where x = lower] exI [where x = "rg_upper r"]) auto
  next
    case False
    then show ?thesis
      using Cons.prems Cons.IH [of "rg_upper r"] by (auto simp: not_less split: if_splits)
  qed
qed simp

lemma initiate_ok:
  assumes "local_ok C" "\<forall>i\<in>set C. it_seq i < INFINITY" "\<And>x. length (blake3 x) = 32"
  shows "message_wf (initiate blake3 C)" "\<forall>sp\<in>set (spans (initiate blake3 C)). sent_ok blake3 C R0 K sp"
proof -
  have all: "items_in C 0 INFINITY = C"
    using assms(1,2) by (simp add: items_in_eq local_ok_def filter_id_conv)
  have ok: "slice_ok 0 INFINITY C"
    using slice_ok_items_in [OF assms(1), of 0 INFINITY] by (simp add: all)
  have "answer_ok 0 INFINITY SPLIT_FACTOR (msg_ranges (initiate blake3 C))"
    using answer_range [OF ok _ assms(3), of SPLIT_FACTOR] mode_wf_short_ids [OF ok]
    by (auto simp: initiate_def split_items_def SPLIT_FACTOR_def simp del: mode_wf.simps intro!: answer_single)
  then show "message_wf (initiate blake3 C)"
    by (auto simp: answer_ok_def message_wf_def cover_def SPLIT_FACTOR_def MAX_RANGES_def)
  show "\<forall>sp\<in>set (spans (initiate blake3 C)). sent_ok blake3 C R0 K sp"
    using split_sent_ok [OF assms(1), of 0 INFINITY, unfolded all] ids_sent_ok [of blake3 C R0 K 0 INFINITY, unfolded all]
    by (auto simp: initiate_def spans_def split_items_def)
qed

lemma advance_done_delivered:
  assumes "local_ok R" "local_ok C" "no_collision blake3 R C" "set R0 \<subseteq> set R"
    "message_wf m" "\<forall>sp\<in>set (spans m). sent_ok blake3 R R0 K sp" "it_id ` set C \<subseteq> K"
    "done_step (advance_client blake3 C m)"
  shows "\<forall>sp\<in>set (spans m). delivered R0 K sp"
proof
  fix sp
  assume sp: "sp \<in> set (spans m)"
  obtain l u md where eq: "sp = (l, u, md)"
    by (cases sp)
  have "\<not> snd (snd (snd (advance_loop blake3 C ([], {}, {}, False) (spans m))))"
    using assms(8) by (auto simp: done_step_def advance_client_def case_prod_beta split: if_splits)
  from advance_loop_quiet [OF this] obtain budget where
    "\<not> snd (snd (snd (advance_span blake3 (items_in C l u) budget (l, u, md))))"
    using sp eq by fastforce
  then show "delivered R0 K sp"
    unfolding eq using assms sp eq spans_le [OF assms(5), of l u md]
    by (intro client_span_sent_ok(2) [of R C]) auto
qed

text \<open>The exchange, between the client's turns: the items the client holds, the message it just sent,
  and the ids the relay has pushed so far. \<open>R0\<close> is what the relay held when the exchange began, and
  \<open>turn R m reply P\<close> says that a relay holding \<open>R\<close> may answer \<open>m\<close> with \<open>reply\<close>, pushing \<open>P\<close>.\<close>

inductive exchange :: "((bytes \<Rightarrow> bytes) \<Rightarrow> item list \<Rightarrow> message \<Rightarrow> message \<Rightarrow> id set \<Rightarrow> bool) \<Rightarrow>
    (bytes \<Rightarrow> bytes) \<Rightarrow> item list \<Rightarrow> item list \<Rightarrow> message \<Rightarrow> id set \<Rightarrow> bool"
  for turn blake3 R0 where
  start: "local_ok C \<Longrightarrow> \<forall>i\<in>set C. it_seq i < INFINITY \<Longrightarrow> exchange turn blake3 R0 C (initiate blake3 C) {}"
| round: "exchange turn blake3 R0 C m P \<Longrightarrow> local_ok R \<Longrightarrow> set R0 \<subseteq> set R \<Longrightarrow> no_collision blake3 R C \<Longrightarrow>
    turn blake3 R m reply Q \<Longrightarrow>
    local_ok C' \<Longrightarrow> it_id ` set C \<subseteq> it_id ` set C' \<Longrightarrow> no_collision blake3 R C' \<Longrightarrow>
    cs_reply (advance_client blake3 C' reply) = Some m' \<Longrightarrow>
    exchange turn blake3 R0 C' m' (P \<union> Q)"

text \<open>What the exchange needs of the relay's side: its answers are messages, they say what is true of
  its items, and what they call settled the client held or was pushed.\<close>

locale relay_turn =
  fixes turn :: "(bytes \<Rightarrow> bytes) \<Rightarrow> item list \<Rightarrow> message \<Rightarrow> message \<Rightarrow> id set \<Rightarrow> bool"
  assumes turn_wf: "turn blake3 R m reply Q \<Longrightarrow> local_ok R \<Longrightarrow> (\<And>x. length (blake3 x) = 32) \<Longrightarrow>
      message_wf m \<Longrightarrow> message_wf reply"
    and turn_sent_ok: "turn blake3 R m reply Q \<Longrightarrow> local_ok R \<Longrightarrow> local_ok C \<Longrightarrow> no_collision blake3 R C \<Longrightarrow>
      set R0 \<subseteq> set R \<Longrightarrow> (\<And>x. length (blake3 x) = 32) \<Longrightarrow> message_wf m \<Longrightarrow>
      \<forall>sp\<in>set (spans m). sent_ok blake3 C R0 K sp \<Longrightarrow> it_id ` set C \<subseteq> K \<Longrightarrow>
      \<forall>sp\<in>set (spans reply). sent_ok blake3 R R0 (K \<union> Q) sp"
begin

lemma turn_spans:
  assumes "turn blake3 R m reply Q" "local_ok R" "set R0 \<subseteq> set R" "no_collision blake3 R C" "\<And>x. length (blake3 x) = 32"
    "local_ok C" "message_wf m" "\<forall>sp\<in>set (spans m). sent_ok blake3 C R0 (it_id ` set C \<union> P) sp"
    "it_id ` set C \<subseteq> it_id ` set C'"
  shows "\<forall>sp\<in>set (spans reply). sent_ok blake3 R R0 (it_id ` set C' \<union> (P \<union> Q)) sp"
proof -
  have "\<forall>sp\<in>set (spans reply). sent_ok blake3 R R0 ((it_id ` set C \<union> P) \<union> Q) sp"
    by (rule turn_sent_ok [OF assms(1,2,6,4,3,5,7,8)]) auto
  moreover have "(it_id ` set C \<union> P) \<union> Q \<subseteq> it_id ` set C' \<union> (P \<union> Q)"
    using assms(9) by blast
  ultimately show ?thesis
    using sent_ok_mono by blast
qed

lemma exchange_sent_ok:
  assumes "\<And>x. length (blake3 x) = 32"
  shows "exchange turn blake3 R0 C m P \<Longrightarrow>
    local_ok C \<and> message_wf m \<and> (\<forall>sp\<in>set (spans m). sent_ok blake3 C R0 (it_id ` set C \<union> P) sp)"
proof (induction rule: exchange.induct)
  case (start C)
  then show ?case
    using initiate_ok [OF start assms] by simp
next
  case (round C m P R reply Q C' m')
  have wf: "message_wf reply"
    using turn_wf [OF round(5,2) assms] round.IH by simp
  have "\<forall>sp\<in>set (spans reply). sent_ok blake3 R R0 (it_id ` set C' \<union> (P \<union> Q)) sp"
    using round.IH by (intro turn_spans [OF round(5,2,3,4) assms _ _ _ round(7)]) simp_all
  then have "\<forall>sp\<in>set (spans m'). sent_ok blake3 C' R0 (it_id ` set C' \<union> (P \<union> Q)) sp"
    using round assms wf by (intro client_message_ok [of R C']) auto
  moreover have "message_wf m'"
    using client.answer_message_wf [OF round(6) assms wf] advance_reply [OF round(9)] by simp
  ultimately show ?case
    using round(6) by simp
qed

lemma ended_exchange_delivered:
  assumes "\<And>x. length (blake3 x) = 32" "exchange turn blake3 R0 C m P"
    "local_ok R" "set R0 \<subseteq> set R" "no_collision blake3 R C" "turn blake3 R m reply Q"
    "local_ok C'" "it_id ` set C \<subseteq> it_id ` set C'" "no_collision blake3 R C'"
    "done_step (advance_client blake3 C' reply)" "i \<in> set R0" "it_seq i < INFINITY"
  shows "it_id i \<in> it_id ` set C' \<union> (P \<union> Q)"
proof -
  note m = exchange_sent_ok [OF assms(1,2)]
  have wf: "message_wf reply"
    using turn_wf [OF assms(6,3,1)] m by simp
  have "\<forall>sp\<in>set (spans reply). sent_ok blake3 R R0 (it_id ` set C' \<union> (P \<union> Q)) sp"
    using m by (intro turn_spans [OF assms(6,3,4,5,1) _ _ _ assms(8)]) simp_all
  then have "\<forall>sp\<in>set (spans reply). delivered R0 (it_id ` set C' \<union> (P \<union> Q)) sp"
    using assms wf by (intro advance_done_delivered [of R C']) auto
  moreover obtain l u md where "(l, u, md) \<in> set (spans reply)" "l \<le> it_seq i" "it_seq i < u"
    using cover_point [of "msg_ranges reply" 0 "it_seq i"] wf assms(12)
    by (auto simp: message_wf_def cover_def spans_def)
  ultimately show ?thesis
    using assms(11) by (fastforce simp: delivered_def)
qed

end

text \<open>The relay's turn as \<open>negentropy/reconcile.rs\<close> alone has it: every id is pushed.\<close>

definition respond_turn :: "(bytes \<Rightarrow> bytes) \<Rightarrow> item list \<Rightarrow> message \<Rightarrow> message \<Rightarrow> id set \<Rightarrow> bool" where
  "respond_turn blake3 R m reply Q \<longleftrightarrow>
    reply = resp_reply (respond blake3 R m) \<and> Q = set (resp_push (respond blake3 R m))"

interpretation full: relay_turn respond_turn
proof (unfold_locales, goal_cases)
  case (1 blake3 R m reply Q)
  have "message_wf (resp_reply (respond blake3 R m))"
    unfolding respond_reply by (rule relay.answer_message_wf [OF 1(2-4)])
  then show ?case
    using 1(1) by (simp add: respond_turn_def)
next
  case (2 blake3 R m reply Q C R0 K)
  from 2(1) have eq: "reply = resp_reply (respond blake3 R m)" "Q = set (resp_push (respond blake3 R m))"
    by (simp_all add: respond_turn_def)
  show ?case
    unfolding eq by (rule relay_message_ok [OF 2(2-9)])
qed

text \<open>An exchange that ends has delivered everything: start from any client, run any number of
  rounds in which the relay may accept further writes and the client keeps what it holds, and let
  the client find that it has nothing to say. Then every envelope the relay held when the exchange
  began is one the client holds or one the relay pushed during the exchange, as long as no two
  slices compared by fingerprint collide.\<close>

theorem exchange_delivers_everything:
  assumes "\<And>x. length (blake3 x) = 32" "exchange respond_turn blake3 R0 C m P"
    "local_ok R" "set R0 \<subseteq> set R" "no_collision blake3 R C"
    "local_ok C'" "it_id ` set C \<subseteq> it_id ` set C'" "no_collision blake3 R C'"
    "done_step (advance_client blake3 C' (resp_reply (respond blake3 R m)))"
    "i \<in> set R0" "it_seq i < INFINITY"
  shows "it_id i \<in> it_id ` set C' \<union> (P \<union> set (resp_push (respond blake3 R m)))"
  using full.ended_exchange_delivered [OF assms(1-5) _ assms(6-11)] by (simp add: respond_turn_def)

text \<open>A relay with one envelope and a client with none: one round, one push.\<close>

definition last_bytes :: "bytes \<Rightarrow> bytes" where
  "last_bytes x = take 32 (rev x @ replicate 32 0)"

lemma last_bytes_length: "length (last_bytes x) = 32"
  by (simp add: last_bytes_def)

definition one_item :: item where
  "one_item = \<lparr>it_seq = 5, it_id = replicate 32 7\<rparr>"

lemma one_item_ok: "local_ok [one_item]" "local_ok []"
  by (simp_all add: local_ok_def one_item_def)

lemma one_item_no_collision: "no_collision last_bytes [one_item] []" "no_collision last_bytes [one_item] [one_item]"
proof -
  have "last_bytes (fingerprint_input [one_item]) \<noteq> last_bytes (fingerprint_input [])"
    by code_simp
  then show "no_collision last_bytes [one_item] []" "no_collision last_bytes [one_item] [one_item]"
    by (auto simp: no_collision_def items_in_eq)
qed

theorem exchange_delivers_everything_witness:
  "replicate 32 7 \<in> it_id ` set [one_item] \<union> ({} \<union>
     set (resp_push (respond last_bytes [one_item] (initiate last_bytes []))))"
proof -
  have "done_step (advance_client last_bytes [one_item]
      (resp_reply (respond last_bytes [one_item] (initiate last_bytes []))))"
    by code_simp
  moreover have "exchange respond_turn last_bytes [one_item] [] (initiate last_bytes []) {}"
    by (rule exchange.start) (simp_all add: one_item_ok)
  ultimately show ?thesis
    using exchange_delivers_everything [of last_bytes "[one_item]" "[]" "initiate last_bytes []" "{}" "[one_item]"
        "[one_item]" one_item, OF last_bytes_length] one_item_ok one_item_no_collision
    by (simp add: one_item_def)
qed

end
