(* ===== verification/Push.thy ===== *)
theory Push
  imports Error_Codes
begin

text \<open>
  The rules of \<open>src/backend/wealdrelay/src/push/mod.rs\<close> that the wire format enforces on a wake
  registration: the handle width, the category mask, the bounds on an expiry and the shape of a
  ringer's URL. \<open>url::Url::parse\<close> is the parameter \<open>url_parse\<close>; what the relay reads of a parsed
  URL is its scheme and its host.
\<close>

definition HANDLE_BYTES :: nat where "HANDLE_BYTES = 16"
definition MAX_REGISTER_URL_BYTES :: nat where "MAX_REGISTER_URL_BYTES = 512"
definition MAX_EXPIRY_AHEAD_MS :: u64 where "MAX_EXPIRY_AHEAD_MS = 30 * 24 * 60 * 60 * 1000"

definition expiry_in_bounds :: "u64 \<Rightarrow> u64 \<Rightarrow> bool" where
  "expiry_in_bounds expires_at_ms now_ms \<longleftrightarrow>
    expires_at_ms > now_ms \<and> expires_at_ms \<le> saturating_add now_ms MAX_EXPIRY_AHEAD_MS"

datatype category = CatMessage | CatCall | CatHandshake

fun category_bit :: "category \<Rightarrow> u8" where
  "category_bit CatMessage = 1"
| "category_bit CatCall = 2"
| "category_bit CatHandshake = 4"

definition admitted_by :: "category \<Rightarrow> u8 \<Rightarrow> bool" where
  "admitted_by c m \<longleftrightarrow> m AND category_bit c \<noteq> 0"

definition is_urgent :: "category \<Rightarrow> bool" where
  "is_urgent c \<longleftrightarrow> c = CatCall"

definition ALL_CATEGORIES :: u8 where "ALL_CATEGORIES = 0x07"

definition is_valid_mask :: "u8 \<Rightarrow> bool" where
  "is_valid_mask m \<longleftrightarrow> m \<noteq> 0 \<and> m AND NOT ALL_CATEGORIES = 0"

record parsed_url =
  url_scheme :: string
  url_host_str :: "string option"

type_synonym url_parser = "bytes \<Rightarrow> parsed_url option"

definition is_acceptable_register_url :: "url_parser \<Rightarrow> bytes \<Rightarrow> bool" where
  "is_acceptable_register_url url_parse value =
    (if value = [] then True
     else case url_parse value of
       None \<Rightarrow> False
     | Some parsed \<Rightarrow>
         if url_scheme parsed = ''https'' then True
         else if url_scheme parsed = ''http'' then
           url_host_str parsed \<in> {Some ''127.0.0.1'', Some ''localhost'', Some ''::1'', Some ''[::1]''}
         else False)"

end
