(* ===== verification/Envelope.thy ===== *)
theory Envelope
  imports Error_Codes
begin

text \<open>
  The envelope, \<open>src/backend/wealdrelay/src/envelope/mod.rs\<close>: the eight-field record that is the
  only unit the relay stores, its encoding, its content address and the checks that need no
  database. BLAKE3 is the parameter \<open>blake3\<close>; an incremental hasher is the hash of the
  concatenation of its updates.
\<close>

definition VERSION :: u8 where "VERSION = 1"
definition GROUP_BYTES :: nat where "GROUP_BYTES = 32"
definition HASH_BYTES :: nat where "HASH_BYTES = 32"
definition MAX_CIPHERTEXT_BYTES :: nat where "MAX_CIPHERTEXT_BYTES = 2 ^ 20"

datatype encryption = EncNone | EncMls

text \<open>\<open>config::MinEncryption\<close>, the floor the operator configured.\<close>

datatype min_encryption = MinNone | MinMls

fun encryption_u64 :: "encryption \<Rightarrow> u64" where
  "encryption_u64 EncNone = 0"
| "encryption_u64 EncMls = 1"

definition encryption_from_u8 :: "u8 \<Rightarrow> encryption option" where
  "encryption_from_u8 value = (if value = 0 then Some EncNone else if value = 1 then Some EncMls else None)"

record envelope =
  env_v :: u8
  env_enc :: encryption
  env_group :: bytes
  env_epoch :: u64
  env_seq :: u64
  env_ts :: u64
  env_hash :: bytes
  env_ct :: bytes

definition hash_input :: "u8 \<Rightarrow> encryption \<Rightarrow> bytes \<Rightarrow> u64 \<Rightarrow> bytes \<Rightarrow> bytes" where
  "hash_input v enc grp epoch ct =
    cbor_uint (ucast v) @ cbor_uint (encryption_u64 enc) @ cbor_bytes grp @ cbor_uint epoch @
    cbor_bytes ct"

definition content_hash :: "(bytes \<Rightarrow> bytes) \<Rightarrow> u8 \<Rightarrow> encryption \<Rightarrow> bytes \<Rightarrow> u64 \<Rightarrow> bytes \<Rightarrow> bytes" where
  "content_hash blake3 v enc grp epoch ct = blake3 (hash_input v enc grp epoch ct)"

datatype envelope_error =
    EnvCbor cbor_error
  | EnvUnsupportedVersion u8
  | UnknownEncryption u8
  | EnvPlaintextRefused
  | EnvHashMismatch
  | CiphertextTooLarge nat

fun envelope_error_code :: "envelope_error \<Rightarrow> error_code" where
  "envelope_error_code (EnvCbor _) = NoncanonicalCbor"
| "envelope_error_code (EnvUnsupportedVersion _) = ProtocolUnsupported"
| "envelope_error_code (UnknownEncryption _) = MalformedHeader"
| "envelope_error_code EnvPlaintextRefused = PlaintextRefused"
| "envelope_error_code EnvHashMismatch = HashMismatch"
| "envelope_error_code (CiphertextTooLarge _) = EnvelopeTooLarge"

definition envelope_encode :: "envelope \<Rightarrow> bytes" where
  "envelope_encode e = cbor_array
    [cbor_uint (ucast (env_v e)), cbor_uint (encryption_u64 (env_enc e)), cbor_bytes (env_group e),
     cbor_uint (env_epoch e), cbor_uint (env_seq e), cbor_uint (env_ts e), cbor_bytes (env_hash e),
     cbor_bytes (env_ct e)]"

definition envelope_body :: "(envelope_error, envelope) read" where
  "envelope_body =
    rbind (rmap_err EnvCbor (rd_array 8)) (\<lambda>_.
    rbind (rmap_err EnvCbor rd_u8) (\<lambda>v.
    rbind (rmap_err EnvCbor rd_u8) (\<lambda>raw_enc.
    case encryption_from_u8 raw_enc of
      None \<Rightarrow> rfail (UnknownEncryption raw_enc)
    | Some enc \<Rightarrow>
      rbind (rmap_err EnvCbor (rd_bytes_of GROUP_BYTES)) (\<lambda>grp.
      rbind (rmap_err EnvCbor rd_uint) (\<lambda>epoch.
      rbind (rmap_err EnvCbor rd_uint) (\<lambda>seq.
      rbind (rmap_err EnvCbor rd_uint) (\<lambda>ts.
      rbind (rmap_err EnvCbor (rd_bytes_of HASH_BYTES)) (\<lambda>hash.
      rbind (rmap_err EnvCbor rd_bytes) (\<lambda>ct.
      rreturn \<lparr>env_v = v, env_enc = enc, env_group = grp, env_epoch = epoch, env_seq = seq,
               env_ts = ts, env_hash = hash, env_ct = ct\<rparr>)))))))))"

definition envelope_decode :: "bytes \<Rightarrow> envelope_error + envelope" where
  "envelope_decode = rd_whole EnvCbor envelope_body"

definition computed_hash :: "(bytes \<Rightarrow> bytes) \<Rightarrow> envelope \<Rightarrow> bytes" where
  "computed_hash blake3 e =
    content_hash blake3 (env_v e) (env_enc e) (env_group e) (env_epoch e) (env_ct e)"

definition envelope_validate :: "(bytes \<Rightarrow> bytes) \<Rightarrow> min_encryption \<Rightarrow> envelope \<Rightarrow> envelope_error + unit" where
  "envelope_validate blake3 floor e =
    (if env_v e \<noteq> VERSION then Inl (EnvUnsupportedVersion (env_v e))
     else if floor = MinMls \<and> env_enc e = EncNone then Inl EnvPlaintextRefused
     else if length (env_ct e) > MAX_CIPHERTEXT_BYTES then Inl (CiphertextTooLarge (length (env_ct e)))
     else if computed_hash blake3 e \<noteq> env_hash e then Inl EnvHashMismatch
     else Inr ())"

subsection \<open>The codec\<close>

definition envelope_wf :: "envelope \<Rightarrow> bool" where
  "envelope_wf e \<longleftrightarrow>
    length (env_group e) = GROUP_BYTES \<and> length (env_hash e) = HASH_BYTES \<and> fits (length (env_ct e))"

lemma encryption_round_trip:
  "encryption_from_u8 (ucast (encryption_u64 enc)) = Some enc"
  "ucast (ucast (encryption_u64 enc) :: u8) = encryption_u64 enc"
  by (cases enc; simp add: encryption_from_u8_def)+

lemma encryption_from_u8_Some: "encryption_from_u8 raw = Some enc \<Longrightarrow> ucast raw = encryption_u64 enc"
  by (auto simp: encryption_from_u8_def split: if_splits)

lemma reads_encryption:
  "reads (f (ucast (encryption_u64 enc))) cs y \<Longrightarrow>
   reads (rbind (rmap_err g rd_u8) f) (cbor_uint (encryption_u64 enc) @ cs) y"
  using reads_step [OF reads_u8 [of "ucast (encryption_u64 enc)"]] by (simp add: encryption_round_trip)

lemma reads_envelope:
  assumes "envelope_wf e"
  shows "reads envelope_body (envelope_encode e) e"
  unfolding envelope_body_def envelope_encode_def
  by (rule reads_arrays(2))
     (use assms in \<open>auto simp: envelope_wf_def encryption_round_trip GROUP_BYTES_def HASH_BYTES_def fits_small
        intro!: reads_steps reads_encryption\<close>)

lemma parses_envelope: "parses envelope_body (\<lambda>bs e. envelope_wf e \<and> bs = envelope_encode e)"
  unfolding envelope_body_def
  by (auto simp: envelope_wf_def envelope_encode_def cbor_array_def encryption_from_u8_Some
      intro!: parses_steps split: option.split)

interpretation env: wire_codec envelope_encode envelope_decode envelope_wf
  unfolding envelope_decode_def by (rule wire_codecI [OF reads_envelope parses_envelope])

text \<open>C26. The envelope codec: \<open>decode\<close> returns an envelope if and only if its group and hash are 32
  bytes each, its ciphertext has a length the head can carry, and the input is exactly
  \<open>encode\<close> of it. So decoding inverts encoding and no envelope has two encodings.\<close>

theorem envelope_decode_iff:
  "envelope_decode bs = Inr e \<longleftrightarrow> envelope_wf e \<and> bs = envelope_encode e"
  by (rule env.dec_iff)

subsection \<open>The content address\<close>

lemma hash_input_inject:
  assumes "hash_input v enc grp epoch ct = hash_input v' enc' grp' epoch' ct'"
    "fits (length grp)" "fits (length ct)" "fits (length grp')" "fits (length ct')"
  shows "v = v' \<and> enc = enc' \<and> grp = grp' \<and> epoch = epoch' \<and> ct = ct'"
proof -
  define body :: "(cbor_error, u8 \<times> u8 \<times> bytes \<times> u64 \<times> bytes) read" where
    "body = rbind (rmap_err id rd_u8) (\<lambda>a. rbind (rmap_err id rd_u8) (\<lambda>b. rbind (rmap_err id rd_bytes) (\<lambda>c.
       rbind (rmap_err id rd_uint) (\<lambda>d. rbind (rmap_err id rd_bytes) (\<lambda>e. rreturn (a, b, c, d, e))))))"
  have r: "reads body (hash_input v enc grp epoch ct) (v, ucast (encryption_u64 enc), grp, epoch, ct)"
    if "fits (length grp)" "fits (length ct)" for v enc grp epoch ct
    unfolding body_def hash_input_def
    by (auto intro!: reads_steps reads_encryption that)
  have "(v, ucast (encryption_u64 enc) :: u8, grp, epoch, ct) = (v', ucast (encryption_u64 enc'), grp', epoch', ct')"
    using rd_whole_encoded [OF r [OF assms(2,3)], of id] rd_whole_encoded [OF r [OF assms(4,5)], of id]
      assms(1) by (metis sum.inject(2))
  then show ?thesis
    using encryption_round_trip(1) by (metis option.inject prod.inject)
qed

text \<open>C27. The content address names the content: two envelopes with the same address that both
  validate agree on version, encryption, group, epoch and ciphertext, whatever the relay stamped
  in \<open>seq\<close> and \<open>ts\<close>, unless their two hash inputs are a collision of BLAKE3.\<close>

theorem content_address_names_content:
  assumes "envelope_validate blake3 floor e = Inr ()" "envelope_validate blake3 floor' e' = Inr ()"
    "envelope_wf e" "envelope_wf e'" "env_hash e = env_hash e'"
    "\<And>p p'. p = hash_input (env_v e) (env_enc e) (env_group e) (env_epoch e) (env_ct e) \<Longrightarrow>
      p' = hash_input (env_v e') (env_enc e') (env_group e') (env_epoch e') (env_ct e') \<Longrightarrow>
      blake3 p = blake3 p' \<Longrightarrow> p = p'"
  shows "e' = e\<lparr>env_seq := env_seq e', env_ts := env_ts e'\<rparr>"
proof -
  let ?p = "\<lambda>e. hash_input (env_v e) (env_enc e) (env_group e) (env_epoch e) (env_ct e)"
  have "blake3 (?p e) = env_hash e" "blake3 (?p e') = env_hash e'"
    using assms(1,2)
    by (auto simp: envelope_validate_def computed_hash_def content_hash_def split: if_splits)
  then have "?p e = ?p e'"
    using assms(5,6) by simp
  moreover have "fits (length (env_group e))" "fits (length (env_ct e))" "fits (length (env_group e'))"
    "fits (length (env_ct e'))"
    using assms(3,4) by (simp_all add: envelope_wf_def GROUP_BYTES_def fits_small)
  ultimately have "env_v e = env_v e' \<and> env_enc e = env_enc e' \<and> env_group e = env_group e' \<and>
    env_epoch e = env_epoch e' \<and> env_ct e = env_ct e'"
    by (rule hash_input_inject)
  then show ?thesis
    using assms(5) by simp
qed

text \<open>Two envelopes that differ only in what the relay stamps.\<close>

definition sample_envelope :: "u64 \<Rightarrow> envelope" where
  "sample_envelope seq = \<lparr>env_v = 1, env_enc = EncMls, env_group = replicate 32 7, env_epoch = 3,
     env_seq = seq, env_ts = 0, env_hash = replicate 32 9, env_ct = [1, 2, 3]\<rparr>"

theorem content_address_names_content_witness:
  "sample_envelope 5 = (sample_envelope 0)\<lparr>env_seq := 5, env_ts := 0\<rparr>"
  using content_address_names_content [of "\<lambda>_. replicate 32 9" MinMls "sample_envelope 0" MinNone "sample_envelope 5"]
  by (simp add: sample_envelope_def envelope_validate_def computed_hash_def content_hash_def
      VERSION_def MAX_CIPHERTEXT_BYTES_def envelope_wf_def GROUP_BYTES_def HASH_BYTES_def fits_small)

text \<open>What \<open>validate\<close> accepts; the accept path relies on each conjunct.\<close>

lemma envelope_validate_Inr:
  "envelope_validate blake3 floor e = Inr () \<longleftrightarrow>
     env_v e = VERSION \<and> \<not> (floor = MinMls \<and> env_enc e = EncNone) \<and>
     length (env_ct e) \<le> MAX_CIPHERTEXT_BYTES \<and> env_hash e = computed_hash blake3 e"
  by (auto simp: envelope_validate_def)

end
