(* ===== verification/Frame.thy ===== *)
theory Frame
  imports Push Envelope
begin

text \<open>
  The frames, \<open>src/backend/wealdrelay/src/frame.rs\<close>: the tags, the twenty-five frame types, and
  \<open>Frame::encode\<close> and \<open>Frame::decode\<close>. A frame is the two-item array of its tag and its fields.
  The identifier widths are those of \<open>calls/mod.rs\<close>.
\<close>

definition PROTOCOL_VERSION :: u16 where "PROTOCOL_VERSION = 4"
definition MIN_PROTOCOL_VERSION :: u16 where "MIN_PROTOCOL_VERSION = 1"
definition MAX_FRAME_BYTES :: nat where "MAX_FRAME_BYTES = 2 ^ 20 + 4096"
definition MAX_WAKE_BYTES :: nat where "MAX_WAKE_BYTES = 1024"
definition CALL_ID_BYTES :: nat where "CALL_ID_BYTES = 16"
definition STREAM_BYTES :: nat where "STREAM_BYTES = 4"

subsection \<open>Tags and frames\<close>

datatype frame_tag =
    TConnect
  | TConnectAck
  | TAuthChallenge
  | TAuth
  | TAuthAck
  | TAccess
  | TSub
  | TSubAck
  | TRecon
  | TPush
  | TSend
  | TSendAck
  | TBlob
  | TBye
  | TError
  | TWrap
  | THandshake
  | TJoin
  | TDrop
  | TInvite
  | TLive
  | TKeys
  | TCall
  | TMedia
  | TWake

fun tag_as_u16 :: "frame_tag \<Rightarrow> u16" where
  "tag_as_u16 TConnect = 1"
| "tag_as_u16 TConnectAck = 2"
| "tag_as_u16 TAuthChallenge = 3"
| "tag_as_u16 TAuth = 4"
| "tag_as_u16 TAuthAck = 5"
| "tag_as_u16 TAccess = 6"
| "tag_as_u16 TSub = 7"
| "tag_as_u16 TSubAck = 8"
| "tag_as_u16 TRecon = 9"
| "tag_as_u16 TPush = 10"
| "tag_as_u16 TSend = 11"
| "tag_as_u16 TSendAck = 12"
| "tag_as_u16 TBlob = 13"
| "tag_as_u16 TBye = 14"
| "tag_as_u16 TError = 15"
| "tag_as_u16 TWrap = 16"
| "tag_as_u16 THandshake = 17"
| "tag_as_u16 TJoin = 18"
| "tag_as_u16 TDrop = 19"
| "tag_as_u16 TInvite = 20"
| "tag_as_u16 TLive = 21"
| "tag_as_u16 TKeys = 22"
| "tag_as_u16 TCall = 23"
| "tag_as_u16 TMedia = 24"
| "tag_as_u16 TWake = 25"

definition frame_tag_from_u16 :: "u16 \<Rightarrow> frame_tag option" where
  "frame_tag_from_u16 value =
    (if value = 1 then Some TConnect
     else if value = 2 then Some TConnectAck
     else if value = 3 then Some TAuthChallenge
     else if value = 4 then Some TAuth
     else if value = 5 then Some TAuthAck
     else if value = 6 then Some TAccess
     else if value = 7 then Some TSub
     else if value = 8 then Some TSubAck
     else if value = 9 then Some TRecon
     else if value = 10 then Some TPush
     else if value = 11 then Some TSend
     else if value = 12 then Some TSendAck
     else if value = 13 then Some TBlob
     else if value = 14 then Some TBye
     else if value = 15 then Some TError
     else if value = 16 then Some TWrap
     else if value = 17 then Some THandshake
     else if value = 18 then Some TJoin
     else if value = 19 then Some TDrop
     else if value = 20 then Some TInvite
     else if value = 21 then Some TLive
     else if value = 22 then Some TKeys
     else if value = 23 then Some TCall
     else if value = 24 then Some TMedia
     else if value = 25 then Some TWake
     else None)"

definition ALL_TAGS :: "frame_tag list" where
  "ALL_TAGS = [TConnect, TConnectAck, TAuthChallenge, TAuth, TAuthAck, TAccess, TSub, TSubAck,
    TRecon, TPush, TSend, TSendAck, TBlob, TBye, TError, TWrap,
    THandshake, TJoin, TDrop, TInvite, TLive, TKeys, TCall, TMedia,
    TWake]"

datatype frame_decode_error =
    TooLarge nat
  | FrameCbor cbor_error
  | UnknownTag u16
  | UnsupportedVersion u16
  | BadField string
  | BadWakeField string
  | TooLargeWake nat

fun frame_decode_error_code :: "frame_decode_error \<Rightarrow> error_code" where
  "frame_decode_error_code (TooLarge _) = EnvelopeTooLarge"
| "frame_decode_error_code (FrameCbor _) = NoncanonicalCbor"
| "frame_decode_error_code (UnknownTag _) = MalformedHeader"
| "frame_decode_error_code (BadField _) = MalformedHeader"
| "frame_decode_error_code (BadWakeField _) = PushHandleMalformed"
| "frame_decode_error_code (TooLargeWake _) = EnvelopeTooLarge"
| "frame_decode_error_code (UnsupportedVersion _) = ProtocolUnsupported"

definition wake_shape :: "string \<Rightarrow> cbor_error \<Rightarrow> frame_decode_error" where
  "wake_shape field error =
    (case error of
       NonCanonicalInteger \<Rightarrow> FrameCbor error
     | ReservedAdditionalInfo _ \<Rightarrow> FrameCbor error
     | TrailingBytes _ \<Rightarrow> FrameCbor error
     | _ \<Rightarrow> BadField field)"

datatype wake_body =
    Register bytes u8 u64
  | Registered u64
  | Clear
  | Cleared
  | Query
  | Capability bool bytes

fun wake_form :: "wake_body \<Rightarrow> u8" where
  "wake_form (Register _ _ _) = 1"
| "wake_form (Registered _) = 2"
| "wake_form Clear = 3"
| "wake_form Cleared = 4"
| "wake_form Query = 5"
| "wake_form (Capability _ _) = 6"

fun wake_queued_bytes :: "wake_body \<Rightarrow> nat" where
  "wake_queued_bytes (Register handle _ _) = length handle"
| "wake_queued_bytes (Capability _ register_url) = length register_url"
| "wake_queued_bytes _ = 0"

datatype keys_body =
    Publish "bytes list"
  | Published u32
  | Fetch bytes u8
  | Bundles "bytes list"
  | KeysNone

fun keys_form :: "keys_body \<Rightarrow> u8" where
  "keys_form (Publish _) = 1"
| "keys_form (Published _) = 2"
| "keys_form (Fetch _ _) = 3"
| "keys_form (Bundles _) = 4"
| "keys_form KeysNone = 5"

fun keys_queued_bytes :: "keys_body \<Rightarrow> nat" where
  "keys_queued_bytes (Publish packages) = sum_list (map length packages)"
| "keys_queued_bytes (Bundles packages) = sum_list (map length packages)"
| "keys_queued_bytes _ = 0"

datatype frame =
    FConnect u16 "bytes list" u64
  | FConnectAck u16 u64 u8
  | FAuthChallenge bytes
  | FAuth bytes bytes
  | FAuthAck u32 u8 bytes u8 u8
  | FAccess bytes
  | FSub bytes u64
  | FSubAck bytes u64
  | FRecon bytes bytes
  | FPush bytes
  | FSend bytes
  | FSendAck bytes u64
  | FBlob bytes
  | FDrop bytes
  | FBye bytes
  | FError frame_error
  | FWrap bytes
  | FHandshake bytes u64 bytes
  | FJoin bytes
  | FInvite bytes
  | FLive bytes u64 bytes
  | FKeys keys_body
  | FCall bytes bytes u64 u8 bytes
  | FMedia bytes bytes u64 bytes
  | FWake wake_body

fun tag_of :: "frame \<Rightarrow> frame_tag" where
  "tag_of (FConnect _ _ _) = TConnect"
| "tag_of (FConnectAck _ _ _) = TConnectAck"
| "tag_of (FAuthChallenge _) = TAuthChallenge"
| "tag_of (FAuth _ _) = TAuth"
| "tag_of (FAuthAck _ _ _ _ _) = TAuthAck"
| "tag_of (FAccess _) = TAccess"
| "tag_of (FSub _ _) = TSub"
| "tag_of (FSubAck _ _) = TSubAck"
| "tag_of (FRecon _ _) = TRecon"
| "tag_of (FPush _) = TPush"
| "tag_of (FSend _) = TSend"
| "tag_of (FSendAck _ _) = TSendAck"
| "tag_of (FBlob _) = TBlob"
| "tag_of (FBye _) = TBye"
| "tag_of (FError _) = TError"
| "tag_of (FWrap _) = TWrap"
| "tag_of (FHandshake _ _ _) = THandshake"
| "tag_of (FJoin _) = TJoin"
| "tag_of (FDrop _) = TDrop"
| "tag_of (FInvite _) = TInvite"
| "tag_of (FLive _ _ _) = TLive"
| "tag_of (FKeys _) = TKeys"
| "tag_of (FCall _ _ _ _ _) = TCall"
| "tag_of (FMedia _ _ _ _) = TMedia"
| "tag_of (FWake _) = TWake"

definition FRAME_OVERHEAD :: nat where "FRAME_OVERHEAD = 256"

fun frame_payload_bytes :: "frame \<Rightarrow> nat" where
  "frame_payload_bytes (FPush envelope) = length envelope"
| "frame_payload_bytes (FSend envelope) = length envelope"
| "frame_payload_bytes (FHandshake _ _ message) = length message"
| "frame_payload_bytes (FRecon _ payload) = length payload"
| "frame_payload_bytes (FAccess body) = length body"
| "frame_payload_bytes (FWrap body) = length body"
| "frame_payload_bytes (FJoin body) = length body"
| "frame_payload_bytes (FInvite body) = length body"
| "frame_payload_bytes (FBlob payload) = length payload"
| "frame_payload_bytes (FConnect _ groups _) = sum_list (map length groups)"
| "frame_payload_bytes (FLive _ _ ct) = length ct"
| "frame_payload_bytes (FCall _ _ _ _ body) = length body"
| "frame_payload_bytes (FMedia _ _ _ ct) = length ct"
| "frame_payload_bytes (FKeys body) = keys_queued_bytes body"
| "frame_payload_bytes (FWake body) = wake_queued_bytes body"
| "frame_payload_bytes _ = 0"

definition queued_bytes :: "frame \<Rightarrow> nat" where
  "queued_bytes f = frame_payload_bytes f + FRAME_OVERHEAD"

subsection \<open>Encoding\<close>

fun keys_fields :: "keys_body \<Rightarrow> bytes" where
  "keys_fields (Publish packages) = cbor_array (map cbor_bytes packages)"
| "keys_fields (Bundles packages) = cbor_array (map cbor_bytes packages)"
| "keys_fields (Published remaining) = cbor_array [cbor_uint (ucast remaining)]"
| "keys_fields (Fetch device count) = cbor_array [cbor_bytes device, cbor_uint (ucast count)]"
| "keys_fields KeysNone = cbor_array []"

fun wake_fields :: "wake_body \<Rightarrow> bytes" where
  "wake_fields (Register handle categories expires_at) =
    cbor_array [cbor_bytes handle, cbor_uint (ucast categories), cbor_uint expires_at]"
| "wake_fields (Registered expires_at) = cbor_array [cbor_uint expires_at]"
| "wake_fields Clear = cbor_array []"
| "wake_fields Cleared = cbor_array []"
| "wake_fields Query = cbor_array []"
| "wake_fields (Capability enabled register_url) =
    cbor_array [cbor_boolean enabled, cbor_text register_url]"

fun frame_fields :: "frame \<Rightarrow> bytes" where
  "frame_fields (FConnect version groups sent_at) =
    cbor_array [cbor_uint (ucast version), cbor_array (map cbor_bytes groups), cbor_uint sent_at]"
| "frame_fields (FConnectAck version server_time min_enc) =
    cbor_array [cbor_uint (ucast version), cbor_uint server_time, cbor_uint (ucast min_enc)]"
| "frame_fields (FAuthChallenge challenge) = cbor_array [cbor_bytes challenge]"
| "frame_fields (FAuth device_key signature) = cbor_array [cbor_bytes device_key, cbor_bytes signature]"
| "frame_fields (FAuthAck key_packages_remaining write_mode build_digest access_set min_enc) =
    cbor_array [cbor_uint (ucast key_packages_remaining), cbor_uint (ucast write_mode),
      cbor_bytes build_digest, cbor_uint (ucast access_set), cbor_uint (ucast min_enc)]"
| "frame_fields (FAccess body) = cbor_array [cbor_bytes body]"
| "frame_fields (FWrap body) = cbor_array [cbor_bytes body]"
| "frame_fields (FHandshake grp seq message) =
    cbor_array [cbor_bytes grp, cbor_uint seq, cbor_bytes message]"
| "frame_fields (FJoin body) = cbor_array [cbor_bytes body]"
| "frame_fields (FInvite body) = cbor_array [cbor_bytes body]"
| "frame_fields (FSub grp from_seq) = cbor_array [cbor_bytes grp, cbor_uint from_seq]"
| "frame_fields (FSubAck grp head_seq) = cbor_array [cbor_bytes grp, cbor_uint head_seq]"
| "frame_fields (FRecon grp payload) = cbor_array [cbor_bytes grp, cbor_bytes payload]"
| "frame_fields (FPush envelope) = cbor_array [cbor_bytes envelope]"
| "frame_fields (FSend envelope) = cbor_array [cbor_bytes envelope]"
| "frame_fields (FSendAck hash seq) = cbor_array [cbor_bytes hash, cbor_uint seq]"
| "frame_fields (FBlob payload) = cbor_array [cbor_bytes payload]"
| "frame_fields (FDrop payload) = cbor_array [cbor_bytes payload]"
| "frame_fields (FBye reason) = cbor_array [cbor_bytes reason]"
| "frame_fields (FLive grp epoch ct) = cbor_array [cbor_bytes grp, cbor_uint epoch, cbor_bytes ct]"
| "frame_fields (FCall call_id grp epoch kind body) =
    cbor_array [cbor_bytes call_id, cbor_bytes grp, cbor_uint epoch, cbor_uint (ucast kind), cbor_bytes body]"
| "frame_fields (FMedia call_id stream seq ct) =
    cbor_array [cbor_bytes call_id, cbor_bytes stream, cbor_uint seq, cbor_bytes ct]"
| "frame_fields (FKeys body) = cbor_array [cbor_uint (ucast (keys_form body)), keys_fields body]"
| "frame_fields (FWake body) = cbor_array [cbor_uint (ucast (wake_form body)), wake_fields body]"
| "frame_fields (FError error) =
    cbor_array [cbor_bytes (as_bytes (class_as_str (code_class (fe_code error)))),
      cbor_bytes (as_bytes (code_as_str (fe_code error))),
      cbor_uint (ucast (unwrap_or (fe_retry_after error) 0)), cbor_bytes (unwrap_or (fe_detail error) [])]"

definition frame_encode :: "frame \<Rightarrow> bytes" where
  "frame_encode f = cbor_array [cbor_uint (ucast (tag_as_u16 (tag_of f))), frame_fields f]"

subsection \<open>Decoding\<close>

abbreviation lift_cbor :: "(cbor_error, 'a) read \<Rightarrow> (frame_decode_error, 'a) read" where
  "lift_cbor \<equiv> rmap_err FrameCbor"

definition decode_keys :: "(frame_decode_error, keys_body) read" where
  "decode_keys =
    rbind (lift_cbor (rd_array 2)) (\<lambda>_.
    rbind (lift_cbor rd_u8) (\<lambda>form.
    if form = 1 \<or> form = 4 then
      rbind (lift_cbor rd_array_header) (\<lambda>count.
      rbind (rtimes count (lift_cbor rd_bytes)) (\<lambda>packages.
      if form = 1 then rreturn (Publish packages) else rreturn (Bundles packages)))
    else if form = 2 then
      rbind (lift_cbor (rd_array 1)) (\<lambda>_.
      rbind (lift_cbor rd_u32) (\<lambda>remaining. rreturn (Published remaining)))
    else if form = 3 then
      rbind (lift_cbor (rd_array 2)) (\<lambda>_.
      rbind (lift_cbor (rd_bytes_of 32)) (\<lambda>device.
      rbind (lift_cbor rd_u8) (\<lambda>count. rreturn (Fetch device count))))
    else if form = 5 then
      rbind (lift_cbor (rd_array 0)) (\<lambda>_. rreturn KeysNone)
    else rfail (BadField ''form'')))"

definition decode_wake :: "url_parser \<Rightarrow> nat \<Rightarrow> (frame_decode_error, wake_body) read" where
  "decode_wake url_parse len =
    (if len > MAX_WAKE_BYTES then rfail (TooLargeWake len)
     else
      rbind (rmap_err (wake_shape ''wake'') (rd_array 2)) (\<lambda>_.
      rbind (rmap_err (wake_shape ''form'') rd_u8) (\<lambda>form.
      if form = 1 then
        rbind (rmap_err (wake_shape ''register'') (rd_array 3)) (\<lambda>_.
        rbind (rmap_err (wake_shape ''handle'') rd_bytes) (\<lambda>handle.
        if length handle \<noteq> HANDLE_BYTES then rfail (BadWakeField ''handle'')
        else
          rbind (rmap_err (wake_shape ''categories'') rd_u8) (\<lambda>categories.
          if \<not> is_valid_mask categories then rfail (BadWakeField ''categories'')
          else
            rbind (rmap_err (wake_shape ''expires_at'') rd_uint) (\<lambda>expires_at.
            rreturn (Register handle categories expires_at)))))
      else if form = 2 then
        rbind (rmap_err (wake_shape ''registered'') (rd_array 1)) (\<lambda>_.
        rbind (rmap_err (wake_shape ''expires_at'') rd_uint) (\<lambda>expires_at.
        rreturn (Registered expires_at)))
      else if 3 \<le> form \<and> form \<le> 5 then
        rbind (rmap_err (wake_shape ''fields'') (rd_array 0)) (\<lambda>_.
        if form = 3 then rreturn Clear else if form = 4 then rreturn Cleared else rreturn Query)
      else if form = 6 then
        rbind (rmap_err (wake_shape ''capability'') (rd_array 2)) (\<lambda>_.
        rbind (rmap_err (wake_shape ''enabled'') rd_boolean) (\<lambda>enabled.
        rbind (rmap_err (wake_shape ''register_url'') rd_text) (\<lambda>register_url.
        if length register_url > MAX_REGISTER_URL_BYTES \<or>
           \<not> is_acceptable_register_url url_parse register_url
        then rfail (BadWakeField ''register_url'')
        else rreturn (Capability enabled register_url))))
      else rfail (BadField ''form''))))"

definition decode_error :: "(frame_decode_error, frame_error) read" where
  "decode_error =
    rbind (lift_cbor (rd_array 4)) (\<lambda>_.
    rbind (lift_cbor rd_bytes) (\<lambda>class.
    rbind (lift_cbor rd_bytes) (\<lambda>code.
    rbind (lift_cbor rd_u32) (\<lambda>retry_after.
    rbind (lift_cbor rd_bytes) (\<lambda>detail.
    case find (\<lambda>candidate. as_bytes (code_as_str candidate) = code \<and>
                as_bytes (class_as_str (code_class candidate)) = class) ALL_CODES of
      None \<Rightarrow> rfail (BadField ''code'')
    | Some code \<Rightarrow>
        rreturn \<lparr>fe_code = code,
          fe_retry_after = (if retry_after > 0 then Some retry_after else None),
          fe_detail = (if detail \<noteq> [] then Some detail else None)\<rparr>)))))"

text \<open>The frames whose body is one byte string share an arm's text.\<close>

definition decode_blob :: "(bytes \<Rightarrow> frame) \<Rightarrow> (frame_decode_error, frame) read" where
  "decode_blob mk = rbind (lift_cbor (rd_array 1)) (\<lambda>_. rbind (lift_cbor rd_bytes) (\<lambda>b. rreturn (mk b)))"

fun decode_fields :: "url_parser \<Rightarrow> nat \<Rightarrow> frame_tag \<Rightarrow> (frame_decode_error, frame) read" where
  "decode_fields url_parse len TConnect =
    rbind (lift_cbor (rd_array 3)) (\<lambda>_.
    rbind (lift_cbor rd_u16) (\<lambda>version.
    if version < MIN_PROTOCOL_VERSION then rfail (UnsupportedVersion version)
    else
      rbind (lift_cbor rd_array_header) (\<lambda>count.
      rbind (rtimes count (lift_cbor (rd_bytes_of 32))) (\<lambda>groups.
      rbind (lift_cbor rd_uint) (\<lambda>sent_at.
      rreturn (FConnect version groups sent_at))))))"
| "decode_fields url_parse len TConnectAck =
    rbind (lift_cbor (rd_array 3)) (\<lambda>_.
    rbind (lift_cbor rd_u16) (\<lambda>version.
    if \<not> (MIN_PROTOCOL_VERSION \<le> version \<and> version \<le> PROTOCOL_VERSION)
    then rfail (UnsupportedVersion version)
    else
      rbind (lift_cbor rd_uint) (\<lambda>server_time.
      rbind (lift_cbor rd_u8) (\<lambda>min_enc.
      rreturn (FConnectAck version server_time min_enc)))))"
| "decode_fields url_parse len TAuthChallenge = decode_blob FAuthChallenge"
| "decode_fields url_parse len TAuth =
    rbind (lift_cbor (rd_array 2)) (\<lambda>_.
    rbind (lift_cbor (rd_bytes_of 32)) (\<lambda>device_key.
    rbind (lift_cbor (rd_bytes_of 64)) (\<lambda>signature.
    rreturn (FAuth device_key signature))))"
| "decode_fields url_parse len TAuthAck =
    rbind (lift_cbor (rd_array 5)) (\<lambda>_.
    rbind (lift_cbor rd_u32) (\<lambda>key_packages_remaining.
    rbind (lift_cbor rd_u8) (\<lambda>write_mode.
    rbind (lift_cbor rd_bytes) (\<lambda>build_digest.
    rbind (lift_cbor rd_u8) (\<lambda>access_set.
    rbind (lift_cbor rd_u8) (\<lambda>min_enc.
    rreturn (FAuthAck key_packages_remaining write_mode build_digest access_set min_enc)))))))"
| "decode_fields url_parse len TAccess = decode_blob FAccess"
| "decode_fields url_parse len TWrap = decode_blob FWrap"
| "decode_fields url_parse len TJoin = decode_blob FJoin"
| "decode_fields url_parse len TInvite = decode_blob FInvite"
| "decode_fields url_parse len THandshake =
    rbind (lift_cbor (rd_array 3)) (\<lambda>_.
    rbind (lift_cbor (rd_bytes_of 32)) (\<lambda>grp.
    rbind (lift_cbor rd_uint) (\<lambda>seq.
    rbind (lift_cbor rd_bytes) (\<lambda>message.
    rreturn (FHandshake grp seq message)))))"
| "decode_fields url_parse len TSub =
    rbind (lift_cbor (rd_array 2)) (\<lambda>_.
    rbind (lift_cbor (rd_bytes_of 32)) (\<lambda>grp.
    rbind (lift_cbor rd_uint) (\<lambda>from_seq.
    rreturn (FSub grp from_seq))))"
| "decode_fields url_parse len TSubAck =
    rbind (lift_cbor (rd_array 2)) (\<lambda>_.
    rbind (lift_cbor (rd_bytes_of 32)) (\<lambda>grp.
    rbind (lift_cbor rd_uint) (\<lambda>head_seq.
    rreturn (FSubAck grp head_seq))))"
| "decode_fields url_parse len TRecon =
    rbind (lift_cbor (rd_array 2)) (\<lambda>_.
    rbind (lift_cbor (rd_bytes_of 32)) (\<lambda>grp.
    rbind (lift_cbor rd_bytes) (\<lambda>payload.
    rreturn (FRecon grp payload))))"
| "decode_fields url_parse len TPush = decode_blob FPush"
| "decode_fields url_parse len TSend = decode_blob FSend"
| "decode_fields url_parse len TSendAck =
    rbind (lift_cbor (rd_array 2)) (\<lambda>_.
    rbind (lift_cbor (rd_bytes_of 32)) (\<lambda>hash.
    rbind (lift_cbor rd_uint) (\<lambda>seq.
    rreturn (FSendAck hash seq))))"
| "decode_fields url_parse len TBlob = decode_blob FBlob"
| "decode_fields url_parse len TDrop = decode_blob FDrop"
| "decode_fields url_parse len TBye = decode_blob FBye"
| "decode_fields url_parse len TLive =
    rbind (lift_cbor (rd_array 3)) (\<lambda>_.
    rbind (lift_cbor (rd_bytes_of 32)) (\<lambda>grp.
    rbind (lift_cbor rd_uint) (\<lambda>epoch.
    rbind (lift_cbor rd_bytes) (\<lambda>ct.
    rreturn (FLive grp epoch ct)))))"
| "decode_fields url_parse len TCall =
    rbind (lift_cbor (rd_array 5)) (\<lambda>_.
    rbind (lift_cbor (rd_bytes_of CALL_ID_BYTES)) (\<lambda>call_id.
    rbind (lift_cbor (rd_bytes_of 32)) (\<lambda>grp.
    rbind (lift_cbor rd_uint) (\<lambda>epoch.
    rbind (lift_cbor rd_u8) (\<lambda>kind.
    rbind (lift_cbor rd_bytes) (\<lambda>body.
    rreturn (FCall call_id grp epoch kind body)))))))"
| "decode_fields url_parse len TMedia =
    rbind (lift_cbor (rd_array 4)) (\<lambda>_.
    rbind (lift_cbor (rd_bytes_of CALL_ID_BYTES)) (\<lambda>call_id.
    rbind (lift_cbor (rd_bytes_of STREAM_BYTES)) (\<lambda>stream.
    rbind (lift_cbor rd_uint) (\<lambda>seq.
    rbind (lift_cbor rd_bytes) (\<lambda>ct.
    rreturn (FMedia call_id stream seq ct))))))"
| "decode_fields url_parse len TKeys = rbind decode_keys (\<lambda>body. rreturn (FKeys body))"
| "decode_fields url_parse len TWake = rbind (decode_wake url_parse len) (\<lambda>body. rreturn (FWake body))"
| "decode_fields url_parse len TError = rbind decode_error (\<lambda>error. rreturn (FError error))"

definition frame_body :: "url_parser \<Rightarrow> nat \<Rightarrow> (frame_decode_error, frame) read" where
  "frame_body url_parse len =
    rbind (lift_cbor (rd_array 2)) (\<lambda>_.
    rbind (lift_cbor rd_uint) (\<lambda>raw_tag.
    case Option.bind (try_from raw_tag) frame_tag_from_u16 of
      None \<Rightarrow> rfail (UnknownTag (unwrap_or (try_from raw_tag) 0xffff))
    | Some tag \<Rightarrow> decode_fields url_parse len tag))"

definition frame_decode :: "url_parser \<Rightarrow> bytes \<Rightarrow> frame_decode_error + frame" where
  "frame_decode url_parse data =
    (if length data > MAX_FRAME_BYTES then Inl (TooLarge (length data))
     else rd_whole FrameCbor (frame_body url_parse (length data)) data)"

subsection \<open>The codec\<close>

text \<open>\<open>keys_wf\<close>, \<open>wake_wf\<close> and \<open>fields_wf\<close> say what the decoder enforces on the fields of a frame;
  \<open>frame_wf\<close> adds the two size limits.\<close>

fun keys_wf :: "keys_body \<Rightarrow> bool" where
  "keys_wf (Publish packages) \<longleftrightarrow> fits (length packages) \<and> (\<forall>p\<in>set packages. fits (length p))"
| "keys_wf (Bundles packages) \<longleftrightarrow> fits (length packages) \<and> (\<forall>p\<in>set packages. fits (length p))"
| "keys_wf (Fetch device count) \<longleftrightarrow> length device = 32"
| "keys_wf _ \<longleftrightarrow> True"

fun wake_wf :: "url_parser \<Rightarrow> wake_body \<Rightarrow> bool" where
  "wake_wf url_parse (Register handle categories expires_at) \<longleftrightarrow>
    length handle = HANDLE_BYTES \<and> is_valid_mask categories"
| "wake_wf url_parse (Capability enabled register_url) \<longleftrightarrow>
    utf8_valid register_url \<and> length register_url \<le> MAX_REGISTER_URL_BYTES \<and>
    is_acceptable_register_url url_parse register_url"
| "wake_wf url_parse _ \<longleftrightarrow> True"

definition error_wf :: "frame_error \<Rightarrow> bool" where
  "error_wf e \<longleftrightarrow> fe_retry_after e \<noteq> Some 0 \<and> fe_detail e \<noteq> Some [] \<and> fits (length (unwrap_or (fe_detail e) []))"

fun fields_wf :: "url_parser \<Rightarrow> frame \<Rightarrow> bool" where
  "fields_wf _ (FConnect version groups sent_at) \<longleftrightarrow>
    MIN_PROTOCOL_VERSION \<le> version \<and> fits (length groups) \<and> (\<forall>g\<in>set groups. length g = 32)"
| "fields_wf _ (FConnectAck version server_time min_enc) \<longleftrightarrow>
    MIN_PROTOCOL_VERSION \<le> version \<and> version \<le> PROTOCOL_VERSION"
| "fields_wf _ (FAuthChallenge challenge) \<longleftrightarrow> fits (length challenge)"
| "fields_wf _ (FAuth device_key signature) \<longleftrightarrow> length device_key = 32 \<and> length signature = 64"
| "fields_wf _ (FAuthAck _ _ build_digest _ _) \<longleftrightarrow> fits (length build_digest)"
| "fields_wf _ (FAccess body) \<longleftrightarrow> fits (length body)"
| "fields_wf _ (FWrap body) \<longleftrightarrow> fits (length body)"
| "fields_wf _ (FJoin body) \<longleftrightarrow> fits (length body)"
| "fields_wf _ (FInvite body) \<longleftrightarrow> fits (length body)"
| "fields_wf _ (FHandshake grp seq message) \<longleftrightarrow> length grp = 32 \<and> fits (length message)"
| "fields_wf _ (FSub grp from_seq) \<longleftrightarrow> length grp = 32"
| "fields_wf _ (FSubAck grp head_seq) \<longleftrightarrow> length grp = 32"
| "fields_wf _ (FRecon grp payload) \<longleftrightarrow> length grp = 32 \<and> fits (length payload)"
| "fields_wf _ (FPush envelope) \<longleftrightarrow> fits (length envelope)"
| "fields_wf _ (FSend envelope) \<longleftrightarrow> fits (length envelope)"
| "fields_wf _ (FSendAck hash seq) \<longleftrightarrow> length hash = 32"
| "fields_wf _ (FBlob payload) \<longleftrightarrow> fits (length payload)"
| "fields_wf _ (FDrop payload) \<longleftrightarrow> fits (length payload)"
| "fields_wf _ (FBye reason) \<longleftrightarrow> fits (length reason)"
| "fields_wf _ (FLive grp epoch ct) \<longleftrightarrow> length grp = 32 \<and> fits (length ct)"
| "fields_wf _ (FCall call_id grp epoch kind body) \<longleftrightarrow>
    length call_id = CALL_ID_BYTES \<and> length grp = 32 \<and> fits (length body)"
| "fields_wf _ (FMedia call_id stream seq ct) \<longleftrightarrow>
    length call_id = CALL_ID_BYTES \<and> length stream = STREAM_BYTES \<and> fits (length ct)"
| "fields_wf _ (FKeys body) \<longleftrightarrow> keys_wf body"
| "fields_wf url_parse (FWake body) \<longleftrightarrow> wake_wf url_parse body"
| "fields_wf _ (FError error) \<longleftrightarrow> error_wf error"

definition is_wake :: "frame \<Rightarrow> bool" where
  "is_wake f \<longleftrightarrow> tag_of f = TWake"

definition frame_wf :: "url_parser \<Rightarrow> frame \<Rightarrow> bool" where
  "frame_wf url_parse f \<longleftrightarrow> fields_wf url_parse f \<and> length (frame_encode f) \<le> MAX_FRAME_BYTES \<and>
    (is_wake f \<longrightarrow> length (frame_encode f) \<le> MAX_WAKE_BYTES)"

lemma tag_round_trip: "frame_tag_from_u16 (tag_as_u16 t) = Some t"
  by (cases t) (simp_all add: frame_tag_from_u16_def)

lemma frame_tag_from_u16_Some: "frame_tag_from_u16 v = Some t \<Longrightarrow> v = tag_as_u16 t"
  by (auto simp: frame_tag_from_u16_def split: if_splits)

lemma reads_bytes_list:
  "\<forall>p\<in>set ps. fits (length p) \<Longrightarrow> list_all2 (reads (rmap_err g rd_bytes)) (map cbor_bytes ps) ps"
  by (auto simp: list_all2_conv_all_nth intro!: reads_map_err reads_bytes)

lemma reads_bytes_of_list:
  "\<forall>p\<in>set ps. length p = n \<Longrightarrow> fits n \<Longrightarrow>
    list_all2 (reads (rmap_err g (rd_bytes_of n))) (map cbor_bytes ps) ps"
  by (auto simp: list_all2_conv_all_nth intro!: reads_map_err reads_bytes_of)

lemmas reads_bytes_lists = reads_lists [OF reads_bytes_list] reads_lists [OF reads_bytes_of_list]

lemma parses_bytes_list:
  "parses (rtimes n (rmap_err g rd_bytes))
     (\<lambda>bs ps. length ps = n \<and> bs = concat (map cbor_bytes ps) \<and> (\<forall>p\<in>set ps. fits (length p)))"
proof (rule parses_mono [OF parses_times [OF parses_map_err [OF parses_bytes]]])
  fix bs ps
  assume "length ps = n \<and> (\<exists>bss. bs = concat bss \<and>
    list_all2 (\<lambda>bs v. bs = cbor_bytes v \<and> fits (length v)) bss ps)"
  then show "length ps = n \<and> bs = concat (map cbor_bytes ps) \<and> (\<forall>p\<in>set ps. fits (length p))"
    by (auto simp: list_all2_conv_all_nth in_set_conv_nth intro!: arg_cong [where f = concat] nth_equalityI)
qed

lemma parses_bytes_of_list:
  "parses (rtimes n (rmap_err g (rd_bytes_of k)))
     (\<lambda>bs ps. length ps = n \<and> bs = concat (map cbor_bytes ps) \<and> (\<forall>p\<in>set ps. length p = k))"
proof (rule parses_mono [OF parses_times [OF parses_map_err [OF parses_bytes_of]]])
  fix bs ps
  assume "length ps = n \<and> (\<exists>bss. bs = concat bss \<and>
    list_all2 (\<lambda>bs v. bs = cbor_bytes v \<and> length v = k \<and> fits k) bss ps)"
  then show "length ps = n \<and> bs = concat (map cbor_bytes ps) \<and> (\<forall>p\<in>set ps. length p = k)"
    by (auto simp: list_all2_conv_all_nth in_set_conv_nth intro!: arg_cong [where f = concat] nth_equalityI)
qed

lemma reads_keys: "keys_wf body \<Longrightarrow> reads decode_keys (frame_fields (FKeys body)) body"
  unfolding decode_keys_def frame_fields.simps
  by (rule reads_form; cases body) (auto simp: fits_small intro!: reads_arrays reads_steps reads_bytes_lists)

lemma reads_wake:
  "wake_wf url_parse body \<Longrightarrow> len \<le> MAX_WAKE_BYTES \<Longrightarrow>
   reads (decode_wake url_parse len) (frame_fields (FWake body)) body"
  unfolding decode_wake_def frame_fields.simps
  by (simp, rule reads_form; cases body)
     (auto simp: fits_small HANDLE_BYTES_def MAX_REGISTER_URL_BYTES_def intro!: reads_arrays reads_steps)

lemma find_code:
  "find (\<lambda>c'. code_as_str c' = code_as_str c \<and> class_as_str (code_class c') = class_as_str (code_class c))
     ALL_CODES = Some c"
proof -
  have "find (\<lambda>c'. c' = c) ALL_CODES = Some c"
    by (cases c) (simp_all add: ALL_CODES_def)
  moreover have "(\<lambda>c'. code_as_str c' = code_as_str c \<and>
     class_as_str (code_class c') = class_as_str (code_class c)) = (\<lambda>c'. c' = c)"
    by (auto simp: code_as_str_inject)
  ultimately show ?thesis
    by simp
qed

lemma error_wf_fields:
  assumes "error_wf e"
  shows "\<lparr>fe_code = fe_code e,
    fe_retry_after = (if 0 < unwrap_or (fe_retry_after e) 0 then Some (unwrap_or (fe_retry_after e) 0) else None),
    fe_detail = (if unwrap_or (fe_detail e) [] \<noteq> [] then Some (unwrap_or (fe_detail e) []) else None)\<rparr> = e"
  using assms by (cases "fe_retry_after e"; cases "fe_detail e") (auto simp: error_wf_def word_gt_0)

lemma code_string_fits: "fits (length (as_bytes (class_as_str (code_class c))))"
  "fits (length (as_bytes (code_as_str c)))"
  by (cases c; simp add: fits_small as_bytes_def)+

lemma reads_error:
  assumes "error_wf error"
  shows "reads decode_error (frame_fields (FError error)) error"
proof -
  have "reads decode_error (frame_fields (FError error))
    \<lparr>fe_code = fe_code error,
     fe_retry_after = (if 0 < unwrap_or (fe_retry_after error) 0 then Some (unwrap_or (fe_retry_after error) 0) else None),
     fe_detail = (if unwrap_or (fe_detail error) [] \<noteq> [] then Some (unwrap_or (fe_detail error) []) else None)\<rparr>"
    unfolding decode_error_def frame_fields.simps
    by (rule reads_arrays)
       (use assms in \<open>auto simp: fits_small error_wf_def find_code code_string_fits
          intro!: reads_arrays reads_steps\<close>)
  then show ?thesis
    by (simp only: error_wf_fields [OF assms])
qed

lemma reads_blob: "fits (length b) \<Longrightarrow> reads (decode_blob mk) (cbor_array [cbor_bytes b]) (mk b)"
  unfolding decode_blob_def by (auto simp: fits_small intro!: reads_arrays reads_steps)

lemma reads_fields:
  assumes "fields_wf url_parse f" "is_wake f \<Longrightarrow> len \<le> MAX_WAKE_BYTES"
  shows "reads (decode_fields url_parse len (tag_of f)) (frame_fields f) f"
  using assms
  by (cases f) (auto simp: fits_small CALL_ID_BYTES_def STREAM_BYTES_def is_wake_def leD
      simp del: frame_fields.simps(23-25)
      intro!: reads_wrap [OF reads_keys] reads_wrap [OF reads_wake] reads_wrap [OF reads_error]
        reads_blob reads_arrays reads_steps reads_bytes_lists)

lemmas parses_lists = parses_bind [OF parses_bytes_list] parses_bind [OF parses_bytes_of_list]

lemma parses_keys: "parses decode_keys (\<lambda>bs b. keys_wf b \<and> bs = frame_fields (FKeys b))"
  unfolding decode_keys_def
  by (auto simp: cbor_array_def intro!: parses_steps parses_lists)

lemma form_query:
  fixes form :: u8
  assumes "3 \<le> form" "form \<le> 5" "form \<noteq> 3" "form \<noteq> 4"
  shows "form = 5"
  using assms by (auto simp: word_le_nat_alt word_unat_eq_iff)

lemma parses_wake:
  "parses (decode_wake url_parse len)
     (\<lambda>bs b. wake_wf url_parse b \<and> bs = frame_fields (FWake b) \<and> len \<le> MAX_WAKE_BYTES)"
  unfolding decode_wake_def
  by (auto simp: cbor_array_def dest: form_query intro!: parses_steps)

lemma parses_error: "parses decode_error (\<lambda>bs e. error_wf e \<and> bs = frame_fields (FError e))"
  unfolding decode_error_def
  by (auto simp: cbor_array_def error_wf_def find_Some_iff word_gt_0 fits_small intro!: parses_steps
      split: option.split)

lemma parses_blob:
  "parses (decode_blob mk) (\<lambda>bs f. \<exists>b. f = mk b \<and> bs = cbor_array [cbor_bytes b] \<and> fits (length b))"
  unfolding decode_blob_def by (auto simp: cbor_array_def intro!: parses_steps)

lemma parses_fields:
  "parses (decode_fields url_parse len t)
     (\<lambda>bs f. fields_wf url_parse f \<and> tag_of f = t \<and> bs = frame_fields f \<and> (is_wake f \<longrightarrow> len \<le> MAX_WAKE_BYTES))"
  by (cases t)
     (auto simp: cbor_array_def is_wake_def not_less
       intro!: parses_steps parses_lists parses_wrap [OF parses_keys] parses_wrap [OF parses_wake]
         parses_wrap [OF parses_error] parses_mono [OF parses_blob])

lemma parses_frame:
  "parses (frame_body url_parse len)
     (\<lambda>bs f. fields_wf url_parse f \<and> bs = frame_encode f \<and> (is_wake f \<longrightarrow> len \<le> MAX_WAKE_BYTES))"
  unfolding frame_body_def
proof (rule parses_steps, rule parses_steps, goal_cases)
  case (1 _ h raw b)
  show ?case
  proof (cases "Option.bind (try_from raw) frame_tag_from_u16")
    case (Some t)
    then have "raw = ucast (tag_as_u16 t)"
      by (auto simp: Option.bind_eq_Some_conv dest: frame_tag_from_u16_Some try_from_Some)
    then show ?thesis
      using 1 Some by (auto simp: frame_encode_def cbor_array_def intro!: parses_mono [OF parses_fields])
  qed (simp add: parses_fail)
qed

lemma reads_frame:
  assumes "fields_wf url_parse f" "is_wake f \<Longrightarrow> len \<le> MAX_WAKE_BYTES"
  shows "reads (frame_body url_parse len) (frame_encode f) f"
proof -
  have t: "Option.bind (try_from (ucast (tag_as_u16 (tag_of f)) :: u64)) frame_tag_from_u16 = Some (tag_of f)"
    by (simp add: try_from_ucast tag_round_trip)
  have "frame_fields f \<noteq> []"
    by (cases f) simp_all
  then show ?thesis
    unfolding frame_body_def frame_encode_def
    by (intro reads_arrays) (auto simp: fits_small t intro!: reads_uint [THEN reads_step] reads_fields assms)
qed

interpretation fr: wire_codec frame_encode "frame_decode url_parse" "frame_wf url_parse"
  for url_parse
proof
  fix f
  assume "frame_wf url_parse f"
  then show "frame_decode url_parse (frame_encode f) = Inr f"
    by (auto simp: frame_wf_def frame_decode_def intro!: rd_whole_encoded reads_frame)
next
  fix data f
  assume "frame_decode url_parse data = Inr f"
  then show "frame_wf url_parse f \<and> data = frame_encode f"
    by (auto simp: frame_wf_def frame_decode_def split: if_splits dest!: rd_whole_decoded [OF parses_frame])
qed

text \<open>C25. The frame codec: \<open>Frame::decode\<close> returns a frame if and only if the frame's fields obey
  the frame set (widths, version ranges, a registry code, a valid wake mask and ringer URL), its
  encoding is within the size limit of its type, and the input is exactly \<open>Frame::encode\<close> of it.
  Decoding inverts encoding on all twenty-five frame types, and no frame has two encodings.\<close>

theorem frame_decode_iff:
  "frame_decode url_parse data = Inr f \<longleftrightarrow> frame_wf url_parse f \<and> data = frame_encode f"
  by (rule fr.dec_iff)

subsection \<open>What a queued frame is charged\<close>

text \<open>An item costs at most nine bytes of head above the bytes it carries.\<close>

lemma item_cost:
  "length (cbor_uint v) \<le> 9" "length (cbor_bytes b) \<le> 9 + length b" "length (cbor_text b) \<le> 9 + length b"
  "length (cbor_boolean t) \<le> 1"
  using length_cbor_head(2)
  by (simp_all add: cbor_uint_def cbor_bytes_def cbor_text_def cbor_boolean_def cbor_TRUE_def cbor_FALSE_def)

lemma array_cost:
  assumes "list_all2 (\<lambda>item c. length item \<le> c) items cs"
  shows "length (cbor_array items) \<le> 9 + sum_list cs"
proof -
  have "sum_list (map length items) \<le> sum_list cs"
    using assms by (induction rule: list_all2_induct) auto
  then show ?thesis
    using length_cbor_head(2) [of MAJOR_ARRAY "of_nat (length items)"]
    by (simp add: cbor_array_def length_concat)
qed

lemmas frame_costs = array_cost item_cost list_all2_Nil [THEN iffD2, OF refl] list.rel_intros

definition accounted :: "frame \<Rightarrow> bool" where
  "accounted f \<longleftrightarrow> tag_of f \<notin> {TConnect, TKeys, TAuthChallenge, TAuthAck, TDrop, TBye, TError}"

lemma wake_fields_cost: "wake_wf url_parse b \<Longrightarrow> length (wake_fields b) \<le> 60 + wake_queued_bytes b"
  by (cases b; simp only: wake_fields.simps, rule order.trans [OF array_cost], (rule frame_costs)+)
     (simp_all add: HANDLE_BYTES_def)

lemma frame_fields_cost:
  "fields_wf url_parse f \<Longrightarrow> accounted f \<Longrightarrow> length (frame_fields f) \<le> 200 + frame_payload_bytes f"
proof (induction f)
  case (FWake b)
  then show ?case
    using array_cost [of "[cbor_uint (ucast (wake_form b)), wake_fields b]" "[9, length (wake_fields b)]"]
      item_cost(1) wake_fields_cost [of url_parse b] by simp
next
  case (FCall call_id grp epoch kind body)
  then have l: "length call_id = 16" "length grp = 32"
    by (simp_all add: CALL_ID_BYTES_def)
  show ?case
    unfolding frame_fields.simps
    by (rule order.trans [OF array_cost], (rule frame_costs)+) (simp add: l)
qed (auto simp: accounted_def CALL_ID_BYTES_def STREAM_BYTES_def intro!: order.trans [OF array_cost] frame_costs)

text \<open>The send queue never under-charges a frame that carries one payload: for every well-formed
  frame other than \<open>Connect\<close>, \<open>Keys\<close>, \<open>AuthChallenge\<close>, \<open>AuthAck\<close>, \<open>Drop\<close>, \<open>Bye\<close> and \<open>Error\<close>, the
  bytes the writer will put on the wire are at most \<open>queued_bytes\<close>.\<close>

lemma queued_bytes_covers_encoding:
  assumes "fields_wf url_parse f" "accounted f"
  shows "length (frame_encode f) \<le> queued_bytes f"
proof -
  have "length (frame_encode f) \<le> 9 + sum_list [9, length (frame_fields f)]"
    unfolding frame_encode_def by (rule array_cost) (simp add: item_cost)
  then show ?thesis
    using frame_fields_cost [OF assms] by (simp add: queued_bytes_def FRAME_OVERHEAD_def)
qed

text \<open>A \<open>Drop\<close> reply is the exception: its payload is as long as the lifecycle record it carries
  and is charged nothing.\<close>

lemma queued_bytes_drop: "queued_bytes (FDrop payload) = FRAME_OVERHEAD"
  "length payload \<le> length (frame_encode (FDrop payload))"
  by (simp_all add: queued_bytes_def frame_encode_def cbor_array_def cbor_bytes_def)

end
