(* ===== verification/Outbound.thy ===== *)
theory Outbound
  imports Frame
begin

text \<open>
  A connection's outbound queue, the part of \<open>src/backend/wealdrelay/src/ws.rs\<close> every component that
  sends goes through: the bounded channel, its byte budget, \<open>try_queue\<close>, \<open>queue_all\<close> and the
  receiving half that gives a frame's bytes back. The channel is the list of what it holds, oldest
  first; the semaphore is its number of available permits. \<open>SEND_QUEUE_BOUND\<close> is \<open>session.rs\<close>'s.
\<close>

definition SEND_QUEUE_BOUND :: nat where "SEND_QUEUE_BOUND = 256"
definition SEND_QUEUE_BYTE_BUDGET :: nat where "SEND_QUEUE_BYTE_BUDGET = 8 * 1024 * 1024"

datatype outbound_msg = OutFrame frame | OutPing | OutClose

datatype queued = Sent | Full | Closed

definition downgrade_frame :: "bytes \<Rightarrow> frame" where
  "downgrade_frame grp = FSubAck grp 0"

record outbound =
  ob_queue :: "outbound_msg list"
  ob_permits :: nat
  ob_open :: bool
  ob_evicted :: bool

definition outbound_channel :: outbound where
  "outbound_channel =
    \<lparr>ob_queue = [], ob_permits = SEND_QUEUE_BYTE_BUDGET, ob_open = True, ob_evicted = False\<rparr>"

definition permits_for :: "frame \<Rightarrow> nat" where
  "permits_for f = min (queued_bytes f) SEND_QUEUE_BYTE_BUDGET"

definition ob_queued_bytes :: "outbound \<Rightarrow> nat" where
  "ob_queued_bytes q = SEND_QUEUE_BYTE_BUDGET - ob_permits q"

definition free_slots :: "outbound \<Rightarrow> nat" where
  "free_slots q = SEND_QUEUE_BOUND - length (ob_queue q)"

text \<open>\<open>mpsc::Sender::try_send\<close>: a closed channel is reported before a full one.\<close>

definition try_send :: "outbound \<Rightarrow> outbound_msg \<Rightarrow> queued \<times> outbound" where
  "try_send q x =
    (if \<not> ob_open q then (Closed, q)
     else if SEND_QUEUE_BOUND \<le> length (ob_queue q) then (Full, q)
     else (Sent, q\<lparr>ob_queue := ob_queue q @ [x]\<rparr>))"

definition ob_close :: "outbound \<Rightarrow> bool \<times> outbound" where
  "ob_close q = (let (r, q') = try_send q OutClose in (r = Sent, q'))"

definition try_ping :: "outbound \<Rightarrow> bool \<times> outbound" where
  "try_ping q = (let (r, q') = try_send q OutPing in (r = Sent, q'))"

definition ob_evict :: "outbound \<Rightarrow> outbound" where
  "ob_evict q = q\<lparr>ob_evicted := True\<rparr>"

definition try_queue :: "outbound \<Rightarrow> frame \<Rightarrow> queued \<times> outbound" where
  "try_queue q f =
    (let cost = permits_for f in
     if ob_permits q < cost then (Full, q)
     else case try_send (q\<lparr>ob_permits := ob_permits q - cost\<rparr>) (OutFrame f) of
       (Sent, q') \<Rightarrow> (Sent, q')
     | (r, _) \<Rightarrow> (r, q))"

definition ob_release :: "outbound_msg \<Rightarrow> outbound \<Rightarrow> outbound" where
  "ob_release taken q =
    (case taken of OutFrame f \<Rightarrow> q\<lparr>ob_permits := ob_permits q + permits_for f\<rparr> | _ \<Rightarrow> q)"

definition try_recv :: "outbound \<Rightarrow> outbound_msg option \<times> outbound" where
  "try_recv q =
    (case ob_queue q of [] \<Rightarrow> (None, q) | x # xs \<Rightarrow> (Some x, ob_release x (q\<lparr>ob_queue := xs\<rparr>)))"

definition encode_bounded :: "frame \<Rightarrow> nat + bytes" where
  "encode_bounded f =
    (let data = frame_encode f in if length data > MAX_FRAME_BYTES then Inl (length data) else Inr data)"

text \<open>\<open>queue_all\<close>'s loop over any queue that offers one frame at a time.\<close>

fun offer_all :: "('q \<Rightarrow> frame \<Rightarrow> queued \<times> 'q) \<Rightarrow> 'q \<Rightarrow> frame list \<Rightarrow> bool \<times> 'q" where
  "offer_all offer q [] = (True, q)"
| "offer_all offer q (f # fs) =
    (case offer q f of (Sent, q') \<Rightarrow> offer_all offer q' fs | (_, q') \<Rightarrow> (False, q'))"

definition queue_all :: "outbound \<Rightarrow> frame list \<Rightarrow> bool \<times> outbound" where
  "queue_all = offer_all try_queue"

text \<open>What the writer takes while a caller waits: the receiver's \<open>recv\<close>, \<open>n\<close> times or until the
  channel is empty.\<close>

fun drain :: "nat \<Rightarrow> outbound \<Rightarrow> outbound_msg list \<times> outbound" where
  "drain 0 q = ([], q)"
| "drain (Suc n) q =
    (case try_recv q of
       (None, q') \<Rightarrow> ([], q')
     | (Some x, q') \<Rightarrow> let (xs, q'') = drain n q' in (x # xs, q''))"

text \<open>The three moments of a frame in \<open>queue_all_awaiting\<close>: its permits are acquired, it takes a slot, or
  it is given up and its permits return.\<close>

definition await_acquire :: "frame \<Rightarrow> outbound \<Rightarrow> outbound option" where
  "await_acquire f q = (if ob_permits q < permits_for f then None else Some (q\<lparr>ob_permits := ob_permits q - permits_for f\<rparr>))"

definition await_slot :: "frame \<Rightarrow> outbound \<Rightarrow> outbound option" where
  "await_slot f q = (case try_send q (OutFrame f) of (Sent, q') \<Rightarrow> Some q' | _ \<Rightarrow> None)"

definition await_drop :: "frame \<Rightarrow> outbound \<Rightarrow> outbound" where
  "await_drop f q = q\<lparr>ob_permits := ob_permits q + permits_for f\<rparr>"

text \<open>\<open>queue_all_awaiting\<close> waits twice for every frame, first for permits and then for a slot, and
  each wait may time out. \<open>writer i\<close> is how many messages the writer takes during the two waits of
  frame \<open>i\<close>. The second component of the result is what it took. The run is the one of a channel on
  which nobody else sends meanwhile; other senders come in with the steps of the queue below.\<close>

fun queue_all_awaiting :: "(nat \<Rightarrow> nat \<times> nat) \<Rightarrow> nat \<Rightarrow> outbound \<Rightarrow> frame list \<Rightarrow>
    bool \<times> outbound_msg list \<times> outbound" where
  "queue_all_awaiting writer i q [] = (True, [], q)"
| "queue_all_awaiting writer i q (f # fs) =
    (let (t1, q1) = drain (fst (writer i)) q in
     case await_acquire f q1 of
       None \<Rightarrow> (False, t1, q1)
     | Some held \<Rightarrow>
       let (t2, q2) = drain (snd (writer i)) held in
       case await_slot f q2 of
         Some q3 \<Rightarrow> let (ok, t3, q4) = queue_all_awaiting writer (i + 1) q3 fs in (ok, t1 @ t2 @ t3, q4)
       | None \<Rightarrow> (False, t1 @ t2, await_drop f q2))"

subsection \<open>What the queue promises\<close>

text \<open>The interface of the queue: a frame that is accepted is last in line, a frame that is refused
  changes nothing, and the queue stays within its limits.\<close>

locale frame_queue =
  fixes offer :: "'q \<Rightarrow> frame \<Rightarrow> queued \<times> 'q"
    and pending :: "'q \<Rightarrow> frame list"
    and inv :: "'q \<Rightarrow> bool"
  assumes offer_sent: "offer q f = (Sent, q') \<Longrightarrow> pending q' = pending q @ [f]"
    and offer_refused: "offer q f = (r, q') \<Longrightarrow> r \<noteq> Sent \<Longrightarrow> q' = q"
    and offer_inv: "inv q \<Longrightarrow> offer q f = (r, q') \<Longrightarrow> inv q'"
begin

lemma offer_all_prefix:
  "offer_all offer q fs = (ok, q') \<Longrightarrow>
    \<exists>n\<le>length fs. pending q' = pending q @ take n fs \<and> (ok \<longleftrightarrow> n = length fs)"
proof (induction fs arbitrary: q)
  case (Cons f fs)
  obtain r q1 where o: "offer q f = (r, q1)"
    by (cases "offer q f")
  show ?case
  proof (cases "r = Sent")
    case True
    then obtain n where "n \<le> length fs" "pending q' = pending q1 @ take n fs" "ok \<longleftrightarrow> n = length fs"
      using Cons o by auto
    then show ?thesis
      using offer_sent o True by (intro exI [where x = "Suc n"]) auto
  next
    case False
    then have "ok = False" "q' = q1"
      using Cons.prems o by (auto split: queued.splits)
    then show ?thesis
      using offer_refused [OF o False] by auto
  qed
qed simp

lemma offer_all_inv: "inv q \<Longrightarrow> offer_all offer q fs = (ok, q') \<Longrightarrow> inv q'"
  by (induction fs arbitrary: q) (auto split: prod.splits queued.splits dest: offer_inv)

end

text \<open>The permits a message in the channel holds, and the balance of the semaphore.\<close>

fun msg_permits :: "outbound_msg \<Rightarrow> nat" where
  "msg_permits (OutFrame f) = permits_for f"
| "msg_permits OutPing = 0"
| "msg_permits OutClose = 0"

definition ob_inv :: "outbound \<Rightarrow> bool" where
  "ob_inv q \<longleftrightarrow> length (ob_queue q) \<le> SEND_QUEUE_BOUND \<and>
    ob_permits q + sum_list (map msg_permits (ob_queue q)) = SEND_QUEUE_BYTE_BUDGET"

fun frames_of :: "outbound_msg list \<Rightarrow> frame list" where
  "frames_of [] = []"
| "frames_of (OutFrame f # xs) = f # frames_of xs"
| "frames_of (x # xs) = frames_of xs"

lemma frames_of_append [simp]: "frames_of (xs @ ys) = frames_of xs @ frames_of ys"
  by (induction xs rule: frames_of.induct) simp_all

lemma frames_of_frames [simp]: "frames_of (map OutFrame fs) = fs"
  by (induction fs) simp_all

lemma try_send_cases:
  obtains "\<not> ob_open q" "try_send q x = (Closed, q)"
  | "ob_open q" "SEND_QUEUE_BOUND \<le> length (ob_queue q)" "try_send q x = (Full, q)"
  | "ob_open q" "length (ob_queue q) < SEND_QUEUE_BOUND" "try_send q x = (Sent, q\<lparr>ob_queue := ob_queue q @ [x]\<rparr>)"
  by (cases "ob_open q"; cases "SEND_QUEUE_BOUND \<le> length (ob_queue q)") (auto simp: try_send_def)

text \<open>Whether one frame is queued depends on the three limits and nothing else.\<close>

definition queue_has_room :: "outbound \<Rightarrow> frame \<Rightarrow> bool" where
  "queue_has_room q f \<longleftrightarrow> ob_open q \<and> length (ob_queue q) < SEND_QUEUE_BOUND \<and> permits_for f \<le> ob_permits q"

lemma try_queue_sent:
  "queue_has_room q f \<Longrightarrow>
    try_queue q f = (Sent, q\<lparr>ob_queue := ob_queue q @ [OutFrame f], ob_permits := ob_permits q - permits_for f\<rparr>)"
  by (simp add: queue_has_room_def try_queue_def try_send_def)

lemma try_queue_refused: "\<not> queue_has_room q f \<Longrightarrow> \<exists>r. r \<noteq> Sent \<and> try_queue q f = (r, q)"
  by (auto simp: queue_has_room_def try_queue_def try_send_def Let_def)

lemma try_queue_cases:
  assumes "try_queue q f = (r, q')"
  obtains "r = Sent" "queue_has_room q f"
    "q' = q\<lparr>ob_queue := ob_queue q @ [OutFrame f], ob_permits := ob_permits q - permits_for f\<rparr>"
  | "r \<noteq> Sent" "\<not> queue_has_room q f" "q' = q"
  using assms try_queue_sent [of q f] try_queue_refused [of q f] by (cases "queue_has_room q f") auto

interpretation out: frame_queue try_queue "\<lambda>q. frames_of (ob_queue q)" ob_inv
proof (unfold_locales, goal_cases)
  case (1 q f q')
  then show ?case
    by (auto elim: try_queue_cases)
next
  case (2 q f r q')
  then show ?case
    by (auto elim: try_queue_cases)
next
  case (3 q f r q')
  from 3(2) show ?case
    by (rule try_queue_cases) (use 3(1) in \<open>auto simp: ob_inv_def queue_has_room_def\<close>)
qed

subsection \<open>A run is queued whole or not at all\<close>

lemma queue_all_iff:
  "fst (queue_all q fs) \<longleftrightarrow> fs = [] \<or>
    (ob_open q \<and> length fs \<le> free_slots q \<and> sum_list (map permits_for fs) \<le> ob_permits q)"
proof (induction fs arbitrary: q)
  case (Cons f fs)
  show ?case
  proof (cases "queue_has_room q f")
    case True
    then show ?thesis
      using Cons.IH [of "snd (try_queue q f)"]
      by (auto simp: queue_all_def try_queue_sent queue_has_room_def free_slots_def)
  next
    case False
    then obtain r where "r \<noteq> Sent" "try_queue q f = (r, q)"
      using try_queue_refused by blast
    then show ?thesis
      using False by (cases r) (auto simp: queue_all_def queue_has_room_def free_slots_def)
  qed
qed (simp add: queue_all_def)

text \<open>\<open>queue_all\<close> succeeds exactly when the connection is open and the whole run fits the free
  slots and the free bytes, and then the frames follow what was queued, in order; when it fails, what
  was queued is a proper prefix of the run and nothing else changed places.\<close>

theorem queue_all_runs:
  "queue_all q fs = (ok, q') \<Longrightarrow>
    (ok \<longleftrightarrow> fs = [] \<or> (ob_open q \<and> length fs \<le> free_slots q \<and> sum_list (map permits_for fs) \<le> ob_permits q)) \<and>
    (\<exists>n\<le>length fs. frames_of (ob_queue q') = frames_of (ob_queue q) @ take n fs \<and> (ok \<longleftrightarrow> n = length fs))"
  using queue_all_iff [of q fs] out.offer_all_prefix [of q fs ok q'] by (simp add: queue_all_def)

theorem queue_all_runs_witness:
  "frames_of (ob_queue (snd (queue_all outbound_channel [FBye [], FBye []]))) = [FBye [], FBye []]"
proof -
  have "fst (queue_all outbound_channel [FBye [], FBye []])"
    by (simp add: queue_all_iff outbound_channel_def free_slots_def permits_for_def queued_bytes_def
        SEND_QUEUE_BOUND_def SEND_QUEUE_BYTE_BUDGET_def FRAME_OVERHEAD_def)
  then obtain q' where q': "queue_all outbound_channel [FBye [], FBye []] = (True, q')"
    by (cases "queue_all outbound_channel [FBye [], FBye []]") auto
  from queue_all_runs [OF q'] show ?thesis
    by (simp add: q') (simp add: outbound_channel_def)
qed

subsection \<open>The balance over every operation\<close>

text \<open>What the parts of the relay do with a connection's queue, in any order: the senders queue
  frames, pings and closes and mark the connection evicted, the writer takes what is oldest, the
  receiver is dropped when the socket ends, and a sender that waits acquires the permits of a frame, puts it
  into a slot or gives it up, with any of the other steps in between. The list holds the frames whose
  permits a waiting sender has.\<close>

inductive ob_step :: "outbound \<times> frame list \<Rightarrow> outbound \<times> frame list \<Rightarrow> bool" where
  queue_frame: "try_queue q f = (r, q') \<Longrightarrow> ob_step (q, hs) (q', hs)"
| ping: "try_ping q = (b, q') \<Longrightarrow> ob_step (q, hs) (q', hs)"
| close: "ob_close q = (b, q') \<Longrightarrow> ob_step (q, hs) (q', hs)"
| evict: "ob_step (q, hs) (ob_evict q, hs)"
| take: "try_recv q = (x, q') \<Longrightarrow> ob_step (q, hs) (q', hs)"
| hang_up: "ob_step (q, hs) (q\<lparr>ob_open := False\<rparr>, hs)"
| acquire: "await_acquire f q = Some q' \<Longrightarrow> ob_step (q, hs) (q', f # hs)"
| slot: "f \<in> set hs \<Longrightarrow> await_slot f q = Some q' \<Longrightarrow> ob_step (q, hs) (q', remove1 f hs)"
| give_up: "f \<in> set hs \<Longrightarrow> ob_step (q, hs) (await_drop f q, remove1 f hs)"

inductive ob_reachable :: "outbound \<times> frame list \<Rightarrow> bool" where
  fresh: "ob_reachable (outbound_channel, [])"
| step: "ob_reachable s \<Longrightarrow> ob_step s s' \<Longrightarrow> ob_reachable s'"

text \<open>The balance of the semaphore while senders hold permits.\<close>

definition ob_balance :: "outbound \<Rightarrow> nat \<Rightarrow> bool" where
  "ob_balance q held \<longleftrightarrow> length (ob_queue q) \<le> SEND_QUEUE_BOUND \<and>
    ob_permits q + sum_list (map msg_permits (ob_queue q)) + held = SEND_QUEUE_BYTE_BUDGET"

lemma ob_balance_0: "ob_balance q 0 \<longleftrightarrow> ob_inv q"
  by (simp add: ob_balance_def ob_inv_def)

lemma try_queue_balance: "ob_balance q n \<Longrightarrow> try_queue q f = (r, q') \<Longrightarrow> ob_balance q' n"
  by (erule try_queue_cases) (auto simp: ob_balance_def queue_has_room_def)

lemma try_send_balance: "ob_balance q n \<Longrightarrow> msg_permits x \<le> n \<Longrightarrow> try_send q x = (Sent, q') \<Longrightarrow> ob_balance q' (n - msg_permits x)"
  by (rule try_send_cases [of q x]) (auto simp: ob_balance_def)

lemma signal_balance: "ob_balance q n \<Longrightarrow> msg_permits x = 0 \<Longrightarrow> try_send q x = (r, q') \<Longrightarrow> ob_balance q' n"
  by (rule try_send_cases [of q x]) (auto simp: ob_balance_def)

lemma try_recv_balance: "ob_balance q n \<Longrightarrow> try_recv q = (x, q') \<Longrightarrow> ob_balance q' n"
  by (auto simp: ob_balance_def try_recv_def ob_release_def split: list.splits outbound_msg.splits)

lemma held_remove1: "f \<in> set hs \<Longrightarrow> sum_list (map permits_for hs) = permits_for f + sum_list (map permits_for (remove1 f hs))"
  by (induction hs) auto

lemma ob_step_balance:
  "ob_step s s' \<Longrightarrow> ob_balance (fst s) (sum_list (map permits_for (snd s))) \<Longrightarrow> ob_balance (fst s') (sum_list (map permits_for (snd s')))"
proof (induction rule: ob_step.induct)
  case (queue_frame q f r q' hs)
  then show ?case
    using try_queue_balance by simp
next
  case (ping q b q' hs)
  then show ?case
    using signal_balance [of q _ OutPing] by (cases "try_send q OutPing") (simp add: try_ping_def)
next
  case (close q b q' hs)
  then show ?case
    using signal_balance [of q _ OutClose] by (cases "try_send q OutClose") (simp add: ob_close_def)
next
  case (take q x q' hs)
  then show ?case
    using try_recv_balance by simp
next
  case (acquire f q q' hs)
  then show ?case
    by (auto simp: await_acquire_def ob_balance_def split: if_splits)
next
  case (slot f hs q q')
  then have "try_send q (OutFrame f) = (Sent, q')"
    by (auto simp: await_slot_def split: prod.splits queued.splits)
  then show ?case
    using try_send_balance [of q "sum_list (map permits_for hs)" "OutFrame f" q'] slot(1,3) held_remove1 [of f hs] by simp
next
  case (give_up f hs q)
  then show ?case
    using held_remove1 [of f hs] by (simp add: ob_balance_def await_drop_def)
qed (simp_all add: ob_balance_def ob_evict_def)

lemma ob_reachable_balance: "ob_reachable s \<Longrightarrow> ob_balance (fst s) (sum_list (map permits_for (snd s)))"
proof (induction rule: ob_reachable.induct)
  case fresh
  show ?case
    by (simp add: ob_balance_def outbound_channel_def)
next
  case (step s s')
  then show ?case
    using ob_step_balance by blast
qed

text \<open>C33. Whatever the senders and the writer do with a connection's queue, and however their steps interleave
  with senders that hold permits while they wait for a slot, it never holds more than
  \<open>SEND_QUEUE_BOUND\<close> messages, and the bytes it reports as queued are exactly what its frames were
  charged together with what the waiting senders hold, never more than \<open>SEND_QUEUE_BYTE_BUDGET\<close>: no
  permit is lost and none is given back twice.\<close>

theorem outbound_bounded:
  assumes "ob_reachable (q, hs)"
  shows "length (ob_queue q) \<le> SEND_QUEUE_BOUND \<and>
    ob_queued_bytes q = sum_list (map msg_permits (ob_queue q)) + sum_list (map permits_for hs) \<and>
    ob_queued_bytes q \<le> SEND_QUEUE_BYTE_BUDGET"
  using ob_reachable_balance [OF assms] by (auto simp: ob_balance_def ob_queued_bytes_def)

theorem outbound_bounded_witness:
  "ob_queued_bytes (the (await_acquire (FBye []) (snd (try_queue outbound_channel (FBye []))))) = 2 * permits_for (FBye [])"
proof -
  define q where "q = snd (try_queue outbound_channel (FBye []))"
  have "queue_has_room outbound_channel (FBye [])"
    by (simp add: queue_has_room_def outbound_channel_def permits_for_def SEND_QUEUE_BOUND_def)
  then have q: "q = outbound_channel\<lparr>ob_queue := [OutFrame (FBye [])], ob_permits := SEND_QUEUE_BYTE_BUDGET - permits_for (FBye [])\<rparr>"
    by (simp add: q_def try_queue_sent outbound_channel_def)
  have "permits_for (FBye []) = FRAME_OVERHEAD"
    by (simp add: permits_for_def queued_bytes_def SEND_QUEUE_BYTE_BUDGET_def FRAME_OVERHEAD_def)
  then obtain q' where acq: "await_acquire (FBye []) q = Some q'" and queue: "ob_queue q' = [OutFrame (FBye [])]"
    by (auto simp: await_acquire_def q SEND_QUEUE_BYTE_BUDGET_def FRAME_OVERHEAD_def)
  have "ob_reachable (q, [])"
    by (rule ob_reachable.step [OF ob_reachable.fresh])
      (rule ob_step.queue_frame [where f = "FBye []" and r = "fst (try_queue outbound_channel (FBye []))"], simp add: q_def)
  then have "ob_reachable (q', [FBye []])"
    by (rule ob_reachable.step) (rule ob_step.acquire [OF acq])
  from outbound_bounded [OF this] show ?thesis
    by (simp add: acq queue flip: q_def)
qed

subsection \<open>A run that waits for room\<close>

lemma drain_queue: "drain n q = (t, q') \<Longrightarrow> ob_queue q = t @ ob_queue q'"
proof (induction n arbitrary: q t q')
  case (Suc n)
  then show ?case
    by (auto simp: try_recv_def ob_release_def split: list.splits prod.splits outbound_msg.splits dest!: Suc.IH)
qed simp

lemma drain_length: "drain n q = (t, q') \<Longrightarrow> length t = min n (length (ob_queue q))"
proof (induction n arbitrary: q t q')
  case (Suc n)
  then show ?case
    by (auto simp: try_recv_def ob_release_def split: list.splits prod.splits outbound_msg.splits dest!: Suc.IH)
qed simp

text \<open>Draining keeps the balance, also while a caller holds permits of its own.\<close>

lemma drain_balance:
  "drain n q = (t, q') \<Longrightarrow> ob_open q' = ob_open q \<and>
    ob_permits q' + sum_list (map msg_permits (ob_queue q')) = ob_permits q + sum_list (map msg_permits (ob_queue q))"
proof (induction n arbitrary: q t q')
  case (Suc n)
  then show ?case
    by (auto simp: try_recv_def ob_release_def split: list.splits prod.splits outbound_msg.splits dest!: Suc.IH)
qed simp

lemma drain_all:
  assumes "drain n q = (t, q')" "length (ob_queue q) \<le> n"
  shows "t = ob_queue q" "ob_queue q' = []"
  using drain_queue [OF assms(1)] drain_length [OF assms(1)] assms(2) by auto

lemma awaiting_step:
  assumes "ob_inv q" "queue_all_awaiting writer i q (f # fs) = (ok, t, q')"
  obtains (stuck) "ok = False" "t @ ob_queue q' = ob_queue q" "ob_inv q'"
    "\<not> (ob_open q \<and> length (ob_queue q) \<le> fst (writer i))"
  | (sent) ta tb q3 where "queue_all_awaiting writer (i + 1) q3 fs = (ok, tb, q')" "t = ta @ tb"
    "ta @ ob_queue q3 = ob_queue q @ [OutFrame f]" "ob_inv q3" "ob_open q3 = ob_open q"
proof -
  obtain t1 q1 where d1: "drain (fst (writer i)) q = (t1, q1)"
    by (cases "drain (fst (writer i)) q")
  let ?q = "q1\<lparr>ob_permits := ob_permits q1 - permits_for f\<rparr>"
  obtain t2 q2 where d2: "drain (snd (writer i)) ?q = (t2, q2)"
    by (cases "drain (snd (writer i)) ?q")
  note b1 = drain_queue [OF d1] drain_balance [OF d1]
  note b2 = drain_queue [OF d2] drain_balance [OF d2]
  have empty: "ob_queue q1 = []" "permits_for f \<le> ob_permits q1" if "length (ob_queue q) \<le> fst (writer i)"
    using drain_all [OF d1 that] b1(2) assms(1) by (simp_all add: ob_inv_def permits_for_def)
  show thesis
  proof (cases "ob_permits q1 < permits_for f")
    case True
    then have "ok = False" "t = t1" "q' = q1"
      using assms(2) d1 by (simp_all add: await_acquire_def)
    then show ?thesis
      using stuck b1 assms(1) empty True by (auto simp: ob_inv_def)
  next
    case False
    have queues: "ob_queue q = t1 @ t2 @ ob_queue q2"
      using b1(1) b2(1) by simp
    have balance: "ob_permits q2 + permits_for f + sum_list (map msg_permits (ob_queue q2)) = SEND_QUEUE_BYTE_BUDGET"
      using assms(1) b1(2) b2(2) False by (simp add: ob_inv_def) arith
    have opened: "ob_open q2 = ob_open q" and short: "length (ob_queue q2) \<le> SEND_QUEUE_BOUND"
      using b1 b2 assms(1) by (simp_all add: ob_inv_def)
    consider (no) r where "r \<noteq> Sent" "try_send q2 (OutFrame f) = (r, q2)"
        "\<not> (ob_open q2 \<and> length (ob_queue q2) < SEND_QUEUE_BOUND)"
      | (yes) "try_send q2 (OutFrame f) = (Sent, q2\<lparr>ob_queue := ob_queue q2 @ [OutFrame f]\<rparr>)"
        "length (ob_queue q2) < SEND_QUEUE_BOUND"
      by (rule try_send_cases [of q2 "OutFrame f"]) auto
    then show ?thesis
    proof cases
      case no
      then have "ok = False" "t = t1 @ t2" "q' = q2\<lparr>ob_permits := ob_permits q2 + permits_for f\<rparr>"
        using assms(2) d1 d2 False by (cases r; simp add: Let_def await_acquire_def await_slot_def await_drop_def)+
      moreover have "\<not> (ob_open q \<and> length (ob_queue q) \<le> fst (writer i))"
        using no(3) opened empty(1) b2(1) by (auto simp: SEND_QUEUE_BOUND_def)
      ultimately show ?thesis
        using stuck queues balance short by (simp add: ob_inv_def)
    next
      case yes
      let ?q3 = "q2\<lparr>ob_queue := ob_queue q2 @ [OutFrame f]\<rparr>"
      obtain tb where "queue_all_awaiting writer (i + 1) ?q3 fs = (ok, tb, q')" "t = (t1 @ t2) @ tb"
        using assms(2) d1 d2 False yes(1) by (auto simp: Let_def await_acquire_def await_slot_def split: prod.splits)
      then show ?thesis
        using queues balance opened yes(2) by (intro sent [of ?q3 tb "t1 @ t2"]) (auto simp: ob_inv_def)
    qed
  qed
qed

text \<open>A run queued by \<open>queue_all_awaiting\<close> keeps its order and loses nothing, whatever the writer
  does: what the writer took during the run followed by what is still queued is what was queued
  before followed by a prefix of the run, which is the whole run exactly when it reports success; and
  the balance of the queue holds again afterwards, on the paths that time out too.\<close>

theorem awaiting_keeps_order:
  assumes "ob_inv q" "queue_all_awaiting writer i q fs = (ok, t, q')"
  shows "ob_inv q' \<and> (\<exists>n\<le>length fs. t @ ob_queue q' = ob_queue q @ map OutFrame (take n fs) \<and> (ok \<longleftrightarrow> n = length fs))"
  using assms
proof (induction fs arbitrary: i q t)
  case (Cons f fs)
  from Cons.prems show ?case
  proof (cases rule: awaiting_step)
    case stuck
    then show ?thesis
      by (auto intro: exI [where x = 0])
  next
    case (sent ta tb q3)
    with Cons.IH [OF sent(4,1)] obtain n where "ob_inv q'" "n \<le> length fs"
      "tb @ ob_queue q' = ob_queue q3 @ map OutFrame (take n fs)" "ok \<longleftrightarrow> n = length fs"
      by blast
    moreover from this(3) have "t @ ob_queue q' = ob_queue q @ map OutFrame (take (Suc n) (f # fs))"
      using sent(2,3) by (metis append.assoc append_Cons append_Nil list.simps(9) take_Suc_Cons)
    ultimately show ?thesis
      by (intro conjI exI [where x = "Suc n"]) auto
  qed
qed auto

theorem awaiting_keeps_order_witness:
  "ob_inv (snd (snd (queue_all_awaiting (\<lambda>_. (1, 0)) 0 outbound_channel [FBye [], FBye []])))"
  using awaiting_keeps_order [of outbound_channel "\<lambda>_. (1, 0)" 0 "[FBye [], FBye []]"]
  by (cases "queue_all_awaiting (\<lambda>_. (1, 0)) 0 outbound_channel [FBye [], FBye []]")
    (simp add: ob_inv_def outbound_channel_def)

text \<open>C34. A run that may not be shortened is delivered however long it is: when the writer empties
  the channel during every wait, \<open>queue_all_awaiting\<close> queues all of it on an open connection, with
  no bound on the number of frames or on their bytes.\<close>

theorem awaiting_completes:
  assumes "ob_inv q" "ob_open q" "\<forall>i. SEND_QUEUE_BOUND \<le> fst (writer i)"
  shows "\<exists>t q'. queue_all_awaiting writer i q fs = (True, t, q') \<and> t @ ob_queue q' = ob_queue q @ map OutFrame fs"
  using assms(1,2)
proof (induction fs arbitrary: i q)
  case (Cons f fs)
  obtain ok t q' where run: "queue_all_awaiting writer i q (f # fs) = (ok, t, q')"
    by (metis prod.exhaust)
  from Cons.prems(1) run show ?case
  proof (cases rule: awaiting_step)
    case stuck
    moreover have "length (ob_queue q) \<le> fst (writer i)"
      using Cons.prems(1) assms(3) by (auto simp: ob_inv_def intro: order_trans)
    ultimately show ?thesis
      using Cons.prems(2) by simp
  next
    case (sent ta tb q3)
    then show ?thesis
      using Cons.IH [of q3 "i + 1"] Cons.prems(2) run by auto
  qed
qed simp

theorem awaiting_completes_witness:
  "fst (queue_all_awaiting (\<lambda>_. (256, 0)) 0 outbound_channel (replicate 1000 (FBye [])))"
  using awaiting_completes [of outbound_channel "\<lambda>_. (256, 0)" 0 "replicate 1000 (FBye [])"]
  by (auto simp: ob_inv_def outbound_channel_def SEND_QUEUE_BOUND_def)

end
