(* ===== verification/Database.thy ===== *)
theory Database
  imports Envelope
begin

text \<open>
  The tables of \<open>src/backend/wealdrelay/migrations\<close> the envelope path reads and writes: groups with
  their sequence counter, the envelope log with its constraints, and the per-workspace byte counter
  its triggers maintain. A \<open>bigint\<close> or \<open>smallint\<close> is an \<^typ>\<open>int\<close>; the casts of the code between it
  and the unsigned machine types are written out. \<open>Config\<close> here is the part of \<open>config::Config\<close> the
  storage path reads.
\<close>

subsection \<open>Signed integers\<close>

definition I64_MAX :: int where "I64_MAX = 2 ^ 63 - 1"
definition I64_MIN :: int where "I64_MIN = - (2 ^ 63)"

text \<open>\<open>x as i64\<close> and \<open>n as u64\<close> keep the bits.\<close>

definition as_i64 :: "u64 \<Rightarrow> int" where "as_i64 x = sint x"
definition as_u64 :: "int \<Rightarrow> u64" where "as_u64 n = word_of_int n"

text \<open>\<open>i64::try_from(x).unwrap_or(i64::MAX)\<close> and \<open>u64::try_from(n).unwrap_or_default()\<close>.\<close>

definition clamp_i64 :: "u64 \<Rightarrow> int" where
  "clamp_i64 x = (if uint x \<le> I64_MAX then uint x else I64_MAX)"

definition u64_or_zero :: "int \<Rightarrow> u64" where
  "u64_or_zero n = (if 0 \<le> n then word_of_int n else 0)"

definition i64_clip :: "int \<Rightarrow> int" where
  "i64_clip n = max I64_MIN (min I64_MAX n)"

definition i64_saturating_add :: "int \<Rightarrow> int \<Rightarrow> int" where
  "i64_saturating_add a b = i64_clip (a + b)"

definition i64_saturating_mul :: "int \<Rightarrow> int \<Rightarrow> int" where
  "i64_saturating_mul a b = i64_clip (a * b)"

lemma as_u64_as_i64 [simp]: "as_u64 (as_i64 x) = x"
  by (simp add: as_u64_def as_i64_def)

lemma as_i64_small: "uint x \<le> I64_MAX \<Longrightarrow> as_i64 x = uint x"
  by (simp add: as_i64_def I64_MAX_def sint_uint signed_take_bit_int_eq_self_iff order.trans [OF _ uint_nonnegative])

lemma u64_or_zero_uint [simp]: "u64_or_zero (uint x) = x"
  by (simp add: u64_or_zero_def)

lemma as_i64_large:
  assumes "I64_MAX < uint x"
  shows "as_i64 x < 0"
proof -
  have "2 ^ 63 \<le> uint x" "uint x < 2 * 2 ^ 63"
    using assms unsigned_less [of x, where ?'a = int] by (simp_all add: I64_MAX_def)
  then have "uint x div 2 ^ 63 = 1"
    by (intro int_div_pos_eq [where r = "uint x - 2 ^ 63"]) simp_all
  then have "bit (uint x) 63"
    by (simp add: bit_iff_odd)
  then show ?thesis
    by (simp add: as_i64_def sint_uint)
qed

lemma u64_or_zero_negative: "n < 0 \<Longrightarrow> u64_or_zero n = 0"
  by (simp add: u64_or_zero_def)

subsection \<open>Configuration\<close>

datatype limit = Unlimited | Of u64

datatype write_mode = WriteFull | WriteReadOnly

record storage_config =
  cfg_write_mode :: write_mode
  cfg_min_encryption :: min_encryption
  cfg_max_log_gb :: limit

subsection \<open>Tables\<close>

record group_row =
  gr_workspace :: string
  gr_next_seq :: int
  gr_frozen :: "string option"

record envelope_row =
  row_group :: bytes
  row_hash :: bytes
  row_v :: int
  row_enc :: int
  row_epoch :: int
  row_seq :: int
  row_ts :: int
  row_ct :: bytes

record db =
  db_groups :: "bytes \<rightharpoonup> group_row"
  db_envelopes :: "envelope_row list"
  db_used :: "string \<rightharpoonup> int"

text \<open>The check constraints of \<open>relay_envelope\<close>.\<close>

definition row_ok :: "envelope_row \<Rightarrow> bool" where
  "row_ok r \<longleftrightarrow> length (row_hash r) = 32 \<and> row_v r = 1 \<and> (row_enc r = 0 \<or> row_enc r = 1) \<and>
    length (row_ct r) \<le> 1048576 \<and> 1 \<le> row_seq r"

text \<open>The primary key \<open>(group_id, hash)\<close> and the unique index \<open>(group_id, seq)\<close>.\<close>

definition row_conflicts :: "envelope_row \<Rightarrow> envelope_row \<Rightarrow> bool" where
  "row_conflicts r s \<longleftrightarrow> row_group r = row_group s \<and> (row_hash r = row_hash s \<or> row_seq r = row_seq s)"

text \<open>The trigger \<open>relay_log_budget_charge\<close>, for one inserted row.\<close>

definition charge_used :: "db \<Rightarrow> bytes \<Rightarrow> int \<Rightarrow> db" where
  "charge_used d grp n =
    (case db_groups d grp of
       None \<Rightarrow> d
     | Some g \<Rightarrow> d\<lparr>db_used := (db_used d)(gr_workspace g \<mapsto> unwrap_or (db_used d (gr_workspace g)) 0 + n)\<rparr>)"

text \<open>\<open>insert ... on conflict do nothing\<close>: \<open>None\<close> when no row was affected. A row that fails a check
  or names no group is an error of the statement.\<close>

definition insert_envelope :: "db \<Rightarrow> envelope_row \<Rightarrow> string + db option" where
  "insert_envelope d r =
    (if \<not> row_ok r \<or> db_groups d (row_group r) = None then Inl ''constraint''
     else if \<exists>s\<in>set (db_envelopes d). row_conflicts r s then Inr None
     else Inr (Some (charge_used (d\<lparr>db_envelopes := db_envelopes d @ [r]\<rparr>) (row_group r) (int (length (row_ct r))))))"

text \<open>\<open>update relay_group set next_seq = next_seq + 1 ... returning next_seq - 1\<close>.\<close>

definition claim_seq :: "db \<Rightarrow> bytes \<Rightarrow> (int \<times> group_row \<times> db) option" where
  "claim_seq d grp =
    (case db_groups d grp of
       None \<Rightarrow> None
     | Some g \<Rightarrow>
       let g' = g\<lparr>gr_next_seq := gr_next_seq g + 1\<rparr> in
       Some (gr_next_seq g' - 1, g', d\<lparr>db_groups := (db_groups d)(grp \<mapsto> g')\<rparr>))"

subsection \<open>What the schema keeps true\<close>

text \<open>The sum \<open>log_budget::summed_bytes\<close> computes.\<close>

definition summed_bytes :: "db \<Rightarrow> string \<Rightarrow> int" where
  "summed_bytes d w =
    sum_list (map (\<lambda>r. int (length (row_ct r)))
      (filter (\<lambda>r. \<exists>g. db_groups d (row_group r) = Some g \<and> gr_workspace g = w) (db_envelopes d)))"

definition db_ok :: "db \<Rightarrow> bool" where
  "db_ok d \<longleftrightarrow>
    sorted_wrt (\<lambda>r s. \<not> row_conflicts r s) (db_envelopes d) \<and>
    (\<forall>r\<in>set (db_envelopes d). row_ok r \<and>
      (\<exists>g. db_groups d (row_group r) = Some g \<and> row_seq r < gr_next_seq g)) \<and>
    (\<forall>grp g. db_groups d grp = Some g \<longrightarrow> 1 \<le> gr_next_seq g)"

lemma row_conflicts_sym: "row_conflicts r s \<longleftrightarrow> row_conflicts s r"
  by (auto simp: row_conflicts_def)

lemma row_conflicts_simps [simp]:
  "db_envelopes (charge_used d grp n) = db_envelopes d"
  "db_groups (charge_used d grp n) = db_groups d"
  by (simp_all add: charge_used_def split: option.splits)

lemma claim_seq_Some:
  assumes "claim_seq d grp = Some (seq, g, d')"
  obtains g0 where "db_groups d grp = Some g0" "seq = gr_next_seq g0" "g = g0\<lparr>gr_next_seq := seq + 1\<rparr>"
    "d' = d\<lparr>db_groups := (db_groups d)(grp \<mapsto> g)\<rparr>"
  using assms by (auto simp: claim_seq_def Let_def split: option.splits)

end
