(* ===== verification/Accept.thy ===== *)
theory Accept
  imports Database
begin

text \<open>
  The accept path: \<open>src/backend/wealdrelay/src/accept.rs\<close> and the budget arithmetic of
  \<open>log_budget.rs\<close>. A statement of the database may fail, which ends the path with
  \<open>retry/backpressure\<close> and rolls the transaction back; \<open>faults\<close> says which ones do, and whether a
  commit that reports failure had taken effect; the text of a failure is left out. Other connections may write between the duplicate
  check and the transaction, and between the rollback and the second read: \<open>others\<close> and \<open>others'\<close>.
\<close>

subsection \<open>The log budget\<close>

definition BYTES_PER_GB :: int where "BYTES_PER_GB = 1000000000"

definition limit_bytes :: "storage_config \<Rightarrow> int option" where
  "limit_bytes c =
    (case cfg_max_log_gb c of Unlimited \<Rightarrow> None | Of gb \<Rightarrow> Some (i64_saturating_mul (as_i64 gb) BYTES_PER_GB))"

definition charge_of :: "bytes \<Rightarrow> int" where "charge_of ct = int (length ct)"

definition used_bytes :: "db \<Rightarrow> string \<Rightarrow> int" where
  "used_bytes d workspace = unwrap_or (db_used d workspace) 0"

definition over_budget :: "int \<Rightarrow> int \<Rightarrow> int option \<Rightarrow> bool" where
  "over_budget used charge lim =
    (case lim of None \<Rightarrow> False | Some l \<Rightarrow> i64_saturating_add used charge > l)"

definition limit_detail :: "int \<Rightarrow> bytes" where
  "limit_detail l = to_be_bytes 8 (as_u64 l)"

subsection \<open>The outcome of a SEND\<close>

datatype accepted = Stored u64 | Duplicate u64

fun accepted_seq :: "accepted \<Rightarrow> u64" where
  "accepted_seq (Stored s) = s"
| "accepted_seq (Duplicate s) = s"

datatype accept_error =
    AcceptEnvelope envelope_error
  | AcceptGroupUnknown
  | AcceptGroupFrozen
  | AcceptReadOnly
  | AcceptLogBudgetExhausted int
  | AcceptBackpressure

fun accept_error_code :: "accept_error \<Rightarrow> error_code" where
  "accept_error_code (AcceptEnvelope e) = envelope_error_code e"
| "accept_error_code AcceptGroupUnknown = GroupUnknown"
| "accept_error_code AcceptGroupFrozen = GroupFrozen"
| "accept_error_code AcceptReadOnly = ServiceReadOnly"
| "accept_error_code (AcceptLogBudgetExhausted _) = LogBudgetExhausted"
| "accept_error_code AcceptBackpressure = Backpressure"

definition accept_error_frame :: "accept_error \<Rightarrow> frame_error" where
  "accept_error_frame e =
    (case e of
       AcceptLogBudgetExhausted l \<Rightarrow> with_detail (limit_detail l) (new_error (accept_error_code e))
     | _ \<Rightarrow> new_error (accept_error_code e))"

definition floor_byte :: "min_encryption \<Rightarrow> u8" where
  "floor_byte f = (case f of MinNone \<Rightarrow> 0 | MinMls \<Rightarrow> 1)"

subsection \<open>Accepting one envelope\<close>

datatype db_call = DupRead | Begin | Claim | Insert | Rollback | Reread | BudgetRead | Commit

record faults =
  fl_fails :: "db_call \<Rightarrow> bool"
  fl_commit_applied :: bool

definition existing_seq :: "db \<Rightarrow> bytes \<Rightarrow> bytes \<Rightarrow> u64 option" where
  "existing_seq d grp hash =
    (case filter (\<lambda>r. row_group r = grp \<and> row_hash r = hash) (db_envelopes d) of
       [] \<Rightarrow> None | r # _ \<Rightarrow> Some (as_u64 (row_seq r)))"

definition new_row :: "envelope \<Rightarrow> int \<Rightarrow> u64 \<Rightarrow> envelope_row" where
  "new_row e seq now_ms =
    \<lparr>row_group = env_group e, row_hash = env_hash e, row_v = uint (env_v e),
     row_enc = uint (encryption_u64 (env_enc e)), row_epoch = as_i64 (env_epoch e), row_seq = seq,
     row_ts = as_i64 now_ms, row_ct = env_ct e\<rparr>"

text \<open>The budget check and the commit, on the state \<open>d2\<close> inside the transaction; \<open>d\<close> is the state
  the transaction began with.\<close>

definition commit_within_budget ::
    "faults \<Rightarrow> storage_config \<Rightarrow> group_row \<Rightarrow> int \<Rightarrow> db \<Rightarrow> db \<Rightarrow> db \<times> (accept_error + accepted)" where
  "commit_within_budget fl cfg g seq d d2 =
    (let commit =
       (if fl_fails fl Commit then (if fl_commit_applied fl then d2 else d, Inl AcceptBackpressure)
        else (d2, Inr (Stored (as_u64 seq)))) in
     case limit_bytes cfg of
       None \<Rightarrow> commit
     | Some l \<Rightarrow>
       if fl_fails fl BudgetRead then (d, Inl AcceptBackpressure)
       else if over_budget (used_bytes d2 (gr_workspace g)) 0 (Some l) then
         (if fl_fails fl Rollback then (d, Inl AcceptBackpressure) else (d, Inl (AcceptLogBudgetExhausted l)))
       else commit)"

definition accept_transaction ::
    "faults \<Rightarrow> (db \<Rightarrow> db) \<Rightarrow> storage_config \<Rightarrow> envelope \<Rightarrow> u64 \<Rightarrow> db \<Rightarrow> db \<times> (accept_error + accepted)" where
  "accept_transaction fl others' cfg e now_ms d =
    (if fl_fails fl Begin \<or> fl_fails fl Claim then (d, Inl AcceptBackpressure)
     else case claim_seq d (env_group e) of
       None \<Rightarrow> (d, Inl AcceptGroupUnknown)
     | Some (seq, g, d1) \<Rightarrow>
       if gr_frozen g \<noteq> None then (d, Inl AcceptGroupFrozen)
       else if fl_fails fl Insert then (d, Inl AcceptBackpressure)
       else case insert_envelope d1 (new_row e seq now_ms) of
         Inl _ \<Rightarrow> (d, Inl AcceptBackpressure)
       | Inr None \<Rightarrow>
         if fl_fails fl Rollback \<or> fl_fails fl Reread then (d, Inl AcceptBackpressure)
         else (others' d,
           Inr (Duplicate (unwrap_or (existing_seq (others' d) (env_group e) (env_hash e)) (as_u64 seq))))
       | Inr (Some d2) \<Rightarrow> commit_within_budget fl cfg g seq d d2)"

definition accept ::
    "(bytes \<Rightarrow> bytes) \<Rightarrow> faults \<Rightarrow> (db \<Rightarrow> db) \<Rightarrow> (db \<Rightarrow> db) \<Rightarrow> storage_config \<Rightarrow> envelope \<Rightarrow> u64 \<Rightarrow> db \<Rightarrow>
      db \<times> (accept_error + accepted)" where
  "accept blake3 fl others others' cfg e now_ms d =
    (if cfg_write_mode cfg = WriteReadOnly then (d, Inl AcceptReadOnly)
     else case envelope_validate blake3 (cfg_min_encryption cfg) e of
       Inl err \<Rightarrow> (d, Inl (AcceptEnvelope err))
     | Inr _ \<Rightarrow>
       if fl_fails fl DupRead then (d, Inl AcceptBackpressure)
       else case existing_seq d (env_group e) (env_hash e) of
         Some seq \<Rightarrow> (d, Inr (Duplicate seq))
       | None \<Rightarrow> accept_transaction fl others' cfg e now_ms (others d))"

subsection \<open>What a transaction does to the log\<close>

lemma existing_seq_None:
  "existing_seq d grp hash = None \<longleftrightarrow> (\<forall>r\<in>set (db_envelopes d). row_group r = grp \<longrightarrow> row_hash r \<noteq> hash)"
proof -
  have "existing_seq d grp hash = None \<longleftrightarrow>
      filter (\<lambda>r. row_group r = grp \<and> row_hash r = hash) (db_envelopes d) = []"
    by (simp add: existing_seq_def split: list.splits)
  then show ?thesis
    by (simp add: filter_empty_conv)
qed

text \<open>The primary key makes the row of a content address the only one.\<close>

lemma row_unique:
  assumes "db_ok d" "r \<in> set (db_envelopes d)" "s \<in> set (db_envelopes d)" "row_group r = row_group s"
    "row_hash r = row_hash s"
  shows "r = s"
proof -
  have "x = y \<or> \<not> row_conflicts x y"
    if "sorted_wrt (\<lambda>r s. \<not> row_conflicts r s) rows" "x \<in> set rows" "y \<in> set rows" for rows x y
    using that row_conflicts_sym by (induction rows) auto
  then show ?thesis
    using assms by (auto simp: db_ok_def row_conflicts_def)
qed

lemma rows_of_address:
  assumes "db_ok d" "r \<in> set (db_envelopes d)"
  obtains rows where "filter (\<lambda>s. row_group s = row_group r \<and> row_hash s = row_hash r) (db_envelopes d) = r # rows"
proof (cases "filter (\<lambda>s. row_group s = row_group r \<and> row_hash s = row_hash r) (db_envelopes d)")
  case Nil
  then show ?thesis
    using assms(2) by (auto simp: filter_empty_conv)
next
  case (Cons s rows)
  then have "s \<in> set (filter (\<lambda>s. row_group s = row_group r \<and> row_hash s = row_hash r) (db_envelopes d))"
    by simp
  then have "s = r"
    using row_unique [OF assms(1), of s r] assms(2) by simp
  then show ?thesis
    using Cons that by simp
qed

lemma existing_seq_row:
  assumes "db_ok d" "r \<in> set (db_envelopes d)"
  shows "existing_seq d (row_group r) (row_hash r) = Some (as_u64 (row_seq r))"
  using assms by (rule rows_of_address) (simp add: existing_seq_def)

lemma insert_claimed:
  assumes "db_ok d" "claim_seq d grp = Some (seq, g, d1)" "row_group r = grp" "row_seq r = seq"
  shows "insert_envelope d1 r = Inr None \<Longrightarrow> \<exists>s\<in>set (db_envelopes d). row_group s = grp \<and> row_hash s = row_hash r"
    and "insert_envelope d1 r = Inr (Some d2) \<Longrightarrow> db_envelopes d2 = db_envelopes d @ [r]"
    and "insert_envelope d1 r = Inr (Some d2) \<Longrightarrow> db_ok d2"
proof -
  from assms(2) obtain g0 where g0: "db_groups d grp = Some g0" "seq = gr_next_seq g0"
    "g = g0\<lparr>gr_next_seq := seq + 1\<rparr>" "d1 = d\<lparr>db_groups := (db_groups d)(grp \<mapsto> g)\<rparr>"
    by (rule claim_seq_Some)
  have below: "row_seq s < seq" if "s \<in> set (db_envelopes d)" "row_group s = grp" for s
    using assms(1) that g0(1,2) by (auto simp: db_ok_def)
  show "\<exists>s\<in>set (db_envelopes d). row_group s = grp \<and> row_hash s = row_hash r" if "insert_envelope d1 r = Inr None"
    using that assms(3,4) below g0(4) by (fastforce simp: insert_envelope_def row_conflicts_def split: if_splits)
  assume ins: "insert_envelope d1 r = Inr (Some d2)"
  then have d2: "d2 = charge_used (d1\<lparr>db_envelopes := db_envelopes d1 @ [r]\<rparr>) grp (int (length (row_ct r)))"
    and ok: "row_ok r" and free: "\<forall>s\<in>set (db_envelopes d). \<not> row_conflicts r s"
    using assms(3) g0(4) by (auto simp: insert_envelope_def split: if_splits)
  show envs: "db_envelopes d2 = db_envelopes d @ [r]"
    using d2 g0(4) by simp
  have groups: "db_groups d2 = (db_groups d)(grp \<mapsto> g)"
    using d2 g0(4) by simp
  show "db_ok d2"
    unfolding db_ok_def envs groups
  proof (intro conjI ballI allI impI)
    show "sorted_wrt (\<lambda>r s. \<not> row_conflicts r s) (db_envelopes d @ [r])"
      using assms(1) free row_conflicts_sym by (auto simp: db_ok_def sorted_wrt_append)
  next
    fix x
    assume "x \<in> set (db_envelopes d @ [r])"
    then show "row_ok x" "\<exists>ga. ((db_groups d)(grp \<mapsto> g)) (row_group x) = Some ga \<and> row_seq x < gr_next_seq ga"
      using assms(1,3,4) ok g0 below by (fastforce simp: db_ok_def)+
  next
    fix h ga
    assume "((db_groups d)(grp \<mapsto> g)) h = Some ga"
    then show "1 \<le> gr_next_seq ga"
      using assms(1) g0 by (fastforce simp: db_ok_def split: if_splits)
  qed
qed

text \<open>The three ways a transaction ends: the envelope is stored, another connection had stored it, or
  nothing was written, a commit reported lost apart.\<close>

definition tx_outcome :: "faults \<Rightarrow> envelope \<Rightarrow> u64 \<Rightarrow> db \<Rightarrow> db \<Rightarrow> db \<Rightarrow> accept_error + accepted \<Rightarrow> bool" where
  "tx_outcome fl e now_ms d dx d' res \<longleftrightarrow>
    (case res of
       Inr (Stored s) \<Rightarrow> \<exists>g. db_groups d (env_group e) = Some g \<and> gr_frozen g = None \<and>
         s = as_u64 (gr_next_seq g) \<and> db_envelopes d' = db_envelopes d @ [new_row e (gr_next_seq g) now_ms]
     | Inr (Duplicate s) \<Rightarrow> d' = dx \<and> existing_seq d' (env_group e) (env_hash e) = Some s
     | Inl err \<Rightarrow> d' = d \<or> (err = AcceptBackpressure \<and> fl_fails fl Commit \<and> fl_commit_applied fl))"

lemma commit_outcome:
  assumes "commit_within_budget fl cfg g seq d d2 = (d', res)"
  shows "(res = Inr (Stored (as_u64 seq)) \<and> d' = d2) \<or>
    (\<exists>err. res = Inl err \<and> (d' = d \<or> (d' = d2 \<and> err = AcceptBackpressure \<and> fl_fails fl Commit \<and> fl_commit_applied fl)))"
  using assms by (auto simp: commit_within_budget_def Let_def split: option.splits if_splits)

lemma accept_transaction_outcome:
  assumes "db_ok d" "db_ok (others' d)" "set (db_envelopes d) \<subseteq> set (db_envelopes (others' d))"
    "accept_transaction fl others' cfg e now_ms d = (d', res)"
  shows "db_ok d' \<and> tx_outcome fl e now_ms d (others' d) d' res"
proof (cases "\<exists>err. res = Inl err \<and> d' = d")
  case True
  then show ?thesis
    using assms(1) by (auto simp: tx_outcome_def)
next
  case False
  then obtain seq g d1 where claim: "claim_seq d (env_group e) = Some (seq, g, d1)"
    using assms(4) by (auto simp: accept_transaction_def split: if_splits option.splits)
  have frozen: "gr_frozen g = None"
    using assms(4) False claim by (auto simp: accept_transaction_def split: if_splits)
  let ?r = "new_row e seq now_ms"
  have r: "row_group ?r = env_group e" "row_seq ?r = seq" "row_hash ?r = env_hash e"
    by (simp_all add: new_row_def)
  obtain g0 where g0: "db_groups d (env_group e) = Some g0" "seq = gr_next_seq g0" "gr_frozen g0 = None"
    using claim frozen by (auto elim!: claim_seq_Some)
  show ?thesis
  proof (cases "insert_envelope d1 ?r")
    case (Inl x)
    then show ?thesis
      using assms(4) False claim frozen by (auto simp: accept_transaction_def split: if_splits)
  next
    case (Inr o2)
    show ?thesis
    proof (cases o2)
      case None
      from insert_claimed(1) [OF assms(1) claim r(1,2)] obtain row where
        row: "row \<in> set (db_envelopes (others' d))" "row_group row = env_group e" "row_hash row = env_hash e"
        using assms(3) Inr None r(3) by auto
      have "existing_seq (others' d) (env_group e) (env_hash e) = Some (as_u64 (row_seq row))"
        using existing_seq_row [OF assms(2) row(1)] row(2,3) by simp
      moreover have "d' = others' d" "res = Inr (Duplicate (unwrap_or (existing_seq (others' d) (env_group e) (env_hash e)) (as_u64 seq)))"
        using assms(4) False claim frozen Inr None by (auto simp: accept_transaction_def split: if_splits)
      ultimately show ?thesis
        using assms(2) by (simp add: tx_outcome_def)
    next
      case (Some d2)
      note d2 = insert_claimed(2,3) [OF assms(1) claim r(1,2), of d2]
      have "commit_within_budget fl cfg g seq d d2 = (d', res)"
        using assms(4) False claim frozen Inr Some by (auto simp: accept_transaction_def split: if_splits)
      from commit_outcome [OF this] show ?thesis
        using d2 Inr Some g0 assms(1) by (auto simp: tx_outcome_def)
    qed
  qed
qed

text \<open>What other connections may do meanwhile: the tables stay consistent and no row goes away.\<close>

definition others_ok :: "(db \<Rightarrow> db) \<Rightarrow> db \<Rightarrow> bool" where
  "others_ok others d \<longleftrightarrow> db_ok (others d) \<and> set (db_envelopes d) \<subseteq> set (db_envelopes (others d))"

lemma accept_split:
  assumes "accept blake3 fl others others' cfg e now_ms d = (d', res)"
  obtains (early) err where "res = Inl err" "d' = d"
  | (duplicate) s where "res = Inr (Duplicate s)" "d' = d" "existing_seq d (env_group e) (env_hash e) = Some s"
  | (transaction) "accept_transaction fl others' cfg e now_ms (others d) = (d', res)"
    "existing_seq d (env_group e) (env_hash e) = None"
  using assms by (auto simp: accept_def split: if_splits sum.splits option.splits)

lemma accept_outcome_lemma:
  assumes "db_ok d" "others_ok others d" "others_ok others' (others d)"
    "accept blake3 fl others others' cfg e now_ms d = (d', res)"
  shows "db_ok d' \<and>
    (case res of
       Inr (Stored s) \<Rightarrow> existing_seq d' (env_group e) (env_hash e) = Some s \<and>
         (\<exists>g. db_groups (others d) (env_group e) = Some g \<and> gr_frozen g = None \<and> s = as_u64 (gr_next_seq g) \<and>
           db_envelopes d' = db_envelopes (others d) @ [new_row e (gr_next_seq g) now_ms] \<and>
           (\<forall>r\<in>set (db_envelopes (others d)). row_group r = env_group e \<longrightarrow> row_seq r < gr_next_seq g))
     | Inr (Duplicate s) \<Rightarrow> existing_seq d' (env_group e) (env_hash e) = Some s \<and> (d' = d \<or> d' = others' (others d))
     | Inl err \<Rightarrow> d' = d \<or> d' = others d \<or>
         (err = AcceptBackpressure \<and> fl_fails fl Commit \<and> fl_commit_applied fl))"
  using assms(4)
proof (cases rule: accept_split)
  case transaction
  have t: "db_ok d'" "tx_outcome fl e now_ms (others d) (others' (others d)) d' res"
    using accept_transaction_outcome [OF _ _ _ transaction(1)] assms(2,3) by (simp_all add: others_ok_def)
  have below: "row_seq r < gr_next_seq g"
    if "db_groups (others d) (env_group e) = Some g" "r \<in> set (db_envelopes (others d))" "row_group r = env_group e" for g r
    using that assms(2) by (auto simp: others_ok_def db_ok_def)
  have stored: "existing_seq d' (env_group e) (env_hash e) = Some (as_u64 n)"
    if "db_envelopes d' = rows @ [new_row e n now_ms]" for rows n
    using existing_seq_row [OF t(1), of "new_row e n now_ms"] that by (simp add: new_row_def)
  show ?thesis
    using t below stored by (auto simp: tx_outcome_def split: sum.splits accepted.splits)
qed (use assms(1) in auto)

text \<open>C2. Accepting an envelope keeps the log consistent: after any SEND, with any statement of the
  database failing and other connections writing in between, no two envelopes of a group share a
  content address or a sequence number and every sequence number is below the group's counter.
  An acknowledged envelope is in the log: stored, it is appended once under a number larger than
  every earlier one of its group, which exists and is not frozen; a duplicate is answered with the
  number the log holds for it. A refusal leaves the log as the other connections left it, except
  when a commit that took effect was reported lost.\<close>

theorem accept_outcome:
  assumes "db_ok d" "others_ok others d" "others_ok others' (others d)"
    "accept blake3 fl others others' cfg e now_ms d = (d', res)"
  shows "db_ok d' \<and>
    (case res of
       Inr (Stored s) \<Rightarrow> existing_seq d' (env_group e) (env_hash e) = Some s \<and>
         (\<exists>g. db_groups (others d) (env_group e) = Some g \<and> gr_frozen g = None \<and> s = as_u64 (gr_next_seq g) \<and>
           db_envelopes d' = db_envelopes (others d) @ [new_row e (gr_next_seq g) now_ms] \<and>
           (\<forall>r\<in>set (db_envelopes (others d)). row_group r = env_group e \<longrightarrow> row_seq r < gr_next_seq g))
     | Inr (Duplicate s) \<Rightarrow> existing_seq d' (env_group e) (env_hash e) = Some s \<and> (d' = d \<or> d' = others' (others d))
     | Inl err \<Rightarrow> d' = d \<or> d' = others d \<or>
         (err = AcceptBackpressure \<and> fl_fails fl Commit \<and> fl_commit_applied fl))"
  by (rule accept_outcome_lemma [OF assms])

text \<open>A relay with one open group and nothing stored, and the envelope a device sends it.\<close>

definition no_faults :: faults where
  "no_faults = \<lparr>fl_fails = \<lambda>_. False, fl_commit_applied = False\<rparr>"

definition fresh_db :: db where
  "fresh_db = \<lparr>db_groups = [replicate 32 9 \<mapsto> \<lparr>gr_workspace = ''w'', gr_next_seq = 1, gr_frozen = None\<rparr>],
    db_envelopes = [], db_used = Map.empty\<rparr>"

definition open_config :: storage_config where
  "open_config = \<lparr>cfg_write_mode = WriteFull, cfg_min_encryption = MinNone, cfg_max_log_gb = Of 1\<rparr>"

definition const_hash :: "bytes \<Rightarrow> bytes" where
  "const_hash x = replicate 32 5"

definition first_envelope :: "u64 \<Rightarrow> envelope" where
  "first_envelope epoch = \<lparr>env_v = 1, env_enc = EncMls, env_group = replicate 32 9, env_epoch = epoch, env_seq = 0,
    env_ts = 0, env_hash = replicate 32 5, env_ct = [1, 2, 3]\<rparr>"

lemma fresh_db_ok: "db_ok fresh_db" "others_ok (\<lambda>d. d) fresh_db"
  by (auto simp: db_ok_def others_ok_def fresh_db_def)

lemmas accept_eval =
  accept_def accept_transaction_def commit_within_budget_def open_config_def no_faults_def
  existing_seq_def fresh_db_def claim_seq_def insert_envelope_def new_row_def row_ok_def
  limit_bytes_def as_i64_def over_budget_def used_bytes_def charge_used_def i64_saturating_mul_def
  i64_saturating_add_def i64_clip_def I64_MAX_def I64_MIN_def BYTES_PER_GB_def as_u64_def Let_def

lemma first_envelope_validates: "envelope_validate const_hash MinNone (first_envelope epoch) = Inr ()"
  by (simp add: envelope_validate_def first_envelope_def VERSION_def MAX_CIPHERTEXT_BYTES_def computed_hash_def
      content_hash_def const_hash_def)

lemma first_envelope_accepted:
  "snd (accept const_hash no_faults (\<lambda>d. d) (\<lambda>d. d) open_config (first_envelope epoch) 1000 fresh_db) = Inr (Stored 1)"
  "used_bytes (fst (accept const_hash no_faults (\<lambda>d. d) (\<lambda>d. d) open_config (first_envelope epoch) 1000 fresh_db)) ''w'' = 3"
  using first_envelope_validates [of epoch] by (simp_all add: accept_eval first_envelope_def)

theorem accept_outcome_witness:
  "existing_seq (fst (accept const_hash no_faults (\<lambda>d. d) (\<lambda>d. d) open_config (first_envelope 3) 1000 fresh_db))
    (replicate 32 9) (replicate 32 5) = Some 1"
proof -
  obtain d' where d': "accept const_hash no_faults (\<lambda>d. d) (\<lambda>d. d) open_config (first_envelope 3) 1000 fresh_db = (d', Inr (Stored 1))"
    using first_envelope_accepted(1) by (metis prod.collapse)
  from accept_outcome [OF fresh_db_ok(1,2) fresh_db_ok(2) d'] show ?thesis
    by (simp add: d') (simp add: first_envelope_def)
qed

text \<open>C31. A retry is always safe: once a SEND was acknowledged, sending the same envelope again is
  answered as a duplicate with the same sequence number and changes nothing, at any later time and
  whatever else the database would fail at, as long as the first read of the log succeeds.\<close>

theorem accept_retry_idempotent:
  assumes "db_ok d" "others_ok others d" "others_ok others' (others d)"
    "accept blake3 fl others others' cfg e now_ms d = (d', Inr r)" "\<not> fl_fails fl2 DupRead"
  shows "accept blake3 fl2 o2 o2' cfg e later_ms d' = (d', Inr (Duplicate (accepted_seq r)))"
proof -
  have ok: "cfg_write_mode cfg \<noteq> WriteReadOnly" "envelope_validate blake3 (cfg_min_encryption cfg) e = Inr ()"
    using assms(4) by (auto simp: accept_def split: if_splits sum.splits)
  have "existing_seq d' (env_group e) (env_hash e) = Some (accepted_seq r)"
    using accept_outcome_lemma [OF assms(1-4)] by (cases r) simp_all
  then show ?thesis
    using ok assms(5) by (simp add: accept_def)
qed

theorem accept_retry_idempotent_witness:
  "snd (accept const_hash no_faults id id open_config (first_envelope 3) 2000
     (fst (accept const_hash no_faults (\<lambda>d. d) (\<lambda>d. d) open_config (first_envelope 3) 1000 fresh_db))) = Inr (Duplicate 1)"
proof -
  obtain d' where d': "accept const_hash no_faults (\<lambda>d. d) (\<lambda>d. d) open_config (first_envelope 3) 1000 fresh_db = (d', Inr (Stored 1))"
    using first_envelope_accepted(1) by (metis prod.collapse)
  from accept_retry_idempotent [OF fresh_db_ok(1,2) fresh_db_ok(2) d', of no_faults id id 2000] show ?thesis
    by (simp add: d') (simp add: no_faults_def)
qed

subsection \<open>The budget\<close>

lemma insert_counters:
  assumes "claim_seq d grp = Some (seq, g, d1)" "row_group r = grp" "insert_envelope d1 r = Inr (Some d2)"
  shows "used_bytes d2 w = used_bytes d w + (if w = gr_workspace g then charge_of (row_ct r) else 0)"
    and "summed_bytes d2 w = summed_bytes d w + (if w = gr_workspace g then charge_of (row_ct r) else 0)"
proof -
  from assms(1) obtain g0 where g0: "db_groups d grp = Some g0" "g = g0\<lparr>gr_next_seq := seq + 1\<rparr>"
    "d1 = d\<lparr>db_groups := (db_groups d)(grp \<mapsto> g)\<rparr>"
    by (rule claim_seq_Some) auto
  have d2: "d2 = charge_used (d1\<lparr>db_envelopes := db_envelopes d1 @ [r]\<rparr>) grp (int (length (row_ct r)))"
    using assms(2,3) by (auto simp: insert_envelope_def split: if_splits)
  show "used_bytes d2 w = used_bytes d w + (if w = gr_workspace g then charge_of (row_ct r) else 0)"
    using d2 g0(3) by (simp add: used_bytes_def charge_used_def charge_of_def)
  have rows: "db_envelopes d2 = db_envelopes d @ [r]"
    using d2 g0(3) by simp
  have in_w: "(\<lambda>x. \<exists>ga. db_groups d2 (row_group x) = Some ga \<and> gr_workspace ga = w) =
      (\<lambda>x. \<exists>ga. db_groups d (row_group x) = Some ga \<and> gr_workspace ga = w)"
    using d2 g0 by auto
  show "summed_bytes d2 w = summed_bytes d w + (if w = gr_workspace g then charge_of (row_ct r) else 0)"
    unfolding summed_bytes_def rows in_w using g0 assms(2) by (simp add: charge_of_def)
qed

text \<open>C39. The log budget is exact: when a workspace has a limit, an envelope is stored only if the
  workspace's counter is within it with that envelope counted, the counter grows by the ciphertext's
  length and no other workspace's moves, and it stays in step with the sum over the rows. \<open>bigint\<close>
  bounds the counter.\<close>

theorem accept_within_budget:
  assumes "accept blake3 fl others others' cfg e now_ms d = (d', Inr (Stored s))"
    "db_groups (others d) (env_group e) = Some g" "used_bytes d' (gr_workspace g) \<le> I64_MAX"
  shows "(\<forall>l. limit_bytes cfg = Some l \<longrightarrow> used_bytes d' (gr_workspace g) \<le> l) \<and>
    (\<forall>w. used_bytes d' w = used_bytes (others d) w + (if w = gr_workspace g then charge_of (env_ct e) else 0)) \<and>
    (\<forall>w. used_bytes d' w - summed_bytes d' w = used_bytes (others d) w - summed_bytes (others d) w)"
  using assms(1)
proof (cases rule: accept_split)
  case transaction
  then obtain seq g1 d1 d2 where claim: "claim_seq (others d) (env_group e) = Some (seq, g1, d1)"
    and ins: "insert_envelope d1 (new_row e seq now_ms) = Inr (Some d2)"
    and com: "commit_within_budget fl cfg g1 seq (others d) d2 = (d', Inr (Stored s))"
    by (auto simp: accept_transaction_def split: if_splits option.splits sum.splits)
  have d': "d' = d2" and lim: "\<forall>l. limit_bytes cfg = Some l \<longrightarrow> \<not> over_budget (used_bytes d2 (gr_workspace g1)) 0 (Some l)"
    using com by (auto simp: commit_within_budget_def Let_def split: option.splits if_splits)
  have g1: "gr_workspace g1 = gr_workspace g"
    using claim assms(2) by (auto elim!: claim_seq_Some)
  have r: "row_group (new_row e seq now_ms) = env_group e" "row_ct (new_row e seq now_ms) = env_ct e"
    by (simp_all add: new_row_def)
  note counters = insert_counters [OF claim r(1) ins, unfolded g1 r(2)]
  have "used_bytes d' (gr_workspace g) \<le> l" if "limit_bytes cfg = Some l" for l
    using lim that assms(3) d' g1 by (auto simp: over_budget_def i64_saturating_add_def i64_clip_def)
  then show ?thesis
    using counters d' by simp
qed simp_all

theorem accept_within_budget_witness:
  "used_bytes (fst (accept const_hash no_faults (\<lambda>d. d) (\<lambda>d. d) open_config (first_envelope 3) 1000 fresh_db)) ''w'' = 3"
proof -
  obtain d' where d': "accept const_hash no_faults (\<lambda>d. d) (\<lambda>d. d) open_config (first_envelope 3) 1000 fresh_db = (d', Inr (Stored 1))"
    using first_envelope_accepted(1) by (metis prod.collapse)
  define g where "g = \<lparr>gr_workspace = ''w'', gr_next_seq = 1, gr_frozen = None\<rparr>"
  have g: "db_groups fresh_db (env_group (first_envelope 3)) = Some g" "gr_workspace g = ''w''"
    by (simp_all add: fresh_db_def first_envelope_def g_def)
  have "used_bytes d' (gr_workspace g) \<le> I64_MAX"
    using first_envelope_accepted(2) [of 3] g(2) by (simp add: d' I64_MAX_def)
  from accept_within_budget [OF d' g(1) this] show ?thesis
    using g(2) by (simp add: d' charge_of_def) (simp add: used_bytes_def fresh_db_def first_envelope_def)
qed

end
