(* ===== verification/Log.thy ===== *)
theory Log
  imports Accept Reconcile
begin

text \<open>
  Reading the envelope log back, \<open>src/backend/wealdrelay/src/log.rs\<close>: the window of items a
  reconciliation round works on, the envelopes named by content address, and the backfill of a
  subscription. A query is what it selects: the rows that match, in the order the statement asks for.
\<close>

definition MAX_ITEMS_PER_RECONCILE :: nat where "MAX_ITEMS_PER_RECONCILE = 100000"
definition MAX_BACKFILL :: nat where "MAX_BACKFILL = 4096"

definition row_to_item :: "envelope_row \<Rightarrow> item" where
  "row_to_item r = \<lparr>it_seq = u64_or_zero (row_seq r), it_id = id_from_slice (row_hash r)\<rparr>"

text \<open>\<open>where group_id = $1 and seq >= $2 order by seq asc\<close>.\<close>

definition rows_from :: "db \<Rightarrow> bytes \<Rightarrow> u64 \<Rightarrow> envelope_row list" where
  "rows_from d grp from_seq =
    sort_key row_seq (filter (\<lambda>r. row_group r = grp \<and> clamp_i64 from_seq \<le> row_seq r) (db_envelopes d))"

definition log_items :: "db \<Rightarrow> bytes \<Rightarrow> u64 \<Rightarrow> item list" where
  "log_items d grp from_seq = map row_to_item (take MAX_ITEMS_PER_RECONCILE (rows_from d grp from_seq))"

definition encode_row :: "envelope_row \<Rightarrow> bytes \<Rightarrow> bytes \<Rightarrow> bytes" where
  "encode_row r grp hash = envelope_encode
    \<lparr>env_v = (if 0 \<le> row_v r \<and> row_v r < 256 then word_of_int (row_v r) else VERSION),
     env_enc = unwrap_or
       (encryption_from_u8 (if 0 \<le> row_enc r \<and> row_enc r < 256 then word_of_int (row_enc r) else 0)) EncNone,
     env_group = grp, env_epoch = u64_or_zero (row_epoch r), env_seq = u64_or_zero (row_seq r),
     env_ts = u64_or_zero (row_ts r), env_hash = hash, env_ct = row_ct r\<rparr>"

definition envelope_bytes :: "db \<Rightarrow> bytes \<Rightarrow> bytes \<Rightarrow> bytes option" where
  "envelope_bytes d grp hash =
    (case filter (\<lambda>r. row_group r = grp \<and> row_hash r = hash) (db_envelopes d) of
       [] \<Rightarrow> None | r # _ \<Rightarrow> Some (encode_row r grp hash))"

text \<open>The map of what was found, emptied id by id in the caller's order.\<close>

fun take_found :: "(id \<rightharpoonup> bytes) \<Rightarrow> id list \<Rightarrow> (id \<times> bytes) list" where
  "take_found found [] = []"
| "take_found found (i # ids) =
    (case found i of
       None \<Rightarrow> take_found found ids
     | Some b \<Rightarrow> (i, b) # take_found (found(i := None)) ids)"

definition envelopes_for :: "db \<Rightarrow> bytes \<Rightarrow> id list \<Rightarrow> (id \<times> bytes) list" where
  "envelopes_for d grp ids =
    (if ids = [] then []
     else
       let rows = filter (\<lambda>r. row_group r = grp \<and> row_hash r \<in> set ids) (db_envelopes d);
           found = fold (\<lambda>r m. m(id_from_slice (row_hash r) \<mapsto> encode_row r grp (row_hash r))) rows Map.empty in
       take_found found ids)"

text \<open>\<open>usize::saturating_add\<close>.\<close>

definition usize_add :: "nat \<Rightarrow> nat \<Rightarrow> nat" where
  "usize_add a b = min (a + b) (2 ^ 64 - 1)"

fun since_loop :: "nat \<Rightarrow> nat \<Rightarrow> bytes list \<Rightarrow> bytes list" where
  "since_loop max_bytes spent [] = []"
| "since_loop max_bytes spent (b # rows) =
    (let spent' = usize_add spent (length b) in
     b # (if spent' > max_bytes then [] else since_loop max_bytes spent' rows))"

definition since :: "db \<Rightarrow> bytes \<Rightarrow> u64 \<Rightarrow> nat \<Rightarrow> nat \<Rightarrow> bytes list" where
  "since d grp from_seq max_rows max_bytes =
    (let lim = min (if max_rows < 2 ^ 63 then max_rows else MAX_BACKFILL) MAX_BACKFILL in
     if lim = 0 then []
     else since_loop max_bytes 0
       (map (\<lambda>r. encode_row r grp (row_hash r)) (take lim (rows_from d grp from_seq))))"

subsection \<open>An accepted envelope reads back\<close>

lemma encode_new_row:
  assumes "row_ok (new_row e seq now_ms)"
  shows "encode_row (new_row e seq now_ms) (env_group e) (env_hash e) =
    envelope_encode (e\<lparr>env_epoch := u64_or_zero (as_i64 (env_epoch e)), env_seq := u64_or_zero seq,
      env_ts := u64_or_zero (as_i64 now_ms)\<rparr>)"
proof -
  have v: "env_v e = 1"
    using assms by (simp add: row_ok_def new_row_def word_uint_eq_iff)
  moreover have "unwrap_or (encryption_from_u8 (word_of_int (uint (encryption_u64 (env_enc e))))) EncNone = env_enc e"
    by (cases "env_enc e") (simp_all add: encryption_from_u8_def)
  moreover have "0 \<le> uint (encryption_u64 (env_enc e)) \<and> uint (encryption_u64 (env_enc e)) < 256"
    by (cases "env_enc e") simp_all
  ultimately show ?thesis
    by (cases e) (simp add: encode_row_def new_row_def)
qed

lemma envelope_bytes_row:
  assumes "db_ok d" "r \<in> set (db_envelopes d)"
  shows "envelope_bytes d (row_group r) (row_hash r) = Some (encode_row r (row_group r) (row_hash r))"
  using assms by (rule rows_of_address) (simp add: envelope_bytes_def)

lemma stored_bytes:
  assumes "db_ok d" "others_ok others d" "others_ok others' (others d)"
    "accept blake3 fl others others' cfg e now_ms d = (d', Inr (Stored s))"
  shows "envelope_bytes d' (env_group e) (env_hash e) = Some (envelope_encode
    (e\<lparr>env_epoch := u64_or_zero (as_i64 (env_epoch e)), env_seq := s, env_ts := u64_or_zero (as_i64 now_ms)\<rparr>))"
proof -
  from accept_outcome_lemma [OF assms] obtain n where d': "db_ok d'" and s: "s = as_u64 n"
    and rows: "new_row e n now_ms \<in> set (db_envelopes d')"
    by auto
  have ok: "row_ok (new_row e n now_ms)"
    using d' rows by (simp add: db_ok_def)
  then have "u64_or_zero n = s"
    by (simp add: row_ok_def new_row_def u64_or_zero_def s as_u64_def)
  then show ?thesis
    using envelope_bytes_row [OF d' rows] encode_new_row [OF ok] by (simp add: new_row_def)
qed

text \<open>C32. What the log gives back is what was sent: an envelope that was decoded from the wire and
  stored reads back as bytes that decode to it with the relay's sequence number and clock in it, and
  that still pass every check a receiver makes, the content address included. The epoch and the
  clock must be in the range of a signed column.\<close>

theorem stored_envelope_reads_back:
  assumes "db_ok d" "others_ok others d" "others_ok others' (others d)"
    "accept blake3 fl others others' cfg e now_ms d = (d', Inr (Stored s))"
    "envelope_decode raw = Inr e" "uint (env_epoch e) \<le> I64_MAX" "uint now_ms \<le> I64_MAX"
  shows "\<exists>bs. envelope_bytes d' (env_group e) (env_hash e) = Some bs \<and>
    envelope_decode bs = Inr (e\<lparr>env_seq := s, env_ts := now_ms\<rparr>) \<and>
    envelope_validate blake3 (cfg_min_encryption cfg) (e\<lparr>env_seq := s, env_ts := now_ms\<rparr>) = Inr ()"
proof -
  have "envelope_validate blake3 (cfg_min_encryption cfg) e = Inr ()"
    using assms(4) by (auto simp: accept_def split: if_splits sum.splits)
  then have "envelope_validate blake3 (cfg_min_encryption cfg) (e\<lparr>env_seq := s, env_ts := now_ms\<rparr>) = Inr ()"
    by (simp add: envelope_validate_Inr computed_hash_def)
  moreover have "envelope_wf (e\<lparr>env_seq := s, env_ts := now_ms\<rparr>)"
    using env.dec_sound [OF assms(5)] by (simp add: envelope_wf_def)
  moreover have "envelope_bytes d' (env_group e) (env_hash e) = Some (envelope_encode (e\<lparr>env_seq := s, env_ts := now_ms\<rparr>))"
    using stored_bytes [OF assms(1-4)] assms(6,7) by (simp add: as_i64_small)
  ultimately show ?thesis
    by (simp add: env.dec_iff)
qed

lemma first_stored:
  obtains d' where
    "accept const_hash no_faults (\<lambda>d. d) (\<lambda>d. d) open_config (first_envelope epoch) 1000 fresh_db = (d', Inr (Stored 1))"
  using first_envelope_accepted(1) [of epoch] by (metis prod.collapse)

lemma first_envelope_decodes: "envelope_decode (envelope_encode (first_envelope epoch)) = Inr (first_envelope epoch)"
  by (simp add: env.dec_iff envelope_wf_def first_envelope_def GROUP_BYTES_def HASH_BYTES_def fits_small)

theorem stored_envelope_reads_back_witness:
  "\<exists>d' bs. envelope_bytes d' (replicate 32 9) (replicate 32 5) = Some bs \<and>
    envelope_decode bs = Inr (first_envelope 3\<lparr>env_seq := 1, env_ts := 1000\<rparr>)"
proof -
  obtain d' where d': "accept const_hash no_faults (\<lambda>d. d) (\<lambda>d. d) open_config (first_envelope 3) 1000 fresh_db = (d', Inr (Stored 1))"
    by (rule first_stored)
  have "uint (env_epoch (first_envelope 3)) \<le> I64_MAX" "uint (1000 :: u64) \<le> I64_MAX"
    "env_group (first_envelope 3) = replicate 32 9" "env_hash (first_envelope 3) = replicate 32 5"
    by (simp_all add: first_envelope_def I64_MAX_def)
  then show ?thesis
    using stored_envelope_reads_back [OF fresh_db_ok(1,2) fresh_db_ok(2) d' first_envelope_decodes] by metis
qed

text \<open>C40. An epoch outside the signed range is not kept: the relay accepts and acknowledges such an
  envelope, whose header field is an unsigned 64-bit integer, and every later read of it gives an
  envelope with epoch zero under the same content address.\<close>

theorem large_epoch_reads_back_zero:
  assumes "db_ok d" "others_ok others d" "others_ok others' (others d)"
    "accept blake3 fl others others' cfg e now_ms d = (d', Inr (Stored s))"
    "envelope_decode raw = Inr e" "I64_MAX < uint (env_epoch e)" "uint now_ms \<le> I64_MAX"
  shows "\<exists>bs. envelope_bytes d' (env_group e) (env_hash e) = Some bs \<and>
    envelope_decode bs = Inr (e\<lparr>env_epoch := 0, env_seq := s, env_ts := now_ms\<rparr>)"
proof -
  have "envelope_wf (e\<lparr>env_epoch := 0, env_seq := s, env_ts := now_ms\<rparr>)"
    using env.dec_sound [OF assms(5)] by (simp add: envelope_wf_def)
  moreover have "envelope_bytes d' (env_group e) (env_hash e) =
      Some (envelope_encode (e\<lparr>env_epoch := 0, env_seq := s, env_ts := now_ms\<rparr>))"
    using stored_bytes [OF assms(1-4)] assms(6,7) by (simp add: as_i64_small as_i64_large u64_or_zero_negative)
  ultimately show ?thesis
    by (simp add: env.dec_iff)
qed

theorem large_epoch_reads_back_zero_witness:
  "\<exists>d' bs. envelope_bytes d' (replicate 32 9) (replicate 32 5) = Some bs \<and>
    envelope_decode bs = Inr (first_envelope (- 1)\<lparr>env_epoch := 0, env_seq := 1, env_ts := 1000\<rparr>)"
proof -
  obtain d' where d': "accept const_hash no_faults (\<lambda>d. d) (\<lambda>d. d) open_config (first_envelope (- 1)) 1000 fresh_db = (d', Inr (Stored 1))"
    by (rule first_stored)
  have "I64_MAX < uint (env_epoch (first_envelope (- 1)))" "uint (1000 :: u64) \<le> I64_MAX"
    "env_group (first_envelope (- 1)) = replicate 32 9" "env_hash (first_envelope (- 1)) = replicate 32 5"
    by (simp_all add: first_envelope_def I64_MAX_def unsigned_minus_1_eq_mask mask_eq_exp_minus_1)
  then show ?thesis
    using large_epoch_reads_back_zero [OF fresh_db_ok(1,2) fresh_db_ok(2) d' first_envelope_decodes] by metis
qed

subsection \<open>One query is the loop over single reads\<close>

lemma id_from_slice_32 [simp]: "length h = 32 \<Longrightarrow> id_from_slice h = h"
  by (simp add: id_from_slice_def)

lemma take_found_distinct:
  "distinct ids \<Longrightarrow> take_found found ids =
    concat (map (\<lambda>i. case found i of None \<Rightarrow> [] | Some b \<Rightarrow> [(i, b)]) ids)"
proof (induction ids arbitrary: found)
  case (Cons i ids)
  have same: "map (\<lambda>j. case (found(i := None)) j of None \<Rightarrow> [] | Some b \<Rightarrow> [(j, b)]) ids =
      map (\<lambda>j. case found j of None \<Rightarrow> [] | Some b \<Rightarrow> [(j, b)]) ids"
    using Cons.prems by (intro map_cong) auto
  show ?case
  proof (cases "found i")
    case (Some b)
    have "take_found found (i # ids) = (i, b) # take_found (found(i := None)) ids"
      using Some by simp
    also have "take_found (found(i := None)) ids =
        concat (map (\<lambda>j. case found j of None \<Rightarrow> [] | Some b \<Rightarrow> [(j, b)]) ids)"
      using Cons same by (simp only: distinct.simps)
    finally show ?thesis
      using Some by simp
  qed (use Cons in simp)
qed simp

lemma fold_updates_other: "\<forall>x\<in>set xs. f x \<noteq> i \<Longrightarrow> fold (\<lambda>r m. m(f r \<mapsto> g r)) xs m i = m i"
  by (induction xs arbitrary: m) auto

lemma fold_updates_in:
  "\<forall>y\<in>set xs. f x = f y \<longrightarrow> g x = g y \<Longrightarrow> x \<in> set xs \<Longrightarrow> fold (\<lambda>r m. m(f r \<mapsto> g r)) xs m (f x) = Some (g x)"
proof (induction xs rule: rev_induct)
  case (snoc y xs)
  show ?case
  proof (cases "f x = f y")
    case True
    then show ?thesis
      using snoc.prems(1) by simp
  next
    case False
    then have "x \<in> set xs"
      using snoc.prems(2) by auto
    moreover have "\<forall>y\<in>set xs. f x = f y \<longrightarrow> g x = g y"
      using snoc.prems(1) unfolding set_append by blast
    ultimately have "fold (\<lambda>r m. m(f r \<mapsto> g r)) xs m (f x) = Some (g x)"
      by (intro snoc.IH)
    then show ?thesis
      using False by (simp del: fun_upd_apply add: fun_upd_other)
  qed
qed simp

lemma envelopes_for_each:
  assumes "db_ok d" "distinct ids" "\<forall>i\<in>set ids. length i = 32"
  shows "envelopes_for d grp ids =
    concat (map (\<lambda>i. case envelope_bytes d grp i of None \<Rightarrow> [] | Some b \<Rightarrow> [(i, b)]) ids)"
proof -
  let ?rows = "filter (\<lambda>r. row_group r = grp \<and> row_hash r \<in> set ids) (db_envelopes d)"
  let ?found = "fold (\<lambda>r m. m(id_from_slice (row_hash r) \<mapsto> encode_row r grp (row_hash r))) ?rows Map.empty"
  have ids32: "id_from_slice (row_hash r) = row_hash r" if "r \<in> set ?rows" for r
    using that assms(1) by (auto simp: db_ok_def row_ok_def)
  have same: "x = y" if "x \<in> set ?rows" "y \<in> set ?rows" "row_hash x = row_hash y" for x y
    using that row_unique [OF assms(1), of x y] by simp
  have inj: "\<forall>x\<in>set ?rows. \<forall>y\<in>set ?rows. id_from_slice (row_hash x) = id_from_slice (row_hash y) \<longrightarrow>
      encode_row x grp (row_hash x) = encode_row y grp (row_hash y)"
  proof (intro ballI impI)
    fix x y
    assume "x \<in> set ?rows" "y \<in> set ?rows" "id_from_slice (row_hash x) = id_from_slice (row_hash y)"
    then have "x = y"
      by (intro same) (simp_all only: ids32)
    then show "encode_row x grp (row_hash x) = encode_row y grp (row_hash y)"
      by simp
  qed
  have "?found i = envelope_bytes d grp i" if i: "i \<in> set ids" for i
  proof (cases "\<exists>r\<in>set (db_envelopes d). row_group r = grp \<and> row_hash r = i")
    case True
    then obtain r where r: "r \<in> set (db_envelopes d)" "row_group r = grp" "row_hash r = i"
      by blast
    then have mem: "r \<in> set ?rows"
      using i by simp
    have "?found (id_from_slice (row_hash r)) = Some (encode_row r grp (row_hash r))"
      by (rule fold_updates_in [OF _ mem]) (use inj mem in blast)
    then show ?thesis
      using envelope_bytes_row [OF assms(1) r(1)] r(2,3) by (simp only: ids32 [OF mem, unfolded r(3)])
  next
    case False
    then have "filter (\<lambda>r. row_group r = grp \<and> row_hash r = i) (db_envelopes d) = []"
      by (auto simp: filter_empty_conv)
    then have "envelope_bytes d grp i = None"
      by (simp add: envelope_bytes_def)
    moreover have "\<forall>r\<in>set ?rows. id_from_slice (row_hash r) \<noteq> i"
      using False ids32 by auto
    ultimately show ?thesis
      by (simp only: fold_updates_other)
  qed
  then have each: "map (\<lambda>i. case ?found i of None \<Rightarrow> [] | Some b \<Rightarrow> [(i, b)]) ids =
      map (\<lambda>i. case envelope_bytes d grp i of None \<Rightarrow> [] | Some b \<Rightarrow> [(i, b)]) ids"
    by (intro map_cong [OF refl]) (simp only:)
  have "envelopes_for d grp ids = take_found ?found ids"
    by (simp add: envelopes_for_def Let_def)
  then show ?thesis
    by (simp only: take_found_distinct [OF assms(2)] each)
qed

text \<open>The single query behind a reconciliation batch returns what reading each id on its own
  would: the envelopes that are still there, in the order the ids were given, and nothing for an id
  that is gone.\<close>

theorem envelopes_for_reads_each:
  assumes "db_ok d" "distinct ids" "\<forall>i\<in>set ids. length i = 32"
  shows "envelopes_for d grp ids =
    concat (map (\<lambda>i. case envelope_bytes d grp i of None \<Rightarrow> [] | Some b \<Rightarrow> [(i, b)]) ids)"
  by (rule envelopes_for_each [OF assms])

theorem envelopes_for_reads_each_witness:
  "envelopes_for fresh_db (replicate 32 9) [replicate 32 5] = []"
proof -
  have none: "envelope_bytes fresh_db (replicate 32 9) (replicate 32 5) = None"
    by (simp add: envelope_bytes_def fresh_db_def)
  have "envelopes_for fresh_db (replicate 32 9) [replicate 32 5] =
      concat (map (\<lambda>i. case envelope_bytes fresh_db (replicate 32 9) i of None \<Rightarrow> [] | Some b \<Rightarrow> [(i, b)]) [replicate 32 5])"
    by (rule envelopes_for_reads_each [OF fresh_db_ok(1)]) simp_all
  then show ?thesis
    by (simp only: none list.map concat.simps option.case append_Nil)
qed

lemma map_fst_envelopes_for:
  assumes "db_ok d" "distinct ids" "\<forall>i\<in>set ids. length i = 32" "\<forall>i\<in>set ids. envelope_bytes d grp i \<noteq> None"
  shows "map fst (envelopes_for d grp ids) = ids"
proof -
  have "map fst (concat (map (\<lambda>i. case envelope_bytes d grp i of None \<Rightarrow> [] | Some b \<Rightarrow> [(i, b)]) ids)) = ids"
    using assms(4) by (induction ids) auto
  then show ?thesis
    by (simp only: envelopes_for_each [OF assms(1-3)])
qed

lemma envelopes_for_bytes:
  assumes "db_ok d" "distinct ids" "\<forall>i\<in>set ids. length i = 32" "(i, bs) \<in> set (envelopes_for d grp ids)"
  shows "envelope_bytes d grp i = Some bs"
  using assms(4) unfolding envelopes_for_each [OF assms(1-3)] by (auto split: option.splits)

subsection \<open>The items of a group\<close>

text \<open>Everything the log holds for a group, ascending, and the window a round reads of it.\<close>

definition group_items :: "db \<Rightarrow> bytes \<Rightarrow> item list" where
  "group_items d grp = map row_to_item (rows_from d grp 0)"

definition seqs_in_range :: "db \<Rightarrow> bool" where
  "seqs_in_range d \<longleftrightarrow> (\<forall>r\<in>set (db_envelopes d). row_seq r < I64_MAX)"

lemma rows_from_0:
  assumes "db_ok d"
  shows "rows_from d grp 0 = sort_key row_seq (filter (\<lambda>r. row_group r = grp) (db_envelopes d))"
proof -
  have "filter (\<lambda>r. row_group r = grp \<and> clamp_i64 0 \<le> row_seq r) (db_envelopes d) =
      filter (\<lambda>r. row_group r = grp) (db_envelopes d)"
    using assms by (intro filter_cong) (auto simp: db_ok_def row_ok_def clamp_i64_def I64_MAX_def)
  then show ?thesis
    by (simp add: rows_from_def)
qed

lemma rows_from_filter:
  assumes "db_ok d"
  shows "rows_from d grp from_seq = filter (\<lambda>r. clamp_i64 from_seq \<le> row_seq r) (rows_from d grp 0)"
  unfolding rows_from_0 [OF assms] by (simp add: rows_from_def filter_sort conj_commute)

lemma seq_in_window:
  assumes "1 \<le> row_seq r" "row_seq r < I64_MAX"
  shows "uint (it_seq (row_to_item r)) = row_seq r"
    and "from_seq \<le> it_seq (row_to_item r) \<longleftrightarrow> clamp_i64 from_seq \<le> row_seq r"
proof -
  show u: "uint (it_seq (row_to_item r)) = row_seq r"
    using assms by (simp add: row_to_item_def u64_or_zero_def I64_MAX_def uint_word_of_int_eq take_bit_int_eq_self)
  show "from_seq \<le> it_seq (row_to_item r) \<longleftrightarrow> clamp_i64 from_seq \<le> row_seq r"
    using assms(2) by (auto simp: word_le_def u clamp_i64_def)
qed

lemma group_items_ok:
  assumes "db_ok d" "seqs_in_range d"
  shows "local_ok (group_items d grp)"
    and "log_items d grp from_seq = take MAX_ITEMS_PER_RECONCILE (filter (\<lambda>i. from_seq \<le> it_seq i) (group_items d grp))"
    and "i \<in> set (group_items d grp) \<Longrightarrow> envelope_bytes d grp (it_id i) \<noteq> None"
proof -
  have rows: "row_ok r \<and> 1 \<le> row_seq r \<and> row_seq r < I64_MAX \<and> r \<in> set (db_envelopes d) \<and> row_group r = grp"
    if "r \<in> set (rows_from d grp 0)" for r
    using that assms by (auto simp: rows_from_0 [OF assms(1)] db_ok_def row_ok_def seqs_in_range_def)
  have "sorted_wrt (\<lambda>r s. row_seq r \<le> row_seq s) (rows_from d grp 0)"
    using sorted_sort_key [of row_seq] by (simp add: rows_from_def sorted_map)
  then have "sorted_wrt (\<lambda>r s. it_seq (row_to_item r) \<le> it_seq (row_to_item s)) (rows_from d grp 0)"
    by (rule sorted_wrt_mono_rel [rotated]) (use rows seq_in_window(1) in \<open>simp add: word_le_def\<close>)
  then have "seq_sorted (group_items d grp)"
    by (simp add: group_items_def sorted_map)
  moreover have "\<forall>i\<in>set (group_items d grp). length (it_id i) = 32"
    using rows by (auto simp: group_items_def row_to_item_def row_ok_def)
  ultimately show "local_ok (group_items d grp)"
    by (simp add: local_ok_def)
  have "filter (\<lambda>r. clamp_i64 from_seq \<le> row_seq r) (rows_from d grp 0) =
      filter (\<lambda>r. from_seq \<le> it_seq (row_to_item r)) (rows_from d grp 0)"
    using rows seq_in_window(2) by (intro filter_cong) auto
  then show "log_items d grp from_seq = take MAX_ITEMS_PER_RECONCILE (filter (\<lambda>i. from_seq \<le> it_seq i) (group_items d grp))"
    by (simp add: log_items_def rows_from_filter [OF assms(1), of grp from_seq] group_items_def filter_map take_map o_def)
  show "envelope_bytes d grp (it_id i) \<noteq> None" if "i \<in> set (group_items d grp)"
  proof -
    from that obtain r where r: "r \<in> set (rows_from d grp 0)" "i = row_to_item r"
      by (auto simp: group_items_def)
    then show ?thesis
      using rows [OF r(1)] envelope_bytes_row [OF assms(1), of r] by (auto simp: row_to_item_def row_ok_def)
  qed
qed

end
