(* ===== verification/Sync.thy ===== *)
theory Sync
  imports Exchange Outbound Log
begin

text \<open>
  The reconciliation round and the backfill as the relay serves them, \<open>src/backend/wealdrelay/src/sync.rs\<close>:
  a batch cut to what the connection's queue takes, ranges reopened for what was left out, and the
  window of the log a round reads. The database may fail either read, and other connections may use
  the queue while a read is in flight: \<open>drift\<close> is what they do to it.
\<close>

definition SYNC_PUSH_LIMIT :: nat where "SYNC_PUSH_LIMIT = SEND_QUEUE_BOUND - 1"
definition SYNC_PUSH_BYTES :: nat where "SYNC_PUSH_BYTES = SEND_QUEUE_BYTE_BUDGET - MAX_FRAME_BYTES"

subsection \<open>Cutting a batch\<close>

fun fits_loop :: "nat \<Rightarrow> ('a \<Rightarrow> nat) \<Rightarrow> nat \<Rightarrow> nat \<Rightarrow> 'a list \<Rightarrow> nat" where
  "fits_loop allowance cost spent taken [] = taken"
| "fits_loop allowance cost spent taken (x # xs) =
    (let spent' = usize_add spent (cost x) in
     if taken > 0 \<and> spent' > allowance then taken else fits_loop allowance cost spent' (taken + 1) xs)"

definition fits_in_budget :: "'a list \<Rightarrow> nat \<Rightarrow> ('a \<Rightarrow> nat) \<Rightarrow> nat" where
  "fits_in_budget xs allowance cost = (if allowance = 0 then 0 else fits_loop allowance cost 0 0 xs)"

definition push_frame_allowance :: "outbound \<Rightarrow> nat" where
  "push_frame_allowance q = min (free_slots q - 1) SYNC_PUSH_LIMIT"

definition push_byte_allowance :: "outbound \<Rightarrow> nat" where
  "push_byte_allowance q = min (SEND_QUEUE_BYTE_BUDGET - ob_queued_bytes q - MAX_FRAME_BYTES) SYNC_PUSH_BYTES"

definition push_cost :: "bytes \<Rightarrow> nat" where
  "push_cost bs = queued_bytes (FPush []) + length bs"

subsection \<open>Reopening ranges\<close>

fun reopen_loop :: "(bytes \<Rightarrow> bytes) \<Rightarrow> item list \<Rightarrow> id set \<Rightarrow> range list \<Rightarrow> (u64 \<times> u64 \<times> mode) list \<Rightarrow> range list" where
  "reopen_loop blake3 items omitted ranges [] = ranges"
| "reopen_loop blake3 items omitted ranges ((lower, upper, _) # later) =
    (let mine = items_in items lower upper in
     reopen_loop blake3 items omitted
       (if \<exists>i\<in>set mine. it_id i \<in> omitted
        then map (\<lambda>r. if rg_upper r = upper then mk_range upper (Fingerprint (fingerprint blake3 mine)) else r) ranges
        else ranges)
       later)"

definition reopen_omitted :: "(bytes \<Rightarrow> bytes) \<Rightarrow> message \<Rightarrow> message \<Rightarrow> item list \<Rightarrow> id list \<Rightarrow> message" where
  "reopen_omitted blake3 reply incoming items omitted =
    (if omitted = [] then reply
     else \<lparr>msg_ranges = reopen_loop blake3 items (set omitted) (msg_ranges reply) (spans incoming)\<rparr>)"

fun floor_from :: "u64 \<Rightarrow> range list \<Rightarrow> u64" where
  "floor_from lower [] = lower"
| "floor_from lower (r # rs) = (if rg_mode r \<noteq> Skip then lower else floor_from (rg_upper r) rs)"

definition unsettled_floor :: "message \<Rightarrow> u64" where
  "unsettled_floor incoming = floor_from 0 (msg_ranges incoming)"

subsection \<open>One round\<close>

text \<open>The two reads a round makes.\<close>

record database =
  read_items :: "bytes \<Rightarrow> u64 \<Rightarrow> string + item list"
  read_envelopes :: "bytes \<Rightarrow> id list \<Rightarrow> string + (id \<times> bytes) list"
  read_since :: "bytes \<Rightarrow> u64 \<Rightarrow> nat \<Rightarrow> nat \<Rightarrow> string + bytes list"

text \<open>The second cut and the answer, from what the item read and the first cut gave: the envelopes to
  push and the reply. \<open>omitted\<close> is what the first cut left out and \<open>q\<close> the queue as it is now.\<close>

definition sync_batch :: "(bytes \<Rightarrow> bytes) \<Rightarrow> message \<Rightarrow> item list \<Rightarrow> id list \<Rightarrow> (id \<times> bytes) list \<Rightarrow> outbound \<Rightarrow>
    (id \<times> bytes) list \<times> message" where
  "sync_batch blake3 incoming items omitted envelopes q =
    (let sendable = min (fits_in_budget envelopes (push_byte_allowance q) (\<lambda>(_, bs). push_cost bs))
           (push_frame_allowance q);
         all_omitted = omitted @ map fst (drop sendable envelopes) in
     (take sendable envelopes,
      reopen_omitted blake3 (resp_reply (respond blake3 items incoming)) incoming items all_omitted))"

definition backpressure_frames :: "frame list" where
  "backpressure_frames = [FError (new_error Backpressure)]"

definition reconcile ::
    "(bytes \<Rightarrow> bytes) \<Rightarrow> database option \<Rightarrow> (outbound \<Rightarrow> outbound) \<Rightarrow> (outbound \<Rightarrow> outbound) \<Rightarrow> outbound \<Rightarrow> bytes \<Rightarrow>
      bytes \<Rightarrow> bool \<times> outbound" where
  "reconcile blake3 dbo drift drift' q grp payload =
    (case message_decode payload of
       Inl err \<Rightarrow> queue_all q [FError (new_error (recon_error_code err))]
     | Inr incoming \<Rightarrow>
       (case dbo of
          None \<Rightarrow> queue_all q backpressure_frames
        | Some d \<Rightarrow>
          (let q1 = drift q in
           case read_items d grp (unsettled_floor incoming) of
             Inl _ \<Rightarrow> queue_all q1 backpressure_frames
           | Inr items \<Rightarrow>
             (let push = resp_push (respond blake3 items incoming);
                  allowed = push_frame_allowance q1;
                  q2 = drift' q1 in
              case read_envelopes d grp (take allowed push) of
                Inl _ \<Rightarrow> queue_all q2 backpressure_frames
              | Inr envelopes \<Rightarrow>
                (let (sent, reply) = sync_batch blake3 incoming items (drop allowed push) envelopes q2 in
                 queue_all q2 (map (\<lambda>(_, bs). FPush bs) sent @ [FRecon grp (message_encode reply)]))))))"

text \<open>The backfill at the end of \<open>subscribe\<close>.\<close>

definition backfill :: "database \<Rightarrow> (outbound \<Rightarrow> outbound) \<Rightarrow> outbound \<Rightarrow> bytes \<Rightarrow> u64 \<Rightarrow> bool \<times> outbound" where
  "backfill d drift q grp from_seq =
    (let allowed = push_frame_allowance q; q1 = drift q in
     case read_since d grp from_seq allowed (push_byte_allowance q) of
       Inl _ \<Rightarrow> queue_all q1 backpressure_frames
     | Inr rows \<Rightarrow>
       (let envelopes = take allowed rows;
            sendable = min (fits_in_budget envelopes (push_byte_allowance q1) push_cost) (push_frame_allowance q1) in
        queue_all q1 (map FPush (take sendable envelopes))))"

text \<open>The envelope \<open>deliver\<close> fans out to the other subscribers.\<close>

definition delivered_bytes :: "envelope \<Rightarrow> u64 \<Rightarrow> u64 \<Rightarrow> bytes" where
  "delivered_bytes e seq now_ms = envelope_encode (e\<lparr>env_seq := seq, env_ts := now_ms\<rparr>)"

text \<open>The database of the model, when no read fails.\<close>

definition log_database :: "db \<Rightarrow> database" where
  "log_database d =
    \<lparr>read_items = \<lambda>grp from_seq. Inr (log_items d grp from_seq),
     read_envelopes = \<lambda>grp ids. Inr (envelopes_for d grp ids),
     read_since = \<lambda>grp from_seq max_rows max_bytes. Inr (since d grp from_seq max_rows max_bytes)\<rparr>"

subsection \<open>The size of a batch\<close>

lemma usize_add_le: "n < 2 ^ 64 - 1 \<Longrightarrow> usize_add a b \<le> n \<longleftrightarrow> a + b \<le> n"
  by (auto simp: usize_add_def)

lemma usize_add_exact: "n < 2 ^ 64 - 1 \<Longrightarrow> a + b \<le> n \<Longrightarrow> usize_add a b = a + b"
  by (simp add: usize_add_def)

lemma fits_loop_full:
  "A < 2 ^ 64 - 1 \<Longrightarrow> A < spent \<Longrightarrow> 0 < taken \<Longrightarrow> fits_loop A cost spent taken xs = taken"
  by (cases xs) (auto simp: Let_def usize_add_def)

lemma fits_loop_room:
  assumes "A < 2 ^ 64 - 1"
  shows "spent \<le> A \<Longrightarrow> 0 < taken \<Longrightarrow>
    \<exists>k\<le>length xs. fits_loop A cost spent taken xs = taken + k \<and> spent + sum_list (map cost (take k xs)) \<le> A \<and>
      (k < length xs \<longrightarrow> A < spent + sum_list (map cost (take (Suc k) xs)))"
proof (induction xs arbitrary: spent taken)
  case (Cons x xs)
  show ?case
  proof (cases "spent + cost x \<le> A")
    case True
    then have eq: "usize_add spent (cost x) = spent + cost x"
      by (rule usize_add_exact [OF assms])
    obtain k where k: "k \<le> length xs" "fits_loop A cost (spent + cost x) (taken + 1) xs = taken + 1 + k"
      "spent + cost x + sum_list (map cost (take k xs)) \<le> A"
      "k < length xs \<longrightarrow> A < spent + cost x + sum_list (map cost (take (Suc k) xs))"
      using Cons.IH [OF True, of "taken + 1"] by auto
    then show ?thesis
      using True by (intro exI [where x = "Suc k"]) (simp add: eq Let_def add.assoc)
  next
    case False
    then have "A < usize_add spent (cost x)"
      using usize_add_le [OF assms, of spent "cost x"] by simp
    then show ?thesis
      using Cons.prems False by (intro exI [where x = 0]) (simp add: Let_def)
  qed
qed simp

lemma fits_in_budget_spec:
  assumes "A < 2 ^ 64 - 1" "0 < A"
  shows "\<exists>n\<le>length xs. fits_in_budget xs A cost = n \<and> (n = 1 \<or> sum_list (map cost (take n xs)) \<le> A) \<and>
    (n < length xs \<longrightarrow> 0 < n \<and> A < sum_list (map cost (take (Suc n) xs)))"
proof (cases xs)
  case (Cons x rest)
  have start: "fits_in_budget xs A cost = fits_loop A cost (usize_add 0 (cost x)) 1 rest"
    using Cons assms(2) by (simp add: fits_in_budget_def Let_def)
  show ?thesis
  proof (cases "cost x \<le> A")
    case True
    then have "usize_add 0 (cost x) = cost x"
      using usize_add_exact [OF assms(1), of 0 "cost x"] by simp
    with fits_loop_room [OF assms(1) True, of 1 rest cost] obtain k where "k \<le> length rest"
      "fits_in_budget xs A cost = 1 + k" "cost x + sum_list (map cost (take k rest)) \<le> A"
      "k < length rest \<longrightarrow> A < cost x + sum_list (map cost (take (Suc k) rest))"
      using start by auto
    then show ?thesis
      using Cons by (intro exI [where x = "Suc k"]) simp
  next
    case False
    then have "A < usize_add 0 (cost x)"
      using usize_add_le [OF assms(1), of 0 "cost x"] by simp
    then have "fits_in_budget xs A cost = 1"
      using start fits_loop_full [OF assms(1), of "usize_add 0 (cost x)" 1 cost rest] by simp
    then show ?thesis
      using Cons False by (intro exI [where x = 1]) (cases rest; simp)
  qed
qed (simp add: fits_in_budget_def)

text \<open>Cutting a batch to the byte allowance: with no allowance nothing is taken; otherwise the
  batch is a prefix that costs no more than the allowance unless it is a single item, at least one
  item is taken when there is one, and the batch is the longest such prefix, one more item would
  exceed the allowance.\<close>

theorem fits_in_budget_cut:
  assumes "A < 2 ^ 64 - 1"
  shows "fits_in_budget xs A cost \<le> length xs \<and>
    (A = 0 \<longrightarrow> fits_in_budget xs A cost = 0) \<and>
    (0 < A \<longrightarrow>
      (fits_in_budget xs A cost = 1 \<or> sum_list (map cost (take (fits_in_budget xs A cost) xs)) \<le> A) \<and>
      (fits_in_budget xs A cost < length xs \<longrightarrow>
        0 < fits_in_budget xs A cost \<and> A < sum_list (map cost (take (Suc (fits_in_budget xs A cost)) xs))))"
proof (cases "A = 0")
  case False
  then show ?thesis
    using fits_in_budget_spec [OF assms, of xs cost] by auto
qed (simp add: fits_in_budget_def)

theorem fits_in_budget_cut_witness: "sum_list (map id (take (fits_in_budget [3, 4, 5] 8 id) [3, 4, 5 :: nat])) \<le> 8"
proof -
  have "fits_in_budget [3, 4, 5] 8 id = 2"
    by (simp add: fits_in_budget_def usize_add_def Let_def)
  then show ?thesis
    using fits_in_budget_cut [of 8 "[3, 4, 5]" id] by simp
qed

subsection \<open>The window\<close>

lemma items_in_filter_from:
  assumes "seq_sorted R" "from \<le> l" "l \<le> u"
  shows "items_in (filter (\<lambda>i. from \<le> it_seq i) R) l u = items_in R l u"
proof -
  have "seq_sorted (filter (\<lambda>i. from \<le> it_seq i) R)"
    using assms(1) by (rule sorted_filter)
  then show ?thesis
    using assms by (auto simp: items_in_eq intro!: filter_cong)
qed

lemma floor_from_ge:
  "sorted_wrt (<) (map rg_upper rs) \<Longrightarrow> \<forall>r\<in>set rs. lower \<le> rg_upper r \<Longrightarrow> lower \<le> floor_from lower rs"
proof (induction rs arbitrary: lower)
  case (Cons r rs)
  have "rg_upper r \<le> floor_from (rg_upper r) rs" if "rg_mode r = Skip"
    using Cons.prems(1) by (intro Cons.IH) (auto intro: less_imp_le)
  then show ?case
    using Cons.prems(2) by (auto intro: order_trans)
qed simp

lemma respond_loop_Nil [simp]: "respond_loop blake3 R acc [] = acc"
  by (cases acc) simp

lemma respond_loop_above:
  assumes "seq_sorted R"
  shows "sorted_wrt (<) (map rg_upper rs) \<Longrightarrow> \<forall>r\<in>set rs. lower \<le> rg_upper r \<Longrightarrow> from \<le> lower \<Longrightarrow>
    respond_loop blake3 (filter (\<lambda>i. from \<le> it_seq i) R) acc (spans_from lower rs) =
    respond_loop blake3 R acc (spans_from lower rs)"
proof (induction rs arbitrary: lower acc)
  case (Cons r rs)
  have "from \<le> rg_upper r" "\<forall>x\<in>set rs. rg_upper r \<le> rg_upper x"
    using Cons.prems by (auto intro: less_imp_le order_trans)
  then show ?case
    using Cons items_in_filter_from [OF assms Cons.prems(3), of "rg_upper r"]
    by (cases acc) (simp add: Let_def case_prod_beta)
qed simp

lemma respond_loop_floor:
  assumes "seq_sorted R"
  shows "sorted_wrt (<) (map rg_upper rs) \<Longrightarrow> \<forall>r\<in>set rs. lower \<le> rg_upper r \<Longrightarrow> from \<le> floor_from lower rs \<Longrightarrow>
    respond_loop blake3 (filter (\<lambda>i. from \<le> it_seq i) R) acc (spans_from lower rs) =
    respond_loop blake3 R acc (spans_from lower rs)"
proof (induction rs arbitrary: lower acc)
  case (Cons r rs)
  show ?case
  proof (cases "rg_mode r = Skip")
    case True
    have "\<forall>x\<in>set rs. rg_upper r \<le> rg_upper x"
      using Cons.prems(1) by (auto intro: less_imp_le)
    then show ?thesis
      using Cons True by (cases acc) (simp add: Let_def)
  next
    case False
    then show ?thesis
      using Cons.prems by (intro respond_loop_above [OF assms]) simp_all
  qed
qed simp

text \<open>The window a round reads is enough: the items below the lowest range the peer has not
  settled change nothing in the answer, neither the reply nor what is pushed.\<close>

theorem unsettled_floor_sound:
  assumes "message_decode payload = Inr m" "seq_sorted R"
  shows "respond blake3 (filter (\<lambda>i. unsettled_floor m \<le> it_seq i) R) m = respond blake3 R m"
proof -
  have "message_wf m"
    using recon.dec_sound [OF assms(1)] by simp
  then show ?thesis
    using respond_loop_floor [OF assms(2), of "msg_ranges m" 0 "unsettled_floor m" blake3 "([], {})"]
    by (simp add: respond_def spans_def unsettled_floor_def message_wf_def cover_def)
qed

theorem unsettled_floor_sound_witness:
  "respond zero_hash (filter (\<lambda>i. unsettled_floor ask_all \<le> it_seq i) sample_items) ask_all =
   respond zero_hash sample_items ask_all"
  using unsettled_floor_sound [OF ask_all_decodes, of sample_items zero_hash] sample_local_ok
  by (simp add: local_ok_def)

subsection \<open>What was left out stays open\<close>

text \<open>What the reopening loop does to one range.\<close>

fun reopened :: "(bytes \<Rightarrow> bytes) \<Rightarrow> item list \<Rightarrow> id set \<Rightarrow> (u64 \<times> u64 \<times> mode) list \<Rightarrow> range \<Rightarrow> range" where
  "reopened blake3 items omitted [] r = r"
| "reopened blake3 items omitted ((lower, upper, _) # later) r =
    reopened blake3 items omitted later
      (if (\<exists>i\<in>set (items_in items lower upper). it_id i \<in> omitted) \<and> rg_upper r = upper
       then mk_range upper (Fingerprint (fingerprint blake3 (items_in items lower upper))) else r)"

lemma reopen_loop_map: "reopen_loop blake3 items omitted ranges sps = map (reopened blake3 items omitted sps) ranges"
proof (induction sps arbitrary: ranges)
  case (Cons sp sps)
  then show ?case
    by (cases sp) (simp add: Let_def)
qed (simp add: map_idI)

lemma rg_upper_reopened [simp]: "rg_upper (reopened blake3 items omitted sps r) = rg_upper r"
proof (induction sps arbitrary: r)
  case (Cons sp sps)
  then show ?case
    by (cases sp) simp
qed simp

lemma reopened_mode:
  obtains (same) "rg_mode (reopened blake3 items omitted sps r) = rg_mode r"
    "\<And>l u md. (l, u, md) \<in> set sps \<Longrightarrow> u = rg_upper r \<Longrightarrow> \<forall>i\<in>set (items_in items l u). it_id i \<notin> omitted"
  | (changed) l md where "(l, rg_upper r, md) \<in> set sps" "\<exists>i\<in>set (items_in items l (rg_upper r)). it_id i \<in> omitted"
    "rg_mode (reopened blake3 items omitted sps r) = Fingerprint (fingerprint blake3 (items_in items l (rg_upper r)))"
proof (induction sps arbitrary: r thesis)
  case (Cons sp sps)
  obtain l u md where sp: "sp = (l, u, md)"
    by (cases sp)
  define r1 where "r1 = (if (\<exists>i\<in>set (items_in items l u). it_id i \<in> omitted) \<and> rg_upper r = u
       then mk_range u (Fingerprint (fingerprint blake3 (items_in items l u))) else r)"
  have step: "reopened blake3 items omitted (sp # sps) r = reopened blake3 items omitted sps r1"
    by (simp add: sp r1_def)
  have up: "rg_upper r1 = rg_upper r"
    by (simp add: r1_def)
  show ?case
  proof (rule Cons.IH [of r1])
    assume same: "rg_mode (reopened blake3 items omitted sps r1) = rg_mode r1"
      "\<And>l u md. (l, u, md) \<in> set sps \<Longrightarrow> u = rg_upper r1 \<Longrightarrow> \<forall>i\<in>set (items_in items l u). it_id i \<notin> omitted"
    show thesis
    proof (cases "(\<exists>i\<in>set (items_in items l u). it_id i \<in> omitted) \<and> rg_upper r = u")
      case True
      then show thesis
        using same(1) step by (intro Cons.prems(2) [of l md]) (auto simp: sp r1_def)
    next
      case False
      then have "r1 = r"
        unfolding r1_def by (rule if_not_P)
      then show thesis
        using same step False by (intro Cons.prems(1)) (auto simp: sp)
    qed
  next
    fix l' md'
    assume "(l', rg_upper r1, md') \<in> set sps" "\<exists>i\<in>set (items_in items l' (rg_upper r1)). it_id i \<in> omitted"
      "rg_mode (reopened blake3 items omitted sps r1) = Fingerprint (fingerprint blake3 (items_in items l' (rg_upper r1)))"
    then show thesis
      using step up by (intro Cons.prems(2) [of l' md']) auto
  qed
qed simp

lemma spans_from_map:
  assumes "\<And>r. rg_upper (f r) = rg_upper r" "(l, u, md') \<in> set (spans_from lower (map f rs))"
  shows "\<exists>r. (l, u, rg_mode r) \<in> set (spans_from lower rs) \<and> rg_upper r = u \<and> md' = rg_mode (f r)"
  using assms(2)
proof (induction rs arbitrary: lower)
  case (Cons r rs)
  then show ?case
    using assms(1) by auto
qed simp

text \<open>A range of the answer that is settled answers a whole span of the incoming message.\<close>

lemma respond_skip_span:
  assumes "local_ok R" "\<And>x. length (blake3 x) = 32" "message_wf m"
    "\<And>l u md budget. (l, u, md) \<in> set (spans m) \<Longrightarrow> l \<le> u \<Longrightarrow>
      (l, u, Skip) \<in> set (spans_from l (fst (respond_span blake3 (items_in R l u) budget (l, u, md)))) \<Longrightarrow> P l u md"
    "(l, u, Skip) \<in> set (spans (resp_reply (respond blake3 R m)))"
  shows "\<exists>md. (l, u, md) \<in> set (spans m) \<and> P l u md"
proof -
  have "\<forall>sp\<in>set (spans (resp_reply (respond blake3 R m))). snd (snd sp) = Skip \<longrightarrow>
    (\<exists>md. (fst sp, fst (snd sp), md) \<in> set (spans m) \<and> P (fst sp) (fst (snd sp)) md)"
  proof (rule respond_reply_spans [OF assms(1-3)])
    fix l u md and budget :: nat
    assume sp: "(l, u, md) \<in> set (spans m)" "l \<le> u"
    have "\<forall>sp\<in>set (spans_from l (split_bounded blake3 (items_in R l u) u budget)). snd (snd sp) \<noteq> Skip"
      if "IDLIST_LIMIT < length (items_in R l u)"
      using split_bounded_spans [OF assms(1) sp(2) refl, of blake3 budget] that by fastforce
    then have "\<forall>sp\<in>set (spans_from l (fst (respond_span blake3 (items_in R l u) budget (l, u, md)))).
        snd (snd sp) = Skip \<longrightarrow> sp = (l, u, Skip)"
      by (cases md) (auto simp: Let_def not_le)
    then show "\<forall>sp\<in>set (spans_from l (fst (respond_span blake3 (items_in R l u) budget (l, u, md)))).
        snd (snd sp) = Skip \<longrightarrow> (\<exists>md. (fst sp, fst (snd sp), md) \<in> set (spans m) \<and> P (fst sp) (fst (snd sp)) md)"
      using assms(4) [OF sp, of budget] sp(1) by fastforce
  qed
  then show ?thesis
    using assms(5) by fastforce
qed

lemma reopened_mode_wf:
  assumes "\<And>x. length (blake3 x) = 32" "mode_wf (rg_mode r)"
  shows "mode_wf (rg_mode (reopened blake3 items omitted sps r))"
proof (cases rule: reopened_mode [of blake3 items omitted sps r])
  case (changed l md)
  then show ?thesis
    by (simp add: fingerprint_def assms(1))
qed (use assms(2) in simp)

lemma reopen_wf:
  assumes "\<And>x. length (blake3 x) = 32" "message_wf reply"
  shows "message_wf (reopen_omitted blake3 reply m items omitted)"
proof -
  let ?f = "reopened blake3 items (set omitted) (spans m)" and ?rs = "msg_ranges reply"
  have "rg_upper \<circ> ?f = rg_upper"
    by (simp add: fun_eq_iff)
  moreover have "rg_upper (last (map ?f ?rs)) = rg_upper (last ?rs)" if "?rs \<noteq> []"
    using that by (simp add: last_map)
  moreover have "\<forall>r\<in>set (map ?f ?rs). mode_wf (rg_mode r)"
    using assms(2) reopened_mode_wf [OF assms(1)] by (simp add: message_wf_def)
  ultimately have "message_wf \<lparr>msg_ranges = map ?f ?rs\<rparr>"
    using assms(2) by (simp add: message_wf_def cover_def)
  then show ?thesis
    using assms(2) by (simp add: reopen_omitted_def reopen_loop_map)
qed

lemma reopen_spans:
  assumes "(l, u, md') \<in> set (spans (reopen_omitted blake3 reply m items omitted))"
  obtains (kept) "(l, u, md') \<in> set (spans reply)"
    "\<And>l0 md. (l0, u, md) \<in> set (spans m) \<Longrightarrow> \<forall>i\<in>set (items_in items l0 u). it_id i \<notin> set omitted"
  | (fresh) l0 md md0 where "(l0, u, md) \<in> set (spans m)" "(l, u, md0) \<in> set (spans reply)"
    "items_in items l0 u \<noteq> []"
    "md' = Fingerprint (fingerprint blake3 (items_in items l0 u))"
proof (cases "omitted = []")
  case True
  then show ?thesis
    using assms by (intro kept) (simp_all add: reopen_omitted_def)
next
  case False
  then have "(l, u, md') \<in> set (spans_from 0 (map (reopened blake3 items (set omitted) (spans m)) (msg_ranges reply)))"
    using assms by (simp add: reopen_omitted_def reopen_loop_map spans_def [of "\<lparr>msg_ranges = _\<rparr>"])
  from spans_from_map [OF rg_upper_reopened this] obtain r where r: "(l, u, rg_mode r) \<in> set (spans reply)" "rg_upper r = u"
    "md' = rg_mode (reopened blake3 items (set omitted) (spans m) r)"
    by (auto simp: spans_def [of reply])
  show ?thesis
  proof (cases rule: reopened_mode [of blake3 items "set omitted" "spans m" r])
    case same
    then show ?thesis
      using r by (intro kept) auto
  next
    case (changed l0 md)
    then show ?thesis
      using r by (intro fresh [of l0 md "rg_mode r"]) auto
  qed
qed

text \<open>C29. A batch cut short never settles what it left out: the reply that closes a round decodes at
  the client, and none of its settled ranges contains an item whose envelope the round omitted,
  whether for the frame count, for the bytes or because the queue filled up while the log was read.\<close>

theorem omitted_stays_open:
  assumes "local_ok items" "\<And>x. length (blake3 x) = 32" "message_decode payload = Inr m"
    "sync_batch blake3 m items omitted envelopes q = (sent, reply)"
  shows "message_decode (message_encode reply) = Inr reply \<and>
    (\<forall>l u i. (l, u, Skip) \<in> set (spans reply) \<longrightarrow> i \<in> set items \<longrightarrow> l \<le> it_seq i \<longrightarrow> it_seq i < u \<longrightarrow>
      it_id i \<notin> set omitted \<union> fst ` set (drop (length sent) envelopes))"
proof -
  have m: "message_wf m"
    using recon.dec_sound [OF assms(3)] by simp
  define n where "n = min (fits_in_budget envelopes (push_byte_allowance q) (\<lambda>(_, bs). push_cost bs)) (push_frame_allowance q)"
  define om where "om = omitted @ map fst (drop n envelopes)"
  have reply: "reply = reopen_omitted blake3 (resp_reply (respond blake3 items m)) m items om"
    and sent: "sent = take n envelopes"
    using assms(4) by (simp_all add: sync_batch_def n_def om_def Let_def)
  have om: "set om = set omitted \<union> fst ` set (drop (length sent) envelopes)"
    by (auto simp: om_def sent min_def)
  have wf: "message_wf (resp_reply (respond blake3 items m))"
    unfolding respond_reply by (rule relay.answer_message_wf [OF assms(1,2) m])
  have "it_id i \<notin> set om"
    if skip: "(l, u, Skip) \<in> set (spans reply)" and i: "i \<in> set items" "l \<le> it_seq i" "it_seq i < u" for l u i
    using skip unfolding reply
  proof (cases rule: reopen_spans)
    case kept
    obtain md where "(l, u, md) \<in> set (spans m)"
      using respond_skip_span [OF assms(1,2) m _ kept(1), of "\<lambda>_ _ _. True"] by blast
    moreover have "i \<in> set (items_in items l u)"
      using i assms(1) less_imp_le [OF order.strict_trans1 [OF i(2,3)]] by (simp add: items_in_eq local_ok_def)
    ultimately show ?thesis
      using kept(2) by blast
  qed simp
  then show ?thesis
    using reopen_wf [OF assms(2) wf] by (simp add: om [symmetric] recon.dec_iff reply)
qed

theorem omitted_stays_open_witness:
  "\<lparr>it_seq = 5, it_id = replicate 32 5\<rparr> \<in> set sample_items \<and>
   (\<nexists>l u. (l, u, Skip) \<in> set (spans (snd (sync_batch zero_hash ask_all sample_items [replicate 32 5] [] outbound_channel))) \<and>
     l \<le> 5 \<and> 5 < u)"
proof -
  obtain sent reply where b: "sync_batch zero_hash ask_all sample_items [replicate 32 5] [] outbound_channel = (sent, reply)"
    by (cases "sync_batch zero_hash ask_all sample_items [replicate 32 5] [] outbound_channel")
  have "length (zero_hash x) = 32" for x
    by (simp add: zero_hash_def)
  moreover have i: "\<lparr>it_seq = 5, it_id = replicate 32 5\<rparr> \<in> set sample_items"
    by (simp add: sample_items_def)
  ultimately show ?thesis
    using omitted_stays_open [OF sample_local_ok _ ask_all_decodes b] by (fastforce simp: b)
qed

subsection \<open>The exchange as it is served\<close>

lemma spans_from_lower:
  "sorted_wrt (<) (map rg_upper rs) \<Longrightarrow> \<forall>r\<in>set rs. lower \<le> rg_upper r \<Longrightarrow>
    (l, u, md) \<in> set (spans_from lower rs) \<Longrightarrow> lower \<le> l"
proof (induction rs arbitrary: lower)
  case (Cons r rs)
  have "\<forall>x\<in>set rs. rg_upper r \<le> rg_upper x"
    using Cons.prems(1) by (auto intro: less_imp_le)
  then show ?case
    using Cons by (auto intro: order_trans)
qed simp

text \<open>Two spans of one message that end at the same bound are the same span, and one that ends
  earlier ends before the other begins.\<close>

lemma spans_from_upper: "(l, u, md) \<in> set (spans_from lower rs) \<Longrightarrow> u \<in> rg_upper ` set rs"
  by (induction rs arbitrary: lower) auto

lemma spans_apart:
  "sorted_wrt (<) (map rg_upper rs) \<Longrightarrow> \<forall>r\<in>set rs. lower \<le> rg_upper r \<Longrightarrow>
    (l, u, md) \<in> set (spans_from lower rs) \<Longrightarrow> (l', u', md') \<in> set (spans_from lower rs) \<Longrightarrow>
    (u < u' \<and> u \<le> l') \<or> (u' < u \<and> u' \<le> l) \<or> (l = l' \<and> u = u')"
proof (induction rs arbitrary: lower)
  case (Cons r rs)
  have above: "\<forall>x\<in>set rs. rg_upper r \<le> rg_upper x" "sorted_wrt (<) (map rg_upper rs)"
    using Cons.prems(1) by (auto intro: less_imp_le)
  have "rg_upper r < u \<and> rg_upper r \<le> l" if "(l, u, md) \<in> set (spans_from (rg_upper r) rs)" for l u md
    using spans_from_upper [OF that] spans_from_lower [OF above(2,1) that] Cons.prems(1) by auto
  then show ?case
    using Cons.prems(3,4) Cons.IH [OF above(2,1)] by auto
qed simp

lemma span_floor:
  "sorted_wrt (<) (map rg_upper rs) \<Longrightarrow> \<forall>r\<in>set rs. lower \<le> rg_upper r \<Longrightarrow>
    (l, u, md) \<in> set (spans_from lower rs) \<Longrightarrow> floor_from lower rs \<le> l \<or> (md = Skip \<and> u \<le> floor_from lower rs)"
proof (induction rs arbitrary: lower)
  case (Cons r rs)
  have above: "\<forall>x\<in>set rs. rg_upper r \<le> rg_upper x"
    using Cons.prems(1) by (auto intro: less_imp_le)
  show ?case
  proof (cases "rg_mode r = Skip")
    case True
    then show ?thesis
      using Cons above floor_from_ge [of rs "rg_upper r"] by auto
  next
    case False
    have "lower \<le> l"
      using Cons.prems(2,3) spans_from_lower [of "r # rs" lower l u md] Cons.prems(1) by simp
    then show ?thesis
      using False by simp
  qed
qed simp

lemma reply_span_lower:
  assumes "local_ok R" "\<And>x. length (blake3 x) = 32" "message_wf m"
    "(l', u, md') \<in> set (spans (resp_reply (respond blake3 R m)))" "(l0, u, md0) \<in> set (spans m)"
  shows "l0 \<le> l'"
proof -
  have "\<forall>sp\<in>set (spans (resp_reply (respond blake3 R m))).
    \<forall>l0 md0. (l0, fst (snd sp), md0) \<in> set (spans m) \<longrightarrow> l0 \<le> fst sp"
  proof (rule respond_reply_spans [OF assms(1-3)], intro ballI allI impI)
    fix l u md sp l0 md0 and budget :: nat
    let ?new = "fst (respond_span blake3 (items_in R l u) budget (l, u, md))"
    assume lu: "(l, u, md) \<in> set (spans m)" "l \<le> u" "1 \<le> budget" and sp: "sp \<in> set (spans_from l ?new)"
      and l0: "(l0, fst (snd sp), md0) \<in> set (spans m)"
    obtain l' u' md' where eq: "sp = (l', u', md')"
      by (cases sp)
    have ok: "answer_ok l u budget ?new"
      using relay.answers [OF slice_ok_items_in [OF assms(1) lu(2)] lu(3) assms(2)] .
    have up: "\<forall>r\<in>set ?new. l \<le> rg_upper r" "sorted_wrt (<) (map rg_upper ?new)"
      using ok lu(2) by (auto simp: answer_ok_def)
    have "l \<le> l'"
      using spans_from_lower [OF up(2,1)] sp eq by blast
    moreover have "u' = u \<or> l < u'" "u' \<le> u"
      using spans_from_upper [of l' u' md' l ?new] sp eq ok ascending_le_last [OF up(2)]
      by (auto simp: answer_ok_def last_map)
    moreover have "(u < u' \<and> u \<le> l0) \<or> (u' < u \<and> u' \<le> l) \<or> (l = l0 \<and> u = u')"
      using spans_apart [of "msg_ranges m" 0 l u md l0 u' md0] lu(1) l0 eq assms(3)
      by (simp add: message_wf_def cover_def spans_def)
    ultimately show "l0 \<le> fst sp"
      by (auto simp: eq)
  qed
  then show ?thesis
    using assms(4,5) by fastforce
qed

text \<open>A round over the items it read: every id of the first cut was found, and the batch was cut to
  whatever the queue had room for.\<close>

definition round_on :: "(bytes \<Rightarrow> bytes) \<Rightarrow> item list \<Rightarrow> message \<Rightarrow> message \<Rightarrow> id set \<Rightarrow> bool" where
  "round_on blake3 items m reply Q \<longleftrightarrow>
    (\<exists>n envelopes q sent.
       map fst envelopes = take n (resp_push (respond blake3 items m)) \<and>
       sync_batch blake3 m items (drop n (resp_push (respond blake3 items m))) envelopes q = (sent, reply) \<and>
       Q = fst ` set sent)"

text \<open>A served round over a log \<open>L\<close>: the items are the window \<open>log::items\<close> reads, the first
  \<open>MAX_ITEMS_PER_RECONCILE\<close> at or above the floor.\<close>

definition window :: "message \<Rightarrow> item list \<Rightarrow> item list" where
  "window m L = take MAX_ITEMS_PER_RECONCILE (filter (\<lambda>i. unsettled_floor m \<le> it_seq i) L)"

definition served_turn :: "(bytes \<Rightarrow> bytes) \<Rightarrow> item list \<Rightarrow> message \<Rightarrow> message \<Rightarrow> id set \<Rightarrow> bool" where
  "served_turn blake3 L m reply Q \<longleftrightarrow> round_on blake3 (window m L) m reply Q"

text \<open>What a round can see of a log: what lies below the floor, which the client has settled, and the window.\<close>

definition in_view :: "message \<Rightarrow> item list \<Rightarrow> item list" where
  "in_view m L = filter (\<lambda>i. it_seq i < unsettled_floor m) L @ window m L"

lemma filter_in_view:
  "filter (\<lambda>i. unsettled_floor m \<le> it_seq i) (in_view m L) = window m L"
proof -
  have "\<forall>i\<in>set (window m L). unsettled_floor m \<le> it_seq i"
    by (auto simp: window_def dest: in_set_takeD)
  then show ?thesis
    by (auto simp: in_view_def filter_empty_conv filter_id_conv)
qed

lemma in_view_ok:
  assumes "local_ok L"
  shows "local_ok (in_view m L)"
proof -
  let ?low = "filter (\<lambda>i. it_seq i < unsettled_floor m) L" and ?high = "filter (\<lambda>i. unsettled_floor m \<le> it_seq i) L"
  have "L = ?low @ ?high"
    using seq_sorted_split [of L "unsettled_floor m"] assms by (simp add: local_ok_def)
  moreover have "in_view m L = take (length ?low + MAX_ITEMS_PER_RECONCILE) (?low @ ?high)"
    by (simp add: in_view_def window_def)
  ultimately have "in_view m L = take (length ?low + MAX_ITEMS_PER_RECONCILE) L"
    by simp
  then show ?thesis
    using assms by (auto simp: local_ok_def sorted_wrt_take take_map [symmetric] dest: in_set_takeD)
qed

text \<open>The turn of the exchange: the relay's items are what the round can see of its log.\<close>

definition log_turn :: "(bytes \<Rightarrow> bytes) \<Rightarrow> item list \<Rightarrow> message \<Rightarrow> message \<Rightarrow> id set \<Rightarrow> bool" where
  "log_turn blake3 R m reply Q \<longleftrightarrow> (\<exists>L. local_ok L \<and> R = in_view m L \<and> served_turn blake3 L m reply Q)"

lemma log_turn_round:
  assumes "log_turn blake3 R m reply Q"
  shows "round_on blake3 (filter (\<lambda>i. unsettled_floor m \<le> it_seq i) R) m reply Q"
  using assms by (auto simp: log_turn_def served_turn_def filter_in_view)

lemma round_onE:
  assumes "round_on blake3 (filter (\<lambda>i. unsettled_floor m \<le> it_seq i) R) m reply Q" "local_ok R" "message_wf m"
  obtains om where "set (resp_push (respond blake3 R m)) = Q \<union> set om"
    "reply = reopen_omitted blake3 (resp_reply (respond blake3 R m)) m (filter (\<lambda>i. unsettled_floor m \<le> it_seq i) R) om"
proof -
  let ?items = "filter (\<lambda>i. unsettled_floor m \<le> it_seq i) R" and ?push = "resp_push (respond blake3 R m)"
  have same: "respond blake3 ?items m = respond blake3 R m"
    using respond_loop_floor [of R "msg_ranges m" 0 "unsettled_floor m" blake3 "([], {})"] assms(2,3)
    by (simp add: respond_def spans_def unsettled_floor_def message_wf_def cover_def local_ok_def)
  from assms(1) obtain n envelopes q sent where t: "map fst envelopes = take n ?push"
    "sync_batch blake3 m ?items (drop n ?push) envelopes q = (sent, reply)" "Q = fst ` set sent"
    by (auto simp: round_on_def same)
  define k where "k = min (fits_in_budget envelopes (push_byte_allowance q) (\<lambda>(_, bs). push_cost bs)) (push_frame_allowance q)"
  have "set ?push = fst ` set envelopes \<union> set (drop n ?push)"
    using t(1) by (metis append_take_drop_id set_append set_map)
  also have "fst ` set envelopes = fst ` set (take k envelopes) \<union> set (map fst (drop k envelopes))"
    by (metis append_take_drop_id image_Un set_append set_map)
  finally show ?thesis
    using t(2,3) by (intro that [of "drop n ?push @ map fst (drop k envelopes)"])
      (auto simp: sync_batch_def k_def Let_def same)
qed

lemma window_slice:
  assumes "local_ok R" "message_wf m" "(l, u, md) \<in> set (spans m)"
    "items_in (filter (\<lambda>i. unsettled_floor m \<le> it_seq i) R) l u \<noteq> []"
  shows "items_in (filter (\<lambda>i. unsettled_floor m \<le> it_seq i) R) l u = items_in R l u"
proof -
  have lu: "l \<le> u" and sorted: "seq_sorted R"
    using spans_le [OF assms(2,3)] assms(1) by (simp_all add: local_ok_def)
  obtain i where "i \<in> set (items_in (filter (\<lambda>i. unsettled_floor m \<le> it_seq i) R) l u)"
    using assms(4) by (cases "items_in (filter (\<lambda>i. unsettled_floor m \<le> it_seq i) R) l u") auto
  then have "\<not> u \<le> unsettled_floor m"
    using sorted_filter [OF sorted, of "\<lambda>i. unsettled_floor m \<le> it_seq i"] lu by (auto simp: items_in_eq)
  then have "unsettled_floor m \<le> l"
    using span_floor [of "msg_ranges m" 0 l u md] assms(2,3)
    by (auto simp: spans_def unsettled_floor_def message_wf_def cover_def)
  then show ?thesis
    using sorted lu by (intro items_in_filter_from)
qed

lemma served_skip_delivered:
  assumes "local_ok R" "local_ok C" "no_collision blake3 R C" "set R0 \<subseteq> set R" "\<And>x. length (blake3 x) = 32" "message_wf m"
    "\<forall>sp\<in>set (spans m). sent_ok blake3 C R0 K sp" "it_id ` set C \<subseteq> K"
    "set (resp_push (respond blake3 R m)) = Q \<union> set om"
    "(l, u, Skip) \<in> set (spans (resp_reply (respond blake3 R m)))"
    "\<And>l0 md. (l0, u, md) \<in> set (spans m) \<Longrightarrow>
      \<forall>i\<in>set (items_in (filter (\<lambda>i. unsettled_floor m \<le> it_seq i) R) l0 u). it_id i \<notin> set om"
  shows "delivered R0 (K \<union> Q) (l, u, Skip)"
proof -
  have single: "delivered R0 (K \<union> span_push R (l, u, md)) (l, u, Skip)"
    if "(l, u, md) \<in> set (spans m)" "l \<le> u"
      "(l, u, Skip) \<in> set (spans_from l (fst (respond_span blake3 (items_in R l u) budget (l, u, md))))" for l u md budget
    using relay_span_sent_ok [OF assms(1-4) that(2) _ assms(8) subset_refl, of md budget] that(1,3) assms(7)
    by (fastforce simp: sent_ok_def)
  have "\<exists>md. (l, u, md) \<in> set (spans m) \<and> delivered R0 (K \<union> span_push R (l, u, md)) (l, u, Skip)"
    by (rule respond_skip_span [OF assms(1,5,6) single assms(10)])
  then obtain md where md: "(l, u, md) \<in> set (spans m)"
    "delivered R0 (K \<union> span_push R (l, u, md)) (l, u, Skip)"
    by blast
  have "span_push R (l, u, md) \<subseteq> Q"
  proof
    fix x
    assume x: "x \<in> span_push R (l, u, md)"
    then obtain theirs i where "md = IdList theirs" and i: "i \<in> set (items_in R l u)" "x = it_id i"
      by (auto simp: span_push_def split: mode.splits)
    then have "unsettled_floor m \<le> l"
      using span_floor [of "msg_ranges m" 0 l u md] md(1) assms(6)
      by (simp add: spans_def unsettled_floor_def message_wf_def cover_def)
    then have "items_in (filter (\<lambda>i. unsettled_floor m \<le> it_seq i) R) l u = items_in R l u"
      using assms(1) spans_le [OF assms(6) md(1)] by (intro items_in_filter_from) (auto simp: local_ok_def)
    then have "x \<notin> set om"
      using assms(11) [OF md(1)] i by auto
    moreover have "x \<in> set (resp_push (respond blake3 R m))"
      using x md(1) by (auto simp: set_resp_push)
    ultimately show "x \<in> Q"
      using assms(9) by auto
  qed
  then show ?thesis
    using delivered_mono [OF md(2), of "K \<union> Q"] by blast
qed

interpretation served: relay_turn log_turn
proof (unfold_locales, goal_cases)
  case (1 blake3 R m reply Q)
  from log_turn_round [OF 1(1)] 1(2,4) obtain om where
    "reply = reopen_omitted blake3 (resp_reply (respond blake3 R m)) m (filter (\<lambda>i. unsettled_floor m \<le> it_seq i) R) om"
    by (rule round_onE)
  moreover have "message_wf (resp_reply (respond blake3 R m))"
    unfolding respond_reply by (rule relay.answer_message_wf [OF 1(2-4)])
  ultimately show ?case
    using reopen_wf [OF 1(3)] by simp
next
  case (2 blake3 R m reply Q C R0 K)
  let ?items = "filter (\<lambda>i. unsettled_floor m \<le> it_seq i) R"
  from log_turn_round [OF 2(1)] 2(2,7) obtain om where om: "set (resp_push (respond blake3 R m)) = Q \<union> set om"
    "reply = reopen_omitted blake3 (resp_reply (respond blake3 R m)) m ?items om"
    by (rule round_onE)
  have full: "\<forall>sp\<in>set (spans (resp_reply (respond blake3 R m))).
      sent_ok blake3 R R0 (K \<union> set (resp_push (respond blake3 R m))) sp"
    by (rule relay_message_ok [OF 2(2-9)])
  show ?case
  proof
    fix sp
    assume mem: "sp \<in> set (spans reply)"
    obtain l u md where sp: "sp = (l, u, md)"
      by (cases sp)
    have "(l, u, md) \<in> set (spans (reopen_omitted blake3 (resp_reply (respond blake3 R m)) m ?items om))"
      using mem by (simp only: om(2) sp)
    then show "sent_ok blake3 R R0 (K \<union> Q) sp"
    proof (cases rule: reopen_spans)
      case kept
      have "says blake3 R sp"
        using full kept(1) sp by (auto simp: sent_ok_def)
      moreover have "delivered R0 (K \<union> Q) (l, u, Skip)" if "md = Skip"
        using that kept by (intro served_skip_delivered [OF 2(2-9) om(1)]) auto
      ultimately show ?thesis
        using sp by (auto simp: sent_ok_def)
    next
      case (fresh l0 md1 md0)
      have "l0 \<le> l"
        by (rule reply_span_lower [OF 2(2,6,7) fresh(2,1)])
      moreover have "items_in ?items l0 u = items_in R l0 u"
        by (rule window_slice [OF 2(2,7) fresh(1,3)])
      ultimately show ?thesis
        using fresh(4) sp by (auto simp: sent_ok_def says_def)
    qed
  qed
qed

lemma push_ids:
  assumes "local_ok R"
  shows "distinct (resp_push (respond blake3 R m))" "\<forall>i\<in>set (resp_push (respond blake3 R m)). i \<in> it_id ` set R \<and> length i = 32"
proof -
  show "distinct (resp_push (respond blake3 R m))"
    by (simp add: respond_def case_prod_beta)
  have "span_push R sp \<subseteq> it_id ` set R" for sp
    using in_set_takeD in_set_dropD by (fastforce simp: span_push_def items_in_def Let_def split: mode.splits prod.splits)
  then have "set (resp_push (respond blake3 R m)) \<subseteq> it_id ` set R"
    unfolding set_resp_push by blast
  then show "\<forall>i\<in>set (resp_push (respond blake3 R m)). i \<in> it_id ` set R \<and> length i = 32"
    using assms by (auto simp: local_ok_def)
qed

lemma reconcile_served:
  assumes "db_ok d" "seqs_in_range d" "message_decode payload = Inr m"
  shows "\<exists>sent reply. served_turn blake3 (group_items d grp) m reply (fst ` set sent) \<and>
    (\<forall>(i, bs)\<in>set sent. envelope_bytes d grp i = Some bs) \<and>
    reconcile blake3 (Some (log_database d)) drift drift' q grp payload =
      queue_all (drift' (drift q)) (map (\<lambda>(_, bs). FPush bs) sent @ [FRecon grp (message_encode reply)])"
proof -
  let ?items = "window m (group_items d grp)"
  define push where "push = resp_push (respond blake3 ?items m)"
  define n where "n = push_frame_allowance (drift q)"
  define envelopes where "envelopes = envelopes_for d grp (take n push)"
  have items: "log_items d grp (unsettled_floor m) = ?items"
    using group_items_ok(2) [OF assms(1,2)] by (simp add: window_def)
  have sub: "set ?items \<subseteq> set (group_items d grp)"
    by (auto simp: window_def dest: in_set_takeD)
  have ok: "local_ok ?items"
    using group_items_ok(1) [OF assms(1,2), of grp] sub
    by (auto simp: local_ok_def window_def sorted_filter take_map [symmetric] intro!: sorted_wrt_take)
  note ids = push_ids [OF ok, of blake3 m, folded push_def]
  have dist: "distinct (take n push)" and len: "\<forall>i\<in>set (take n push). length i = 32"
    using ids set_take_subset [of n push] by auto
  have "\<forall>i\<in>set (take n push). envelope_bytes d grp i \<noteq> None"
    using ids(2) set_take_subset [of n push] group_items_ok(3) [OF assms(1,2)] sub by fastforce
  then have fst: "map fst envelopes = take n push"
    unfolding envelopes_def by (rule map_fst_envelopes_for [OF assms(1) dist len])
  obtain sent reply where b: "sync_batch blake3 m ?items (drop n push) envelopes (drift' (drift q)) = (sent, reply)"
    by (cases "sync_batch blake3 m ?items (drop n push) envelopes (drift' (drift q))")
  then have "set sent \<subseteq> set envelopes"
    by (auto simp: sync_batch_def Let_def dest: in_set_takeD)
  then have "\<forall>(i, bs)\<in>set sent. envelope_bytes d grp i = Some bs"
    using envelopes_for_bytes [OF assms(1) dist len] by (auto simp: envelopes_def)
  moreover have "served_turn blake3 (group_items d grp) m reply (fst ` set sent)"
    using fst b unfolding served_turn_def round_on_def push_def by blast
  moreover have "reconcile blake3 (Some (log_database d)) drift drift' q grp payload =
      queue_all (drift' (drift q)) (map (\<lambda>(_, bs). FPush bs) sent @ [FRecon grp (message_encode reply)])"
    using b by (simp add: reconcile_def assms(3) log_database_def items Let_def push_def n_def envelopes_def)
  ultimately show ?thesis
    by blast
qed

text \<open>C3. A RECON round over the real log is a served turn: when no read fails, the relay queues, in order,
  the stored envelopes of a batch and one reply, and batch and reply are those of a served turn over the
  log of the group, that is over the first 100,000 items at or above the lowest bound the client has
  not settled, whatever other connections do to the queue while the log is read. Sequence numbers are
  below the largest a signed column holds.\<close>

theorem reconcile_is_served_turn:
  assumes "db_ok d" "seqs_in_range d" "message_decode payload = Inr m"
  shows "\<exists>sent reply. served_turn blake3 (group_items d grp) m reply (fst ` set sent) \<and>
    (\<forall>(i, bs)\<in>set sent. envelope_bytes d grp i = Some bs) \<and>
    reconcile blake3 (Some (log_database d)) drift drift' q grp payload =
      queue_all (drift' (drift q)) (map (\<lambda>(_, bs). FPush bs) sent @ [FRecon grp (message_encode reply)])"
  by (rule reconcile_served [OF assms])

text \<open>C1. An exchange that ends has delivered what its rounds could see, also when every batch is cut to what
  the client's queue has room for: run any number of served rounds, with further writes at the relay
  in between, until the client has nothing to say; then every envelope that in each of the rounds was
  below the client's floor or among the first 100,000 above it is one the client holds or one that was
  pushed to it. Slices that differ are assumed to have different fingerprints, and sequence numbers to
  be below the upper end of the last range.\<close>

theorem served_exchange_delivers:
  assumes "\<And>x. length (blake3 x) = 32" "exchange log_turn blake3 R0 C m P"
    "local_ok L" "set R0 \<subseteq> set (in_view m L)" "no_collision blake3 (in_view m L) C" "served_turn blake3 L m reply Q"
    "local_ok C'" "it_id ` set C \<subseteq> it_id ` set C'" "no_collision blake3 (in_view m L) C'"
    "done_step (advance_client blake3 C' reply)" "i \<in> set R0" "it_seq i < INFINITY"
  shows "it_id i \<in> it_id ` set C' \<union> (P \<union> Q)"
  using served.ended_exchange_delivered [OF assms(1,2) in_view_ok [OF assms(3)] assms(4,5) _ assms(7-12)] assms(3,6)
  by (auto simp: log_turn_def)

lemma one_item_served:
  "served_turn last_bytes [one_item] (initiate last_bytes [])
     (resp_reply (respond last_bytes [one_item] (initiate last_bytes [])))
     (fst ` set (fst (sync_batch last_bytes (initiate last_bytes []) [one_item] [] [(replicate 32 7, [])] outbound_channel)))"
proof -
  let ?m = "initiate last_bytes []" and ?e = "[(replicate 32 7, [])] :: (id \<times> bytes) list"
  have "filter (\<lambda>i. unsettled_floor ?m \<le> it_seq i) [one_item] = [one_item]" and
    push: "resp_push (respond last_bytes [one_item] ?m) = [replicate 32 7]"
    by code_simp+
  then have "window ?m [one_item] = [one_item]"
    by (simp add: window_def MAX_ITEMS_PER_RECONCILE_def)
  moreover have "push_byte_allowance outbound_channel = SYNC_PUSH_BYTES" "push_frame_allowance outbound_channel = 255"
    by (simp_all add: push_byte_allowance_def push_frame_allowance_def outbound_channel_def ob_queued_bytes_def
        SYNC_PUSH_BYTES_def SYNC_PUSH_LIMIT_def free_slots_def SEND_QUEUE_BOUND_def)
  moreover have "fits_in_budget ?e SYNC_PUSH_BYTES (\<lambda>(_, bs). push_cost bs) = 1"
    by (simp add: fits_in_budget_def SYNC_PUSH_BYTES_def SEND_QUEUE_BYTE_BUDGET_def MAX_FRAME_BYTES_def Let_def)
  ultimately have "sync_batch last_bytes ?m [one_item] [] ?e outbound_channel =
      (?e, resp_reply (respond last_bytes [one_item] ?m))"
    by (simp add: sync_batch_def reopen_omitted_def)
  then show ?thesis
    unfolding served_turn_def round_on_def using push \<open>window _ _ = _\<close>
    by (intro exI [where x = 1] exI [where x = ?e] exI [where x = outbound_channel]) simp
qed

theorem served_exchange_delivers_witness:
  "it_id one_item \<in> fst ` set (fst (sync_batch last_bytes (initiate last_bytes []) [one_item] [] [(replicate 32 7, [])] outbound_channel))"
proof -
  have "done_step (advance_client last_bytes [] (resp_reply (respond last_bytes [one_item] (initiate last_bytes []))))"
    by code_simp
  moreover have "exchange log_turn last_bytes [one_item] [] (initiate last_bytes []) {}"
    by (rule exchange.start) (simp_all add: one_item_ok)
  moreover have "in_view (initiate last_bytes []) [one_item] = [one_item]"
    by (simp add: in_view_def window_def unsettled_floor_def initiate_def one_item_def MAX_ITEMS_PER_RECONCILE_def)
  ultimately show ?thesis
    using served_exchange_delivers [OF last_bytes_length _ _ _ _ one_item_served, of "[one_item]" "[]" "{}" "[]" one_item]
      one_item_ok one_item_no_collision
    by (simp add: one_item_def INFINITY_def)
qed

text \<open>A log of one accepted envelope.\<close>

definition one_row_db :: db where
  "one_row_db = fresh_db\<lparr>db_groups := [replicate 32 9 \<mapsto> \<lparr>gr_workspace = ''w'', gr_next_seq = 2, gr_frozen = None\<rparr>],
    db_envelopes := [new_row (first_envelope 3) 1 1000]\<rparr>"

theorem reconcile_is_served_turn_witness:
  "group_items one_row_db (replicate 32 9) = [\<lparr>it_seq = 1, it_id = replicate 32 5\<rparr>] \<and>
   (\<exists>sent reply. served_turn zero_hash [\<lparr>it_seq = 1, it_id = replicate 32 5\<rparr>] ask_all reply (fst ` set sent) \<and>
     (\<forall>(i, bs)\<in>set sent. envelope_bytes one_row_db (replicate 32 9) i = Some bs) \<and>
     reconcile zero_hash (Some (log_database one_row_db)) id id outbound_channel (replicate 32 9) (message_encode ask_all) =
       queue_all outbound_channel (map (\<lambda>(_, bs). FPush bs) sent @ [FRecon (replicate 32 9) (message_encode reply)]))"
proof -
  have "db_ok one_row_db" "seqs_in_range one_row_db"
    by (auto simp: db_ok_def one_row_db_def fresh_db_def row_ok_def new_row_def first_envelope_def seqs_in_range_def I64_MAX_def)
  moreover have "group_items one_row_db (replicate 32 9) = [\<lparr>it_seq = 1, it_id = replicate 32 5\<rparr>]"
    by (simp add: group_items_def rows_from_def one_row_db_def fresh_db_def new_row_def first_envelope_def clamp_i64_def
      I64_MAX_def row_to_item_def u64_or_zero_def)
  ultimately show ?thesis
    using reconcile_is_served_turn [OF _ _ ask_all_decodes, of one_row_db zero_hash "replicate 32 9" id id outbound_channel]
    by simp
qed

subsection \<open>The cut of the window\<close>

lemma advance_loop_skips:
  "\<forall>sp\<in>set sps. snd (snd sp) = Skip \<Longrightarrow> snd (snd (snd (advance_loop blake3 C (ranges, want, send, say) sps))) = say"
proof (induction sps arbitrary: ranges want send say)
  case (Cons sp sps)
  then show ?case
    by (cases sp) (auto simp: Let_def)
qed simp

lemma all_skip_done: "\<forall>sp\<in>set (spans reply). snd (snd sp) = Skip \<Longrightarrow> done_step (advance_client blake3 C reply)"
  using advance_loop_skips [of "spans reply" blake3 C "[]" "{}" "{}" False]
  by (simp add: done_step_def advance_client_def case_prod_beta)

lemma own_message_settles:
  assumes "local_ok C" "\<And>x. length (blake3 x) = 32" "message_wf m" "\<forall>sp\<in>set (spans m). tells blake3 C sp"
  shows "resp_push (respond blake3 C m) = []"
    "\<forall>sp\<in>set (spans (resp_reply (respond blake3 C m))). snd (snd sp) = Skip"
proof -
  have "span_push C sp = {}" if "sp \<in> set (spans m)" for sp
    using assms(4) that by (cases sp; cases "snd (snd sp)") (fastforce simp: tells_def span_push_def)+
  then have "set (resp_push (respond blake3 C m)) = {}"
    by (simp add: set_resp_push)
  then show "resp_push (respond blake3 C m) = []"
    by simp
  show "\<forall>sp\<in>set (spans (resp_reply (respond blake3 C m))). snd (snd sp) = Skip"
  proof (rule respond_reply_spans [OF assms(1-3)])
    fix l u md and budget :: nat
    assume "(l, u, md) \<in> set (spans m)"
    then have "tells blake3 C (l, u, md)"
      using assms(4) by blast
    then show "\<forall>sp\<in>set (spans_from l (fst (respond_span blake3 (items_in C l u) budget (l, u, md)))). snd (snd sp) = Skip"
      by (cases md) (simp_all add: tells_def Let_def)
  qed
qed

lemma initiate_long:
  assumes "local_ok C" "\<forall>i\<in>set C. it_seq i < INFINITY" "IDLIST_LIMIT < length C" "\<And>x. length (blake3 x) = 32"
  shows "\<forall>sp\<in>set (spans (initiate blake3 C)). tells blake3 C sp" "unsettled_floor (initiate blake3 C) = 0"
proof -
  have all: "items_in C 0 INFINITY = C"
    using assms(1,2) by (simp add: items_in_eq local_ok_def filter_id_conv)
  have "C \<noteq> []"
    using assms(3) by auto
  then have sp: "\<forall>sp\<in>set (spans (initiate blake3 C)). tells blake3 C sp \<and> snd (snd sp) \<noteq> Skip"
    using split_bounded_spans [OF assms(1), of 0 INFINITY C] all assms(3)
    by (simp add: spans_def initiate_def split_items_def)
  then show "\<forall>sp\<in>set (spans (initiate blake3 C)). tells blake3 C sp"
    by blast
  show "unsettled_floor (initiate blake3 C) = 0"
    using sp by (cases "msg_ranges (initiate blake3 C)") (auto simp: spans_def unsettled_floor_def)
qed

text \<open>C30. What lies above the window can be lost: a client that holds the first 100,000 envelopes of a larger
  log and opens an exchange is told by the one round it takes that everything is settled, up to the
  end of the last range, and has nothing to say; it is sent nothing, and an envelope beyond the first
  100,000 is neither held nor pushed.\<close>

theorem window_cut_settles:
  assumes "\<And>x. length (blake3 x) = 32" "local_ok L" "distinct (map it_id L)" "\<forall>i\<in>set L. it_seq i < INFINITY"
    "C = take MAX_ITEMS_PER_RECONCILE L" "i \<in> set (drop MAX_ITEMS_PER_RECONCILE L)"
    "served_turn blake3 L (initiate blake3 C) reply Q"
  shows "done_step (advance_client blake3 C reply) \<and> it_id i \<notin> it_id ` set C \<union> Q"
proof -
  let ?m = "initiate blake3 C"
  have sub: "set C \<subseteq> set L"
    by (simp add: assms(5) set_take_subset)
  have ok: "local_ok C" "\<forall>i\<in>set C. it_seq i < INFINITY"
    using assms(2,4) sub by (auto simp: local_ok_def assms(5) take_map [symmetric] intro!: sorted_wrt_take)
  have "MAX_ITEMS_PER_RECONCILE < length L"
    using assms(6) by (cases "MAX_ITEMS_PER_RECONCILE < length L") auto
  then have long: "IDLIST_LIMIT < length C"
    by (simp add: assms(5) IDLIST_LIMIT_def MAX_ITEMS_PER_RECONCILE_def)
  have wf: "message_wf ?m"
    by (rule initiate_ok(1) [OF ok assms(1)])
  have "window ?m L = C"
    using initiate_long(2) [OF ok long assms(1)] by (simp add: window_def assms(5) del: take_map)
  then have "Q = {}" "reply = resp_reply (respond blake3 C ?m)"
    using assms(7) own_message_settles(1) [OF ok(1) assms(1) wf initiate_long(1) [OF ok long assms(1)]]
    by (auto simp: served_turn_def round_on_def sync_batch_def reopen_omitted_def Let_def)
  moreover have "it_id i \<notin> it_id ` set C"
    using assms(3,6) distinct_append [of "map it_id C" "map it_id (drop MAX_ITEMS_PER_RECONCILE L)"]
    by (auto simp: assms(5) map_append [symmetric] simp del: map_append)
  ultimately show ?thesis
    using all_skip_done own_message_settles(2) [OF ok(1) assms(1) wf initiate_long(1) [OF ok long assms(1)]]
    by simp
qed

text \<open>A log of any length.\<close>

definition log_of :: "nat \<Rightarrow> item list" where
  "log_of n = map (\<lambda>k. \<lparr>it_seq = of_nat k, it_id = to_be_bytes 8 (of_nat k :: u64) @ replicate 24 0\<rparr>) [0..<n]"

lemma length_log_of [simp]: "length (log_of n) = n"
  by (simp add: log_of_def)

lemma log_of_ok:
  assumes "n < 2 ^ 63"
  shows "local_ok (log_of n)" "distinct (map it_id (log_of n))" "\<forall>i\<in>set (log_of n). it_seq i < INFINITY"
proof -
  have small: "unat (of_nat k :: u64) = k" if "k < n" for k
    using that assms by (intro unat_of_nat_fits) (simp add: fits_def)
  have "sorted_wrt (\<lambda>j k. (of_nat j :: u64) \<le> of_nat k) [0..<n]"
    using sorted_upt [of 0 n] by (rule sorted_wrt_mono_rel [rotated]) (simp add: word_le_nat_alt small)
  then show "local_ok (log_of n)"
    by (auto simp: local_ok_def log_of_def sorted_wrt_map)
  have "inj_on (\<lambda>k. to_be_bytes 8 (of_nat k :: u64) @ replicate 24 (0 :: byte)) {0..<n}"
    by (rule inj_onI) (metis append_same_eq atLeastLessThan_iff small to_be_bytes_inject)
  then show "distinct (map it_id (log_of n))"
    by (simp add: log_of_def distinct_map o_def)
  show "\<forall>i\<in>set (log_of n). it_seq i < INFINITY"
    using assms by (auto simp: log_of_def word_less_nat_alt small INFINITY_def unsigned_minus_1_eq_mask mask_eq_exp_minus_1)
qed

theorem window_cut_settles_witness:
  "\<exists>reply Q. served_turn last_bytes (log_of 100001) (initiate last_bytes (take 100000 (log_of 100001))) reply Q \<and>
    done_step (advance_client last_bytes (take 100000 (log_of 100001)) reply) \<and>
    it_id (log_of 100001 ! 100000) \<notin> it_id ` set (take 100000 (log_of 100001)) \<union> Q"
proof -
  define L where "L = log_of 100001"
  define m where "m = initiate last_bytes (take 100000 L)"
  define b where "b = sync_batch last_bytes m (window m L) (resp_push (respond last_bytes (window m L) m)) [] outbound_channel"
  have turn: "served_turn last_bytes L m (snd b) (fst ` set (fst b))"
    unfolding served_turn_def round_on_def
    by (intro exI [where x = 0] exI [where x = "[]"] exI [where x = outbound_channel] exI [where x = "fst b"]) (simp add: b_def)
  have ok: "local_ok L" "distinct (map it_id L)" "\<forall>i\<in>set L. it_seq i < INFINITY"
    unfolding L_def by (rule log_of_ok, simp)+
  have "L ! 100000 \<in> set (drop MAX_ITEMS_PER_RECONCILE L)"
    unfolding in_set_conv_nth by (intro exI [where x = 0]) (simp add: L_def MAX_ITEMS_PER_RECONCILE_def)
  from window_cut_settles [where C = "take 100000 L" and reply = "snd b" and Q = "fst ` set (fst b)", OF last_bytes_length ok _ this]
  have "done_step (advance_client last_bytes (take 100000 L) (snd b)) \<and>
    it_id (L ! 100000) \<notin> it_id ` set (take 100000 L) \<union> fst ` set (fst b)"
    using turn by (simp add: MAX_ITEMS_PER_RECONCILE_def m_def)
  then show ?thesis
    using turn unfolding L_def m_def by blast
qed

subsection \<open>A batch fits the queue\<close>

lemma sum_take_mono: "n \<le> m \<Longrightarrow> sum_list (map cost (take n xs)) \<le> (sum_list (map cost (take m xs)) :: nat)"
  by (auto simp: le_iff_add take_add)

lemma batch_cost:
  assumes "n \<le> fits_in_budget xs A cost" "A < 2 ^ 64 - 1" "\<forall>x\<in>set xs. cost x \<le> A"
  shows "sum_list (map cost (take n xs)) \<le> A"
proof (cases "A = 0")
  case True
  then show ?thesis
    using assms(1) by (simp add: fits_in_budget_def)
next
  case False
  obtain k where k: "fits_in_budget xs A cost = k" "k = 1 \<or> sum_list (map cost (take k xs)) \<le> A"
    using fits_in_budget_spec [OF assms(2), of xs cost] False by auto
  have "sum_list (map cost (take n xs)) \<le> sum_list (map cost (take k xs))"
    using assms(1) k(1) by (intro sum_take_mono) simp
  moreover have "sum_list (map cost (take k xs)) \<le> A"
    using k(2) assms(3) by (cases xs) auto
  ultimately show ?thesis
    by simp
qed

text \<open>C35. A batch never costs a reading client its connection: when the queue has a free slot and
  room for one maximal frame at the moment the batch is cut, every envelope alone is within the byte
  allowance and the reply is within one frame, the whole round is queued.\<close>

theorem round_fits_queue:
  assumes "ob_inv q" "ob_open q" "0 < free_slots q" "MAX_FRAME_BYTES \<le> ob_permits q"
    "sync_batch blake3 m items omitted envelopes q = (sent, reply)"
    "\<forall>(i, bs)\<in>set envelopes. push_cost bs \<le> push_byte_allowance q"
    "queued_bytes (FRecon grp (message_encode reply)) \<le> MAX_FRAME_BYTES"
  shows "fst (queue_all q (map (\<lambda>(_, bs). FPush bs) sent @ [FRecon grp (message_encode reply)]))"
proof -
  let ?cost = "\<lambda>(_, bs). push_cost bs" and ?A = "push_byte_allowance q"
  define n where "n = min (fits_in_budget envelopes ?A ?cost) (push_frame_allowance q)"
  have sent: "sent = take n envelopes"
    using assms(5) by (simp add: sync_batch_def n_def Let_def)
  have A: "?A < 2 ^ 64 - 1" "?A + MAX_FRAME_BYTES \<le> ob_permits q"
    using assms(1,4) by (auto simp: push_byte_allowance_def SYNC_PUSH_BYTES_def SEND_QUEUE_BYTE_BUDGET_def
        MAX_FRAME_BYTES_def ob_queued_bytes_def ob_inv_def min_def)
  have "sum_list (map ?cost sent) \<le> ?A"
    unfolding sent by (rule batch_cost [OF _ A(1)]) (use assms(6) in \<open>auto simp: n_def\<close>)
  moreover have "sum_list (map permits_for (map (\<lambda>(_, bs). FPush bs) sent)) \<le> sum_list (map ?cost sent)"
    by (induction sent) (auto simp: permits_for_def push_cost_def queued_bytes_def)
  moreover have "permits_for (FRecon grp (message_encode reply)) \<le> MAX_FRAME_BYTES"
    using assms(7) by (simp add: permits_for_def)
  ultimately have "sum_list (map permits_for (map (\<lambda>(_, bs). FPush bs) sent @ [FRecon grp (message_encode reply)])) \<le> ob_permits q"
    using A(2) by simp
  moreover have "length sent + 1 \<le> free_slots q"
    using assms(3) by (auto simp: sent n_def push_frame_allowance_def)
  ultimately show ?thesis
    using assms(2) by (simp add: queue_all_iff)
qed

theorem round_fits_queue_witness:
  "sync_batch zero_hash ask_all [] [] [(replicate 32 7, [1, 2, 3])] outbound_channel =
     ([(replicate 32 7, [1, 2, 3])], \<lparr>msg_ranges = [mk_range INFINITY Skip]\<rparr>) \<and>
   fst (queue_all outbound_channel [FPush [1, 2, 3], FRecon [] (message_encode \<lparr>msg_ranges = [mk_range INFINITY Skip]\<rparr>)])"
proof -
  let ?e = "[(replicate 32 7, [1, 2, 3])] :: (id \<times> bytes) list"
  have free: "push_frame_allowance outbound_channel = 255" "push_byte_allowance outbound_channel = SYNC_PUSH_BYTES"
    by (simp_all add: push_byte_allowance_def push_frame_allowance_def outbound_channel_def ob_queued_bytes_def
        SYNC_PUSH_BYTES_def SYNC_PUSH_LIMIT_def free_slots_def SEND_QUEUE_BOUND_def)
  moreover have "fits_in_budget ?e SYNC_PUSH_BYTES (\<lambda>(_, bs). push_cost bs) = 1"
    by (simp add: fits_in_budget_def SYNC_PUSH_BYTES_def SEND_QUEUE_BYTE_BUDGET_def MAX_FRAME_BYTES_def Let_def)
  ultimately have batch: "sync_batch zero_hash ask_all [] [] ?e outbound_channel = (?e, \<lparr>msg_ranges = [mk_range INFINITY Skip]\<rparr>)"
    by (simp add: sync_batch_def ask_all_def respond_def spans_def ids_of_def items_in_def reopen_omitted_def)
  have "length (message_encode \<lparr>msg_ranges = [mk_range INFINITY Skip]\<rparr>) \<le> 100"
    by code_simp
  then have "queued_bytes (FRecon [] (message_encode \<lparr>msg_ranges = [mk_range INFINITY Skip]\<rparr>)) \<le> MAX_FRAME_BYTES"
    by (simp add: queued_bytes_def FRAME_OVERHEAD_def MAX_FRAME_BYTES_def)
  moreover have "push_cost [1, 2, 3] \<le> SYNC_PUSH_BYTES"
    by (simp add: push_cost_def queued_bytes_def FRAME_OVERHEAD_def SYNC_PUSH_BYTES_def SEND_QUEUE_BYTE_BUDGET_def MAX_FRAME_BYTES_def)
  moreover have "ob_inv outbound_channel" "ob_open outbound_channel" "0 < free_slots outbound_channel"
    "MAX_FRAME_BYTES \<le> ob_permits outbound_channel"
    by (simp_all add: ob_inv_def outbound_channel_def free_slots_def SEND_QUEUE_BOUND_def MAX_FRAME_BYTES_def
        SEND_QUEUE_BYTE_BUDGET_def)
  ultimately show ?thesis
    using round_fits_queue [OF _ _ _ _ batch, of "[]"] by (simp add: batch free)
qed

subsection \<open>The bounded read of a backfill\<close>

lemma since_loop_take:
  assumes "A < 2 ^ 64 - 1" "spent \<le> A"
  shows "\<exists>k. since_loop A spent xs = take k xs \<and>
    (k \<ge> length xs \<or> (0 < k \<and> A < spent + sum_list (map length (take k xs))))"
  using assms(2)
proof (induction xs arbitrary: spent)
  case (Cons x xs)
  show ?case
  proof (cases "spent + length x \<le> A")
    case True
    then obtain k where "since_loop A (spent + length x) xs = take k xs"
      "k \<ge> length xs \<or> (0 < k \<and> A < spent + length x + sum_list (map length (take k xs)))"
      using Cons.IH by blast
    then show ?thesis
      using True usize_add_exact [OF assms(1) True] by (intro exI [where x = "Suc k"]) (auto simp: Let_def)
  next
    case False
    then have "usize_add spent (length x) > A"
      using usize_add_le [OF assms(1), of spent "length x"] by simp
    then show ?thesis
      using False by (intro exI [where x = 1]) (simp add: Let_def)
  qed
qed simp

lemma cut_spec:
  assumes "A < 2 ^ 64 - 1" "n = min (fits_in_budget xs A cost) limit"
  shows "n \<le> length xs" "n \<le> 1 \<or> sum_list (map cost (take n xs)) \<le> A"
    "n = length xs \<or> n = limit \<or> A = 0 \<or> A < sum_list (map cost (take (Suc n) xs))"
proof -
  have "n \<le> length xs \<and> (n \<le> 1 \<or> sum_list (map cost (take n xs)) \<le> A) \<and>
    (n = length xs \<or> n = limit \<or> A = 0 \<or> A < sum_list (map cost (take (Suc n) xs)))"
  proof (cases "A = 0")
    case False
    then obtain m where m: "m \<le> length xs" "fits_in_budget xs A cost = m" "m = 1 \<or> sum_list (map cost (take m xs)) \<le> A"
      "m < length xs \<longrightarrow> A < sum_list (map cost (take (Suc m) xs))"
      using fits_in_budget_spec [OF assms(1), of xs cost] by auto
    have "sum_list (map cost (take n xs)) \<le> sum_list (map cost (take m xs))"
      using assms(2) m(2) by (intro sum_take_mono) simp
    then show ?thesis
      using m assms(2) by (auto simp: min_def)
  qed (simp add: assms(2) fits_in_budget_def)
  then show "n \<le> length xs" "n \<le> 1 \<or> sum_list (map cost (take n xs)) \<le> A"
    "n = length xs \<or> n = limit \<or> A = 0 \<or> A < sum_list (map cost (take (Suc n) xs))"
    by blast+
qed

text \<open>C38. What a subscription is sent of the log: the envelopes of the group from the client's cursor on, in
  ascending order with none left out between two of them, cut to a prefix that is within the frame
  allowances before and after the read and within the byte allowance after it unless it is a single
  envelope; and the prefix stops before the end of the log only at one of those bounds or where the
  read had already passed the byte allowance it was given.\<close>

theorem backfill_is_prefix:
  fixes d grp from_seq q drift
  defines "rows \<equiv> map (\<lambda>r. encode_row r grp (row_hash r)) (rows_from d grp from_seq)"
  shows "\<exists>n\<le>length rows. backfill (log_database d) drift q grp from_seq = queue_all (drift q) (map FPush (take n rows)) \<and>
    n \<le> push_frame_allowance q \<and> n \<le> push_frame_allowance (drift q) \<and>
    (n \<le> 1 \<or> sum_list (map push_cost (take n rows)) \<le> push_byte_allowance (drift q)) \<and>
    (n = length rows \<or> n = push_frame_allowance q \<or> n = push_frame_allowance (drift q) \<or>
     push_byte_allowance (drift q) = 0 \<or> push_byte_allowance (drift q) < sum_list (map push_cost (take (Suc n) rows)) \<or>
     push_byte_allowance q < sum_list (map length (take n rows)))"
proof -
  let ?f = "push_frame_allowance q" and ?f' = "push_frame_allowance (drift q)"
  let ?A = "push_byte_allowance q" and ?A' = "push_byte_allowance (drift q)"
  have f: "?f < 2 ^ 63" "?f \<le> MAX_BACKFILL" and A: "?A < 2 ^ 64 - 1" "?A' < 2 ^ 64 - 1"
    by (auto simp: push_frame_allowance_def push_byte_allowance_def SYNC_PUSH_LIMIT_def SYNC_PUSH_BYTES_def
        SEND_QUEUE_BOUND_def SEND_QUEUE_BYTE_BUDGET_def MAX_BACKFILL_def MAX_FRAME_BYTES_def min_def)
  have since: "since d grp from_seq ?f ?A = since_loop ?A 0 (take ?f rows)"
    using f by (simp add: since_def rows_def take_map min_def Let_def)
  obtain k where k: "since_loop ?A 0 (take ?f rows) = take k (take ?f rows)"
    "k \<ge> length (take ?f rows) \<or> (0 < k \<and> ?A < sum_list (map length (take k (take ?f rows))))"
    using since_loop_take [OF A(1), of 0 "take ?f rows"] by auto
  define j where "j = min k ?f"
  define n where "n = min (fits_in_budget (take j rows) ?A' push_cost) ?f'"
  have "since d grp from_seq ?f ?A = take j rows"
    by (simp add: since k(1) j_def)
  moreover have short: "take ?f (take j rows) = take j rows"
    by (simp add: j_def min.commute)
  ultimately have run: "backfill (log_database d) drift q grp from_seq = queue_all (drift q) (map FPush (take n (take j rows)))"
    by (simp add: backfill_def log_database_def Let_def n_def short del: take_take)
  note cut = cut_spec [OF A(2) n_def]
  have n: "n \<le> length rows" "n \<le> ?f" "n \<le> ?f'" "take n (take j rows) = take n rows"
    using cut(1) by (auto simp: j_def n_def)
  have "n = length (take j rows) \<or> Suc n \<le> j"
    using cut(1) by auto
  then have "n = length (take j rows) \<or> take (Suc n) (take j rows) = take (Suc n) rows"
    by (auto simp: min_def)
  moreover have "n = length rows \<or> n = ?f \<or> ?A < sum_list (map length (take n rows))" if "n = length (take j rows)"
    using that k(2) by (auto simp: j_def min_def split: if_splits)
  ultimately show ?thesis
    using run n cut(2,3) by (intro exI [where x = n]) auto
qed

lemma length_envelope_encode:
  "length (envelope_encode e) \<le> 81 + length (env_group e) + length (env_hash e) + length (env_ct e)"
  unfolding envelope_encode_def cbor_array_def cbor_uint_def cbor_bytes_def
  using length_cbor_head(2) [of MAJOR_ARRAY 8] length_cbor_head(2) [of MAJOR_UINT "ucast (env_v e)"]
    length_cbor_head(2) [of MAJOR_UINT "encryption_u64 (env_enc e)"] length_cbor_head(2) [of MAJOR_UINT "env_epoch e"]
    length_cbor_head(2) [of MAJOR_UINT "env_seq e"] length_cbor_head(2) [of MAJOR_UINT "env_ts e"]
    length_cbor_head(2) [of MAJOR_BYTES "of_nat (length (env_group e))"]
    length_cbor_head(2) [of MAJOR_BYTES "of_nat (length (env_hash e))"]
    length_cbor_head(2) [of MAJOR_BYTES "of_nat (length (env_ct e))"]
  by simp

theorem backfill_is_prefix_witness:
  "backfill (log_database one_row_db) id outbound_channel (replicate 32 9) 0 =
    queue_all outbound_channel [FPush (encode_row (new_row (first_envelope 3) 1 1000) (replicate 32 9) (replicate 32 5))]"
proof -
  let ?row = "new_row (first_envelope 3) 1 1000"
  have rows: "rows_from one_row_db (replicate 32 9) 0 = [?row]" "row_hash ?row = replicate 32 5"
    by (simp_all add: rows_from_def one_row_db_def fresh_db_def new_row_def first_envelope_def clamp_i64_def I64_MAX_def)
  have free: "push_frame_allowance outbound_channel = 255" "push_byte_allowance outbound_channel = SYNC_PUSH_BYTES"
    by (simp_all add: push_byte_allowance_def push_frame_allowance_def outbound_channel_def ob_queued_bytes_def
        SYNC_PUSH_BYTES_def SYNC_PUSH_LIMIT_def free_slots_def SEND_QUEUE_BOUND_def)
  have "length (encode_row ?row (replicate 32 9) (replicate 32 5)) \<le> 1000"
    unfolding encode_row_def by (rule order_trans [OF length_envelope_encode]) (simp add: new_row_def first_envelope_def)
  then have "push_cost (encode_row ?row (replicate 32 9) (replicate 32 5)) \<le> SYNC_PUSH_BYTES" "0 < SYNC_PUSH_BYTES"
    by (simp_all add: push_cost_def queued_bytes_def FRAME_OVERHEAD_def SYNC_PUSH_BYTES_def SEND_QUEUE_BYTE_BUDGET_def MAX_FRAME_BYTES_def)
  then show ?thesis
    using backfill_is_prefix [where d = one_row_db and grp = "replicate 32 9" and from_seq = 0 and drift = id and q = outbound_channel] by (auto simp: rows free le_Suc_eq)
qed

end
