(* ===== verification/Rate_Window.thy ===== *)
theory Rate_Window
  imports Prelude
begin

text \<open>
  The contract every rate limit of the relay keeps. A limit charges requests against a window of
  length \<open>W\<close>; \<open>win\<close> reads the window one subject is in as its start and what was spent in it. Buckets
  (\<open>now / W\<close>) and windows that open at the first request after the last one ended both satisfy it. The
  locale shows what follows for any run of requests under a clock that does not go backwards: no more
  than the limit inside one window, no more than twice the limit inside any interval of length \<open>W\<close>.
\<close>

text \<open>The outcome of each request of a run, in order.\<close>

fun outcomes :: "('r \<Rightarrow> 's \<Rightarrow> bool \<times> 's) \<Rightarrow> 's \<Rightarrow> 'r list \<Rightarrow> ('r \<times> bool) list" where
  "outcomes charge s [] = []"
| "outcomes charge s (r # rs) = (let (b, s') = charge r s in (r, b) # outcomes charge s' rs)"

text \<open>What the admitted requests among those satisfying \<open>P\<close> cost together.\<close>

definition admitted_cost :: "('r \<Rightarrow> bool) \<Rightarrow> ('r \<Rightarrow> nat) \<Rightarrow> ('r \<times> bool) list \<Rightarrow> nat" where
  "admitted_cost P cost os = sum_list (map (\<lambda>(r, b). if b \<and> P r then cost r else 0) os)"

text \<open>The admitted requests of one subject, each with the start of the window it was charged to.\<close>

fun charged :: "('r \<Rightarrow> 's \<Rightarrow> bool \<times> 's) \<Rightarrow> ('r \<Rightarrow> bool) \<Rightarrow> ('s \<Rightarrow> (nat \<times> nat) option) \<Rightarrow> 's \<Rightarrow> 'r list \<Rightarrow> (nat \<times> 'r) list" where
  "charged charge mine win s [] = []"
| "charged charge mine win s (r # rs) =
    (let (b, s') = charge r s; later = charged charge mine win s' rs in
     if b \<and> mine r then (fst (the (win s')), r) # later else later)"

definition charged_cost :: "(nat \<Rightarrow> 'r \<Rightarrow> bool) \<Rightarrow> ('r \<Rightarrow> nat) \<Rightarrow> (nat \<times> 'r) list \<Rightarrow> nat" where
  "charged_cost P cost T = sum_list (map (\<lambda>(st, r). if P st r then cost r else 0) T)"

lemma admitted_cost_simps [simp]:
  "admitted_cost P cost [] = 0"
  "admitted_cost P cost ((r, b) # os) = (if b \<and> P r then cost r else 0) + admitted_cost P cost os"
  by (simp_all add: admitted_cost_def)

lemma admitted_cost_pos: "admitted_cost (\<lambda>r. (P r \<and> 0 < cost r) \<and> Q r) cost os = admitted_cost (\<lambda>r. P r \<and> Q r) cost os"
  by (induction os) auto

lemma charged_cost_simps [simp]:
  "charged_cost P cost [] = 0"
  "charged_cost P cost ((st, r) # T) = (if P st r then cost r else 0) + charged_cost P cost T"
  "charged_cost P cost (T @ U) = charged_cost P cost T + charged_cost P cost U"
  by (simp_all add: charged_cost_def)

lemma charged_cost_none: "(\<And>st r. (st, r) \<in> set T \<Longrightarrow> \<not> P st r) \<Longrightarrow> charged_cost P cost T = 0"
  by (induction T) auto

lemma charged_cost_mono: "(\<And>st r. (st, r) \<in> set T \<Longrightarrow> P st r \<Longrightarrow> Q st r) \<Longrightarrow> charged_cost P cost T \<le> charged_cost Q cost T"
  by (induction T) (auto simp: add_mono)

lemma charged_cost_or:
  "charged_cost (\<lambda>st r. P st r \<or> Q st r) cost T \<le> charged_cost P cost T + charged_cost Q cost T"
  by (induction T) auto

lemma admitted_is_charged:
  "admitted_cost (\<lambda>r. mine r \<and> P r) cost (outcomes charge s rs) =
    charged_cost (\<lambda>_. P) cost (charged charge mine win s rs)"
  by (induction rs arbitrary: s) (auto simp: Let_def split: prod.splits)

locale rate_window =
  fixes charge :: "'r \<Rightarrow> 's \<Rightarrow> bool \<times> 's"
    and at :: "'r \<Rightarrow> nat"
    and mine :: "'r \<Rightarrow> bool"
    and cost :: "'r \<Rightarrow> nat"
    and win :: "'s \<Rightarrow> (nat \<times> nat) option"
    and opens :: "nat \<Rightarrow> nat"
    and W limit :: nat
    and inv :: "'s \<Rightarrow> bool"
  assumes opens_le: "opens t \<le> t" "t < opens t + W"
    and opens_sep: "opens u + W \<le> t \<Longrightarrow> opens u + W \<le> opens t"
    and inv_charge: "inv s \<Longrightarrow> charge r s = (b, s') \<Longrightarrow> inv s'"
    and win_opens: "inv s \<Longrightarrow> win s = Some (st, n) \<Longrightarrow> \<exists>u. st = opens u"
    and admitted_live:
      "inv s \<Longrightarrow> charge r s = (True, s') \<Longrightarrow> mine r \<Longrightarrow> win s = Some (st, n) \<Longrightarrow> st \<le> at r \<Longrightarrow> at r < st + W \<Longrightarrow>
        win s' = Some (st, n + cost r) \<and> n + cost r \<le> limit"
    and admitted_new:
      "inv s \<Longrightarrow> charge r s = (True, s') \<Longrightarrow> mine r \<Longrightarrow>
        (\<And>st n. win s = Some (st, n) \<Longrightarrow> \<not> (st \<le> at r \<and> at r < st + W)) \<Longrightarrow>
        win s' = Some (opens (at r), cost r) \<and> cost r \<le> limit"
    and other_live:
      "inv s \<Longrightarrow> charge r s = (b, s') \<Longrightarrow> \<not> (b \<and> mine r) \<Longrightarrow> win s = Some (st, n) \<Longrightarrow> st \<le> at r \<Longrightarrow> at r < st + W \<Longrightarrow>
        win s' = Some (st, n)"
    and other_new:
      "inv s \<Longrightarrow> charge r s = (b, s') \<Longrightarrow> \<not> (b \<and> mine r) \<Longrightarrow> win s' = Some (st, n) \<Longrightarrow>
        win s = Some (st, n) \<or> st = opens (at r) \<and> n = 0"
begin

text \<open>The history \<open>T\<close> of a subject up to time \<open>c\<close>, against the state it led to.\<close>

definition history_ok :: "(nat \<times> 'r) list \<Rightarrow> 's \<Rightarrow> nat \<Rightarrow> bool" where
  "history_ok T s c \<longleftrightarrow>
    (\<forall>(st, r)\<in>set T. st \<le> at r \<and> at r < st + W \<and> at r \<le> c \<and> (\<exists>u. st = opens u)) \<and>
    (\<forall>(st, r)\<in>set T. \<forall>(st', r')\<in>set T. st = st' \<or> st + W \<le> st' \<or> st' + W \<le> st) \<and>
    (\<forall>x. charged_cost (\<lambda>st _. st = x) cost T \<le> limit) \<and>
    (\<forall>(st, r)\<in>set T. st + W \<le> c \<or> (\<exists>n. win s = Some (st, n))) \<and>
    (\<forall>x n. win s = Some (x, n) \<longrightarrow> charged_cost (\<lambda>st _. st = x) cost T \<le> n \<and> (\<forall>(st, r)\<in>set T. st = x \<or> st + W \<le> x))"

lemma history_okI:
  assumes "\<And>st r. (st, r) \<in> set T \<Longrightarrow> st \<le> at r \<and> at r < st + W \<and> at r \<le> c \<and> (\<exists>u. st = opens u)"
    and "\<And>st r st' r'. (st, r) \<in> set T \<Longrightarrow> (st', r') \<in> set T \<Longrightarrow> st = st' \<or> st + W \<le> st' \<or> st' + W \<le> st"
    and "\<And>x. charged_cost (\<lambda>st _. st = x) cost T \<le> limit"
    and "\<And>st r. (st, r) \<in> set T \<Longrightarrow> st + W \<le> c \<or> (\<exists>n. win s = Some (st, n))"
    and "\<And>x n. win s = Some (x, n) \<Longrightarrow> charged_cost (\<lambda>st _. st = x) cost T \<le> n"
    and "\<And>x n st r. win s = Some (x, n) \<Longrightarrow> (st, r) \<in> set T \<Longrightarrow> st = x \<or> st + W \<le> x"
  shows "history_ok T s c"
  using assms unfolding history_ok_def by fast

lemma history_okD:
  assumes "history_ok T s c"
  shows "\<And>st r. (st, r) \<in> set T \<Longrightarrow> st \<le> at r \<and> at r < st + W \<and> at r \<le> c \<and> (\<exists>u. st = opens u)"
    and "\<And>st r st' r'. (st, r) \<in> set T \<Longrightarrow> (st', r') \<in> set T \<Longrightarrow> st = st' \<or> st + W \<le> st' \<or> st' + W \<le> st"
    and "\<And>x. charged_cost (\<lambda>st _. st = x) cost T \<le> limit"
    and "\<And>st r. (st, r) \<in> set T \<Longrightarrow> st + W \<le> c \<or> (\<exists>n. win s = Some (st, n))"
    and "\<And>x n. win s = Some (x, n) \<Longrightarrow> charged_cost (\<lambda>st _. st = x) cost T \<le> n"
    and "\<And>x n st r. win s = Some (x, n) \<Longrightarrow> (st, r) \<in> set T \<Longrightarrow> st = x \<or> st + W \<le> x"
  using assms unfolding history_ok_def by fast+

text \<open>A window that is not the current one has ended before the next one opens.\<close>

lemma ended_before:
  assumes h: "history_ok T s c" and c: "c \<le> t" and T: "(st, r) \<in> set T"
    and cur: "\<And>n. win s = Some (st, n) \<Longrightarrow> \<not> (st \<le> t \<and> t < st + W)"
  shows "st + W \<le> opens t"
proof -
  have "st \<le> at r" "at r \<le> c" and u: "\<exists>u. st = opens u"
    using history_okD(1) [OF h T] by auto
  then have "st \<le> t" using c by simp
  then have "st + W \<le> t"
    using history_okD(4) [OF h T] cur c by (metis le_trans not_le)
  then show ?thesis
    using u opens_sep by auto
qed

lemma history_admitted_live:
  assumes h: "history_ok T s c" and inv: "inv s" and c: "c \<le> at r"
    and ch: "charge r s = (True, s')" and m: "mine r"
    and w: "win s = Some (st, n)" and live: "st \<le> at r" "at r < st + W"
  shows "history_ok (T @ [(fst (the (win s')), r)]) s' (at r)"
proof -
  have w': "win s' = Some (st, n + cost r)" and lim: "n + cost r \<le> limit"
    using admitted_live [OF inv ch m w live] by auto
  have u: "\<exists>u. st = opens u"
    using win_opens [OF inv w] .
  note D = history_okD [OF h]
  show ?thesis
    unfolding w' option.sel fst_conv
  proof (rule history_okI; (unfold set_append Un_iff)?)
    fix x show "charged_cost (\<lambda>st _. st = x) cost (T @ [(st, r)]) \<le> limit"
      using D(3) [of x] D(5) [OF w] lim by auto
  next
    fix x k assume "win s' = Some (x, k)"
    then show "charged_cost (\<lambda>st _. st = x) cost (T @ [(st, r)]) \<le> k"
      using w' D(5) [OF w] by auto
  next
    fix st1 r1 assume "(st1, r1) \<in> set T \<or> (st1, r1) \<in> set [(st, r)]"
    then show "st1 + W \<le> at r \<or> (\<exists>n. win s' = Some (st1, n))"
      using D(4) [of st1 r1] w w' c by auto
  next
    fix st1 r1 assume "(st1, r1) \<in> set T \<or> (st1, r1) \<in> set [(st, r)]"
    then show "st1 \<le> at r1 \<and> at r1 < st1 + W \<and> at r1 \<le> at r \<and> (\<exists>u. st1 = opens u)"
      using D(1) [of st1 r1] c u live by auto
  next
    fix x k st1 r1 assume "win s' = Some (x, k)" "(st1, r1) \<in> set T \<or> (st1, r1) \<in> set [(st, r)]"
    then show "st1 = x \<or> st1 + W \<le> x"
      using w' D(6) [OF w, of st1 r1] by auto
  next
    fix st1 r1 st2 r2
    assume "(st1, r1) \<in> set T \<or> (st1, r1) \<in> set [(st, r)]" "(st2, r2) \<in> set T \<or> (st2, r2) \<in> set [(st, r)]"
    then show "st1 = st2 \<or> st1 + W \<le> st2 \<or> st2 + W \<le> st1"
      using D(2) [of st1 r1 st2 r2] D(6) [OF w, of st1 r1] D(6) [OF w, of st2 r2] by auto
  qed
qed

lemma history_admitted_new:
  assumes h: "history_ok T s c" and inv: "inv s" and c: "c \<le> at r"
    and ch: "charge r s = (True, s')" and m: "mine r"
    and dead: "\<And>st n. win s = Some (st, n) \<Longrightarrow> \<not> (st \<le> at r \<and> at r < st + W)"
  shows "history_ok (T @ [(fst (the (win s')), r)]) s' (at r)"
proof -
  define x0 where "x0 = opens (at r)"
  have w': "win s' = Some (x0, cost r)" and lim: "cost r \<le> limit"
    using admitted_new [OF inv ch m dead] by (auto simp: x0_def)
  note D = history_okD [OF h]
  have before: "(st, q) \<in> set T \<Longrightarrow> st + W \<le> x0" for st q
    unfolding x0_def by (rule ended_before [OF h c]) (use dead in auto)
  have x0: "x0 \<le> at r" "at r < x0 + W"
    using opens_le by (auto simp: x0_def)
  then have fresh: "charged_cost (\<lambda>st _. st = x0) cost T = 0"
    by (intro charged_cost_none) (use before in fastforce)
  show ?thesis
    unfolding w' option.sel fst_conv
  proof (rule history_okI; (unfold set_append Un_iff)?)
    fix x show "charged_cost (\<lambda>st _. st = x) cost (T @ [(x0, r)]) \<le> limit"
      using D(3) [of x] fresh lim by auto
  next
    fix x k assume "win s' = Some (x, k)"
    then show "charged_cost (\<lambda>st _. st = x) cost (T @ [(x0, r)]) \<le> k"
      using w' fresh by auto
  next
    fix st1 r1 assume "(st1, r1) \<in> set T \<or> (st1, r1) \<in> set [(x0, r)]"
    then show "st1 + W \<le> at r \<or> (\<exists>n. win s' = Some (st1, n))"
      using before [of st1 r1] w' x0 by auto
  next
    fix st1 r1 assume "(st1, r1) \<in> set T \<or> (st1, r1) \<in> set [(x0, r)]"
    then show "st1 \<le> at r1 \<and> at r1 < st1 + W \<and> at r1 \<le> at r \<and> (\<exists>u. st1 = opens u)"
      using D(1) [of st1 r1] c x0 by (auto simp: x0_def)
  next
    fix x k st1 r1 assume "win s' = Some (x, k)" "(st1, r1) \<in> set T \<or> (st1, r1) \<in> set [(x0, r)]"
    then show "st1 = x \<or> st1 + W \<le> x"
      using w' before [of st1 r1] by auto
  next
    fix st1 r1 st2 r2
    assume "(st1, r1) \<in> set T \<or> (st1, r1) \<in> set [(x0, r)]" "(st2, r2) \<in> set T \<or> (st2, r2) \<in> set [(x0, r)]"
    then show "st1 = st2 \<or> st1 + W \<le> st2 \<or> st2 + W \<le> st1"
      using D(2) [of st1 r1 st2 r2] before [of st1 r1] before [of st2 r2] by auto
  qed
qed

lemma history_other:
  assumes h: "history_ok T s c" and inv: "inv s" and c: "c \<le> at r"
    and ch: "charge r s = (b, s')" and m: "\<not> (b \<and> mine r)"
  shows "history_ok T s' (at r)"
proof -
  note D = history_okD [OF h]
  note live = other_live [OF inv ch m] and new = other_new [OF inv ch m]
  have kept: "st + W \<le> at r \<or> (\<exists>n. win s' = Some (st, n))" if T: "(st, q) \<in> set T" for st q
  proof (cases "at r < st + W")
    case True
    then obtain n where "win s = Some (st, n)"
      using D(4) [OF T] c by auto
    then show ?thesis
      using live D(1) [OF T] c True by auto
  qed simp
  have fresh: "st + W \<le> x" if T: "(st, q) \<in> set T" and w: "win s' = Some (x, n)" "win s \<noteq> Some (x, n)" for st q x n
  proof -
    have x: "x = opens (at r)"
      using new [OF w(1)] w(2) by auto
    show ?thesis
      unfolding x by (rule ended_before [OF h c T]) (use live w in auto)
  qed
  show ?thesis
  proof (rule history_okI)
    fix x n assume w: "win s' = Some (x, n)"
    show "charged_cost (\<lambda>st _. st = x) cost T \<le> n"
    proof (cases "win s = Some (x, n)")
      case False
      have "0 < W" using opens_le [of 0] by linarith
      then have "charged_cost (\<lambda>st _. st = x) cost T = 0"
        by (intro charged_cost_none) (use fresh [OF _ w False] in fastforce)
      then show ?thesis by simp
    qed (rule D(5))
    show "st = x \<or> st + W \<le> x" if T: "(st, q) \<in> set T" for st q
      using D(6) [OF _ T] fresh [OF T w] by (cases "win s = Some (x, n)") auto
  next
    fix st q assume T: "(st, q) \<in> set T"
    show "st \<le> at q \<and> at q < st + W \<and> at q \<le> at r \<and> (\<exists>u. st = opens u)"
      using D(1) [OF T] c by auto
  qed (fact D(2) D(3) kept)+
qed

lemma history_step:
  assumes "history_ok T s c" "inv s" "c \<le> at r" "charge r s = (b, s')"
  shows "history_ok (T @ (if b \<and> mine r then [(fst (the (win s')), r)] else [])) s' (at r)"
proof (cases "b \<and> mine r")
  case True
  then show ?thesis
    using assms history_admitted_live [of T s c r s'] history_admitted_new [of T s c r s'] by auto
qed (use assms history_other in auto)

lemma history_run:
  "history_ok T s c \<Longrightarrow> inv s \<Longrightarrow> sorted (c # map at rs) \<Longrightarrow>
    \<exists>s' c'. history_ok (T @ charged charge mine win s rs) s' c'"
proof (induction rs arbitrary: T s c)
  case (Cons r rs)
  obtain b s' where ch: "charge r s = (b, s')"
    by (cases "charge r s")
  define T' where "T' = T @ (if b \<and> mine r then [(fst (the (win s')), r)] else [])"
  have h: "history_ok T' s' (at r)"
    unfolding T'_def using Cons.prems history_step ch by auto
  have eq: "T @ charged charge mine win s (r # rs) = T' @ charged charge mine win s' rs"
    by (simp add: T'_def ch Let_def)
  show ?case
    unfolding eq using Cons.IH [OF h] Cons.prems inv_charge [OF _ ch] by simp
qed auto

lemma run_history:
  assumes "inv s" "sorted (map at rs)"
  obtains s' c where "history_ok (charged charge mine win s rs) s' c"
proof -
  have "history_ok [] s 0"
    by (auto simp: history_ok_def)
  then show ?thesis
    using history_run [of "[]" s 0 rs] assms that by auto
qed

text \<open>Inside an interval of the window's length the requests were charged to at most two windows.\<close>

lemma interval_bound:
  assumes inv: "inv s" and mono: "sorted (map at rs)"
  shows "admitted_cost (\<lambda>r. mine r \<and> a \<le> at r \<and> at r < a + W) cost (outcomes charge s rs) \<le> 2 * limit"
proof -
  define T where "T = charged charge mine win s rs"
  obtain s' c where h: "history_ok T s' c"
    unfolding T_def using run_history [OF assms] .
  note D = history_okD [OF h]
  define S where "S = {st. \<exists>r. (st, r) \<in> set T \<and> a \<le> at r \<and> at r < a + W}"
  have fin: "finite S"
    by (rule finite_subset [of _ "fst ` set T"]) (force simp: S_def)+
  have near: "st < a + W" "a < st + W" if "st \<in> S" for st
    using that D(1) unfolding S_def by fastforce+
  have apart: "st = st' \<or> st + W \<le> st' \<or> st' + W \<le> st" if "st \<in> S" "st' \<in> S" for st st'
    using that D(2) unfolding S_def by blast
  have "\<exists>x y. S \<subseteq> {x, y}"
  proof (cases "S = {}")
    case False
    define x where "x = Min S"
    have x: "x \<in> S" "\<And>st. st \<in> S \<Longrightarrow> x \<le> st"
      using fin False by (auto simp: x_def)
    have same: "st = st'" if st: "st \<in> S" "st' \<in> S" "st \<noteq> x" "st' \<noteq> x" for st st'
      using apart [OF x(1) st(1)] apart [OF x(1) st(2)] apart [OF st(1,2)] near [OF x(1)] near [OF st(1)]
        near [OF st(2)] x(2) [OF st(1)] x(2) [OF st(2)] st(3,4) by linarith
    show ?thesis
    proof (cases "S \<subseteq> {x}")
      case False
      then obtain y where "y \<in> S" "y \<noteq> x" by blast
      then have "S \<subseteq> {x, y}" using same by blast
      then show ?thesis by blast
    qed blast
  qed simp
  then obtain x y where xy: "S \<subseteq> {x, y}" by blast
  have "admitted_cost (\<lambda>r. mine r \<and> a \<le> at r \<and> at r < a + W) cost (outcomes charge s rs) =
      charged_cost (\<lambda>_ r. a \<le> at r \<and> at r < a + W) cost T"
    unfolding T_def by (rule admitted_is_charged)
  also have "\<dots> \<le> charged_cost (\<lambda>st _. st = x \<or> st = y) cost T"
    by (rule charged_cost_mono) (use xy in \<open>auto simp: S_def\<close>)
  also have "\<dots> \<le> charged_cost (\<lambda>st _. st = x) cost T + charged_cost (\<lambda>st _. st = y) cost T"
    by (rule charged_cost_or)
  finally show ?thesis
    using D(3) [of x] D(3) [of y] by simp
qed

end

text \<open>Buckets of the clock: inside one bucket the limit itself is the bound.\<close>

locale bucket_window = rate_window +
  assumes bucket: "opens t = W * (t div W)"
begin

lemma bucket_bound:
  assumes inv: "inv s" and mono: "sorted (map at rs)"
  shows "admitted_cost (\<lambda>r. mine r \<and> at r div W = w) cost (outcomes charge s rs) \<le> limit"
proof -
  define T where "T = charged charge mine win s rs"
  obtain s' c where h: "history_ok T s' c"
    unfolding T_def using run_history [OF assms] .
  note D = history_okD [OF h]
  have "0 < W" using opens_le [of 0] by linarith
  then have start: "st = W * (at r div W)" if T: "(st, r) \<in> set T" for st r
  proof -
    obtain u where "st = W * (u div W)" "st \<le> at r" "at r < st + W"
      using D(1) [OF T] by (auto simp: bucket)
    then have "at r div W = u div W"
      by (intro div_nat_eqI) (simp_all add: mult.commute)
    then show ?thesis
      using \<open>st = _\<close> by simp
  qed
  have "admitted_cost (\<lambda>r. mine r \<and> at r div W = w) cost (outcomes charge s rs) =
      charged_cost (\<lambda>_ r. at r div W = w) cost T"
    unfolding T_def by (rule admitted_is_charged)
  also have "\<dots> \<le> charged_cost (\<lambda>st _. st = W * w) cost T"
    by (rule charged_cost_mono) (use start in auto)
  finally show ?thesis
    using D(3) [of "W * w"] by simp
qed

end

text \<open>A table of buckets by key, of which each request charges one: every key is a subject.\<close>

definition used_in :: "nat \<Rightarrow> (nat \<times> nat) option \<Rightarrow> nat" where
  "used_in w e = (case e of Some (v, n) \<Rightarrow> if v = w then n else 0 | None \<Rightarrow> 0)"

locale keyed_buckets =
  fixes charge :: "'r \<Rightarrow> 's \<Rightarrow> bool \<times> 's"
    and at :: "'r \<Rightarrow> nat"
    and key :: "'r \<Rightarrow> 'k"
    and cost :: "'r \<Rightarrow> nat"
    and look :: "'s \<Rightarrow> 'k \<Rightarrow> (nat \<times> nat) option"
    and W limit :: nat
    and inv :: "'s \<Rightarrow> bool"
  assumes W_pos: "0 < W"
    and keeps_inv: "inv s \<Longrightarrow> charge r s = (b, s') \<Longrightarrow> inv s'"
    and subject:
      "inv s \<Longrightarrow> charge r s = (b, s') \<Longrightarrow>
        look s' (key r) = Some (at r div W, used_in (at r div W) (look s (key r)) + (if b then cost r else 0))"
    and within:
      "inv s \<Longrightarrow> charge r s = (True, s') \<Longrightarrow> 0 < cost r \<Longrightarrow> used_in (at r div W) (look s (key r)) + cost r \<le> limit"
    and others_kept:
      "inv s \<Longrightarrow> charge r s = (b, s') \<Longrightarrow> k \<noteq> key r \<Longrightarrow> look s k = Some (at r div W, n) \<Longrightarrow> look s' k = Some (at r div W, n)"
    and others_old:
      "inv s \<Longrightarrow> charge r s = (b, s') \<Longrightarrow> k \<noteq> key r \<Longrightarrow> look s' k = Some e \<Longrightarrow> look s k = Some e"
begin

lemma in_bucket: "W * v \<le> t \<and> t < W * v + W \<longleftrightarrow> t div W = v"
  using W_pos by (metis add.commute div_nat_eqI dividend_less_times_div mult.commute mult_Suc_right times_div_less_eq_dividend)

end

sublocale keyed_buckets \<subseteq> per: bucket_window charge at "\<lambda>r. key r = k \<and> 0 < cost r" cost
    "\<lambda>s. map_option (\<lambda>(w, n). (W * w, n)) (look s k)" "\<lambda>t. W * (t div W)" W limit inv for k
proof (unfold_locales, goal_cases)
  case (1 t) show ?case by simp
next
  case (2 t) show ?case using in_bucket [of "t div W" t] by simp
next
  case (3 u t)
  then have "Suc (u div W) \<le> t div W"
    using W_pos by (simp add: less_eq_div_iff_mult_less_eq mult.commute)
  then show ?case
    by (metis mult_Suc_right add.commute mult_le_mono2)
next
  case (4 s r b s') then show ?case by (rule keeps_inv)
next
  case (5 s st n)
  then obtain w where "st = W * w" by auto
  then show ?case using W_pos by (intro exI [of _ "W * w"]) simp
next
  case (6 s r s' st n)
  then obtain w where "look s k = Some (w, n)" "st = W * w" by auto
  then show ?case
    using 6 subject [OF 6(1,2)] within [OF 6(1,2)] 6(3) in_bucket [of w "at r"] by (auto simp: used_in_def)
next
  case (7 s r s')
  have "used_in (at r div W) (look s k) = 0"
    using 7(4) in_bucket by (auto simp: used_in_def split: option.splits)
  then show ?case
    using 7 subject [OF 7(1,2)] within [OF 7(1,2)] 7(3) by auto
next
  case (8 s r b s' st n)
  then obtain w where w: "look s k = Some (w, n)" "st = W * w" by auto
  have "w = at r div W" using 8(5,6) w(2) in_bucket [of w "at r"] by auto
  then show ?case
    using 8 w subject [OF 8(1,2)] others_kept [OF 8(1,2)] by (cases "key r = k") (auto simp: used_in_def)
next
  case (9 s r b s' st n)
  then obtain w where w: "look s' k = Some (w, n)" "st = W * w" by auto
  show ?case
  proof (cases "key r = k")
    case True
    then show ?thesis
      using 9 w subject [OF 9(1,2)] by (auto simp: used_in_def split: option.splits if_splits)
  next
    case False
    then show ?thesis
      using others_old [OF 9(1,2), of k] w by auto
  qed
next
  case (10 t) show ?case by simp
qed

context keyed_buckets
begin

lemma key_bucket_bound:
  "inv s \<Longrightarrow> sorted (map at rs) \<Longrightarrow> admitted_cost (\<lambda>r. key r = k \<and> at r div W = w) cost (outcomes charge s rs) \<le> limit"
  using per.bucket_bound [of s rs k w] unfolding admitted_cost_pos by blast

lemma key_interval_bound:
  "inv s \<Longrightarrow> sorted (map at rs) \<Longrightarrow>
    admitted_cost (\<lambda>r. key r = k \<and> a \<le> at r \<and> at r < a + W) cost (outcomes charge s rs) \<le> 2 * limit"
  using per.interval_bound [of s rs k a] unfolding admitted_cost_pos by blast

end

end
