(* ===== verification/Budgets.thy ===== *)
theory Budgets
  imports Rate_Window Error_Codes "HOL-Library.Mapping" "HOL-Library.AList_Mapping"
begin

text \<open>
  The relay's in-memory rate limits, each a model of its own file: the frame budget of one connection
  (\<open>session.rs\<close>), the per-device budget on \<open>SEND\<close> (\<open>send_budget.rs\<close>), the per-group and per-workspace
  budget (\<open>group_ingress.rs\<close>), the download budget (\<open>media/mod.rs\<close>), the registration budget
  (\<open>push/store.rs\<close>) and the media budget of a call (\<open>calls/mod.rs\<close>). Clocks are \<open>u64\<close> milliseconds handed
  in by the caller, hash maps are mappings, and a budget behind a mutex is the state its methods pass
  on. Every one but the sliding window of \<open>push/store.rs\<close> is shown to keep the contract of
  \<open>Rate_Window\<close>.
\<close>

subsection \<open>The frame budget of a connection\<close>

definition FRAME_BUDGET_WINDOW_MS :: u64 where "FRAME_BUDGET_WINDOW_MS = 60000"

record frame_budget =
  fb_window_started_ms :: u64
  fb_spent :: u32

definition frame_budget_default :: frame_budget where
  "frame_budget_default = \<lparr>fb_window_started_ms = 0, fb_spent = 0\<rparr>"

definition fb_charge :: "u64 \<Rightarrow> u32 \<Rightarrow> frame_budget \<Rightarrow> bool \<times> frame_budget" where
  "fb_charge now_ms allowance b =
    (let b = (if now_ms < fb_window_started_ms b \<or>
                 FRAME_BUDGET_WINDOW_MS \<le> saturating_sub now_ms (fb_window_started_ms b)
              then \<lparr>fb_window_started_ms = now_ms, fb_spent = 0\<rparr> else b) in
     if allowance \<le> fb_spent b then (False, b) else (True, b\<lparr>fb_spent := fb_spent b + 1\<rparr>))"

subsection \<open>The budget of one device on \<open>SEND\<close>\<close>

definition SEND_WINDOW_MS :: u64 where "SEND_WINDOW_MS = 60000"
definition DEFAULT_SEND_FRAMES_PER_MINUTE :: u64 where "DEFAULT_SEND_FRAMES_PER_MINUTE = 6000"
definition DEFAULT_SEND_BYTES_PER_MINUTE :: u64 where "DEFAULT_SEND_BYTES_PER_MINUTE = 64 * 1024 * 1024"
definition MAX_TRACKED_DEVICES :: nat where "MAX_TRACKED_DEVICES = 4096"

datatype send_refusal = FrameRate | ByteRate

record device_usage =
  du_window :: u64
  du_frames :: u64
  du_bytes :: u64

record send_budget =
  sb_devices :: "(bytes, device_usage) mapping"
  sb_frames_per_window :: u64
  sb_bytes_per_window :: u64

fun send_refusal_code :: "send_refusal \<Rightarrow> error_code" where
  "send_refusal_code FrameRate = RateLimited"
| "send_refusal_code ByteRate = RateLimited"

definition send_retry_after :: "send_refusal \<Rightarrow> u32" where
  "send_retry_after r = ucast (max (SEND_WINDOW_MS div 1000) 1)"

fun send_detail :: "send_refusal \<Rightarrow> send_budget \<Rightarrow> u64" where
  "send_detail FrameRate b = sb_frames_per_window b"
| "send_detail ByteRate b = sb_bytes_per_window b"

definition send_frame_error :: "send_refusal \<Rightarrow> send_budget \<Rightarrow> frame_error" where
  "send_frame_error r b =
    with_detail (to_be_bytes 8 (send_detail r b)) (with_retry_after (send_retry_after r) (new_error (send_refusal_code r)))"

definition send_budget_new :: "u64 \<Rightarrow> u64 \<Rightarrow> send_budget" where
  "send_budget_new frames byts =
    \<lparr>sb_devices = Mapping.empty, sb_frames_per_window = frames, sb_bytes_per_window = byts\<rparr>"

definition send_sweep :: "(bytes, device_usage) mapping \<Rightarrow> u64 \<Rightarrow> (bytes, device_usage) mapping" where
  "send_sweep devices window =
    (if Mapping.size devices \<le> MAX_TRACKED_DEVICES then devices
     else Mapping.filter (\<lambda>_ u. du_window u = window) devices)"

text \<open>\<open>devices.entry(k).or_default()\<close>.\<close>

definition entry_or :: "('k, 'v) mapping \<Rightarrow> 'k \<Rightarrow> 'v \<Rightarrow> 'v" where
  "entry_or m k d = unwrap_or (Mapping.lookup m k) d"

definition send_charge :: "bytes \<Rightarrow> u64 \<Rightarrow> u64 \<Rightarrow> send_budget \<Rightarrow> (send_refusal + unit) \<times> send_budget" where
  "send_charge device byts now_ms b =
    (let window = now_ms div SEND_WINDOW_MS;
         devices = send_sweep (sb_devices b) window;
         usage = entry_or devices device \<lparr>du_window = 0, du_frames = 0, du_bytes = 0\<rparr>;
         usage = (if du_window usage \<noteq> window then \<lparr>du_window = window, du_frames = 0, du_bytes = 0\<rparr> else usage);
         frames = saturating_add (du_frames usage) 1;
         spent = saturating_add (du_bytes usage) byts;
         put = (\<lambda>u. b\<lparr>sb_devices := Mapping.update device u devices\<rparr>) in
     if sb_frames_per_window b < frames then (Inl FrameRate, put usage)
     else if sb_bytes_per_window b < spent then (Inl ByteRate, put usage)
     else (Inr (), put (usage\<lparr>du_frames := frames, du_bytes := spent\<rparr>)))"

definition send_spent :: "bytes \<Rightarrow> u64 \<Rightarrow> send_budget \<Rightarrow> u64 \<times> u64" where
  "send_spent device now_ms b =
    (case Mapping.lookup (sb_devices b) device of
       Some u \<Rightarrow> if du_window u = now_ms div SEND_WINDOW_MS then (du_frames u, du_bytes u) else (0, 0)
     | None \<Rightarrow> (0, 0))"

subsection \<open>The budget of one device into one group, and of one workspace\<close>

definition GROUP_INGRESS_WINDOW_MS :: u64 where "GROUP_INGRESS_WINDOW_MS = 60000"
definition DEFAULT_PRINCIPAL_GROUP_BYTES_PER_MINUTE :: u64 where
  "DEFAULT_PRINCIPAL_GROUP_BYTES_PER_MINUTE = 8 * 1024 * 1024"
definition DEFAULT_WORKSPACE_BYTES_PER_MINUTE :: u64 where "DEFAULT_WORKSPACE_BYTES_PER_MINUTE = 64 * 1024 * 1024"
definition MAX_TRACKED_KEYS :: nat where "MAX_TRACKED_KEYS = 16384"

datatype ingress_refusal = PrincipalGroup | WorkspaceLimit

record ingress_usage =
  iu_window :: u64
  iu_bytes :: u64

record group_ingress =
  gi_principal_group :: "(bytes \<times> bytes, ingress_usage) mapping"
  gi_workspace :: "(string, ingress_usage) mapping"
  gi_refused :: u64
  gi_principal_group_bytes :: u64
  gi_workspace_bytes :: u64

definition ingress_frame_error :: "ingress_refusal \<Rightarrow> group_ingress \<Rightarrow> frame_error" where
  "ingress_frame_error r b =
    (let limit = (case r of PrincipalGroup \<Rightarrow> gi_principal_group_bytes b | WorkspaceLimit \<Rightarrow> gi_workspace_bytes b) in
     with_detail (to_be_bytes 8 limit)
       (with_retry_after (ucast (max (GROUP_INGRESS_WINDOW_MS div 1000) 1)) (new_error GroupIngressLimited)))"

definition group_ingress_new :: "u64 \<Rightarrow> u64 \<Rightarrow> group_ingress" where
  "group_ingress_new pair whole =
    \<lparr>gi_principal_group = Mapping.empty, gi_workspace = Mapping.empty, gi_refused = 0,
     gi_principal_group_bytes = pair, gi_workspace_bytes = whole\<rparr>"

definition ingress_current :: "ingress_usage \<Rightarrow> u64 \<Rightarrow> ingress_usage" where
  "ingress_current u window = (if iu_window u \<noteq> window then \<lparr>iu_window = window, iu_bytes = 0\<rparr> else u)"

definition ingress_sweep :: "u64 \<Rightarrow> ('k, ingress_usage) mapping \<Rightarrow> ('k, ingress_usage) mapping" where
  "ingress_sweep window m =
    (if MAX_TRACKED_KEYS < Mapping.size m then Mapping.filter (\<lambda>_ u. iu_window u = window) m else m)"

definition ingress_charge ::
    "bytes \<Rightarrow> bytes \<Rightarrow> string \<Rightarrow> u64 \<Rightarrow> u64 \<Rightarrow> group_ingress \<Rightarrow> (ingress_refusal + unit) \<times> group_ingress" where
  "ingress_charge member grp workspace byts now_ms b =
    (let window = now_ms div GROUP_INGRESS_WINDOW_MS;
         key = (member, grp);
         pairs = ingress_sweep window (gi_principal_group b);
         wholes = ingress_sweep window (gi_workspace b);
         pu = ingress_current (entry_or pairs key \<lparr>iu_window = 0, iu_bytes = 0\<rparr>) window;
         wu = ingress_current (entry_or wholes workspace \<lparr>iu_window = 0, iu_bytes = 0\<rparr>) window;
         pair = saturating_add (iu_bytes pu) byts;
         whole = saturating_add (iu_bytes wu) byts;
         put = (\<lambda>p w. b\<lparr>gi_principal_group := Mapping.update key p pairs, gi_workspace := Mapping.update workspace w wholes\<rparr>) in
     if gi_principal_group_bytes b < pair then (Inl PrincipalGroup, (put pu wu)\<lparr>gi_refused := gi_refused b + 1\<rparr>)
     else if gi_workspace_bytes b < whole then (Inl WorkspaceLimit, (put pu wu)\<lparr>gi_refused := gi_refused b + 1\<rparr>)
     else (Inr (), put (pu\<lparr>iu_bytes := pair\<rparr>) (wu\<lparr>iu_bytes := whole\<rparr>)))"

subsection \<open>The download budget of one device\<close>

record blob_usage =
  bu_minute_bucket :: u64
  bu_minute_count :: u32
  bu_day_bucket :: u64
  bu_day_bytes :: u64

record rate_limiter =
  rl_devices :: "(bytes, blob_usage) mapping"
  rl_requests_per_minute :: u32
  rl_bytes_per_day :: u64

definition rate_limiter_new :: "u32 \<Rightarrow> u64 \<Rightarrow> rate_limiter" where
  "rate_limiter_new requests byts =
    \<lparr>rl_devices = Mapping.empty, rl_requests_per_minute = requests, rl_bytes_per_day = byts\<rparr>"

definition default_rate_limiter :: rate_limiter where
  "default_rate_limiter = rate_limiter_new 50 (5 * 1000000000)"

definition rl_sweep :: "(bytes, blob_usage) mapping \<Rightarrow> u64 \<Rightarrow> u64 \<Rightarrow> (bytes, blob_usage) mapping" where
  "rl_sweep devices minute day =
    (if Mapping.size devices \<le> MAX_TRACKED_DEVICES then devices
     else Mapping.filter (\<lambda>_ u. bu_minute_bucket u = minute \<or> bu_day_bucket u = day) devices)"

definition rolled :: "(bytes, blob_usage) mapping \<Rightarrow> bytes \<Rightarrow> u64 \<Rightarrow> blob_usage \<times> (bytes, blob_usage) mapping" where
  "rolled devices device now_ms =
    (let minute = now_ms div 60000; day = now_ms div 86400000;
         devices = rl_sweep devices minute day;
         u = entry_or devices device \<lparr>bu_minute_bucket = 0, bu_minute_count = 0, bu_day_bucket = 0, bu_day_bytes = 0\<rparr>;
         u = (if bu_minute_bucket u \<noteq> minute then u\<lparr>bu_minute_bucket := minute, bu_minute_count := 0\<rparr> else u);
         u = (if bu_day_bucket u \<noteq> day then u\<lparr>bu_day_bucket := day, bu_day_bytes := 0\<rparr> else u) in
     (u, devices))"

definition allow_request :: "bytes \<Rightarrow> u64 \<Rightarrow> rate_limiter \<Rightarrow> bool \<times> rate_limiter" where
  "allow_request device now_ms l =
    (let (u, devices) = rolled (rl_devices l) device now_ms in
     if rl_requests_per_minute l \<le> bu_minute_count u then (False, l\<lparr>rl_devices := Mapping.update device u devices\<rparr>)
     else (True, l\<lparr>rl_devices := Mapping.update device (u\<lparr>bu_minute_count := bu_minute_count u + 1\<rparr>) devices\<rparr>))"

definition allow_bytes :: "bytes \<Rightarrow> u64 \<Rightarrow> u64 \<Rightarrow> rate_limiter \<Rightarrow> bool \<times> rate_limiter" where
  "allow_bytes device byts now_ms l =
    (let (u, devices) = rolled (rl_devices l) device now_ms in
     if rl_bytes_per_day l < saturating_add (bu_day_bytes u) byts
     then (False, l\<lparr>rl_devices := Mapping.update device u devices\<rparr>)
     else (True, l\<lparr>rl_devices := Mapping.update device (u\<lparr>bu_day_bytes := saturating_add (bu_day_bytes u) byts\<rparr>) devices\<rparr>))"

subsection \<open>The registration budget of one principal\<close>

definition REGISTRATIONS_PER_HOUR :: u32 where "REGISTRATIONS_PER_HOUR = 5"
definition RATE_WINDOW_MS :: u64 where "RATE_WINDOW_MS = 60 * 60 * 1000"

definition push_allow :: "bytes \<Rightarrow> u64 \<Rightarrow> (bytes, u64 list) mapping \<Rightarrow> bool \<times> (bytes, u64 list) mapping" where
  "push_allow entry_hash now_ms principals =
    (let attempts = filter (\<lambda>t. saturating_sub now_ms t < RATE_WINDOW_MS) (entry_or principals entry_hash []) in
     if unat REGISTRATIONS_PER_HOUR \<le> length attempts
     then (False, Mapping.update entry_hash attempts principals)
     else (True, Mapping.update entry_hash (attempts @ [now_ms]) principals))"

subsection \<open>The media budget of one connection\<close>

definition MEDIA_FRAMES_PER_STREAM_PER_SECOND :: u32 where "MEDIA_FRAMES_PER_STREAM_PER_SECOND = 60"
definition MEDIA_STREAM_WINDOW_MS :: u64 where "MEDIA_STREAM_WINDOW_MS = 1000"
definition MEDIA_BYTES_PER_MINUTE :: u64 where "MEDIA_BYTES_PER_MINUTE = 1024 * 1024"
definition MAX_TRACKED_STREAMS :: nat where "MAX_TRACKED_STREAMS = 32"

datatype media_refusal = StreamRate | MediaByteRate | TooManyStreams

record stream_window =
  sw_call :: bytes
  sw_stream :: bytes
  sw_started :: u64
  sw_spent :: u32

record media_budget =
  mb_streams :: "stream_window list"
  mb_bytes_window_started_ms :: u64
  mb_bytes_spent :: u64
  mb_last_reported_ms :: "u64 option"

definition media_budget_default :: media_budget where
  "media_budget_default =
    \<lparr>mb_streams = [], mb_bytes_window_started_ms = 0, mb_bytes_spent = 0, mb_last_reported_ms = None\<rparr>"

fun media_refusal_code :: "media_refusal \<Rightarrow> error_code" where
  "media_refusal_code StreamRate = GroupIngressLimited"
| "media_refusal_code MediaByteRate = GroupIngressLimited"
| "media_refusal_code TooManyStreams = GroupIngressLimited"

fun media_retry_after :: "media_refusal \<Rightarrow> u32" where
  "media_retry_after StreamRate = ucast (max (MEDIA_STREAM_WINDOW_MS div 1000) 1)"
| "media_retry_after TooManyStreams = ucast (max (MEDIA_STREAM_WINDOW_MS div 1000) 1)"
| "media_retry_after MediaByteRate = 60"

fun media_detail :: "media_refusal \<Rightarrow> u64" where
  "media_detail StreamRate = ucast MEDIA_FRAMES_PER_STREAM_PER_SECOND"
| "media_detail MediaByteRate = MEDIA_BYTES_PER_MINUTE"
| "media_detail TooManyStreams = of_nat MAX_TRACKED_STREAMS"

definition is_stream :: "bytes \<Rightarrow> bytes \<Rightarrow> stream_window \<Rightarrow> bool" where
  "is_stream call_id stream w \<longleftrightarrow> sw_call w = call_id \<and> sw_stream w = stream"

text \<open>\<open>iter_mut().find\<close> and the count of the entry found.\<close>

fun bump_stream :: "bytes \<Rightarrow> bytes \<Rightarrow> stream_window list \<Rightarrow> stream_window list" where
  "bump_stream call_id stream [] = []"
| "bump_stream call_id stream (w # ws) =
    (if is_stream call_id stream w then w\<lparr>sw_spent := sw_spent w + 1\<rparr> # ws else w # bump_stream call_id stream ws)"

definition media_charge :: "u64 \<Rightarrow> bytes \<Rightarrow> bytes \<Rightarrow> nat \<Rightarrow> media_budget \<Rightarrow> (media_refusal + unit) \<times> media_budget" where
  "media_charge now_ms call_id stream byts b =
    (let b = (if now_ms < mb_bytes_window_started_ms b \<or> 60000 \<le> saturating_sub now_ms (mb_bytes_window_started_ms b)
              then b\<lparr>mb_bytes_window_started_ms := now_ms, mb_bytes_spent := 0\<rparr> else b);
         later = saturating_add (mb_bytes_spent b) (of_nat byts) in
     if MEDIA_BYTES_PER_MINUTE < later then (Inl MediaByteRate, b)
     else
       let b = b\<lparr>mb_streams :=
             filter (\<lambda>w. sw_started w \<le> now_ms \<and> saturating_sub now_ms (sw_started w) < MEDIA_STREAM_WINDOW_MS) (mb_streams b)\<rparr> in
       case find (is_stream call_id stream) (mb_streams b) of
         Some w \<Rightarrow>
           if MEDIA_FRAMES_PER_STREAM_PER_SECOND \<le> sw_spent w then (Inl StreamRate, b)
           else (Inr (), b\<lparr>mb_streams := bump_stream call_id stream (mb_streams b), mb_bytes_spent := later\<rparr>)
       | None \<Rightarrow>
           if MAX_TRACKED_STREAMS \<le> length (mb_streams b) then (Inl TooManyStreams, b)
           else (Inr (), b\<lparr>mb_streams := mb_streams b @ [\<lparr>sw_call = call_id, sw_stream = stream, sw_started = now_ms, sw_spent = 1\<rparr>],
                           mb_bytes_spent := later\<rparr>))"

definition should_report :: "u64 \<Rightarrow> media_budget \<Rightarrow> bool \<times> media_budget" where
  "should_report now_ms b =
    (let fresh = (case mb_last_reported_ms b of
                    None \<Rightarrow> True
                  | Some at \<Rightarrow> now_ms < at \<or> MEDIA_STREAM_WINDOW_MS \<le> saturating_sub now_ms at) in
     (fresh, if fresh then b\<lparr>mb_last_reported_ms := Some now_ms\<rparr> else b))"

subsection \<open>The budgets keep the contract\<close>

lemma entry_or_simps [simp]:
  "Mapping.lookup m k = None \<Longrightarrow> entry_or m k d = d"
  "Mapping.lookup m k = Some v \<Longrightarrow> entry_or m k d = v"
  by (simp_all add: entry_or_def)

lemma unat_sat_le:
  assumes "saturating_add a (b :: u64) \<le> l" "l \<noteq> - 1"
  shows "unat (saturating_add a b) = unat a + unat b" "unat a + unat b \<le> unat l"
proof -
  have "saturating_add a b \<noteq> - 1"
    using assms by (metis word_order.extremum_uniqueI)
  then show eq: "unat (saturating_add a b) = unat a + unat b"
    by (auto simp: saturating_add_def unat_word_ariths split: if_splits)
  show "unat a + unat b \<le> unat l"
    using assms(1) eq by (simp add: word_le_nat_alt)
qed

lemma unat_inc:
  assumes "a < (b :: 'a::len word)"
  shows "unat (a + 1) = unat a + 1" "unat a + 1 \<le> unat b"
proof -
  have lt: "unat a < unat b" "unat b < 2 ^ LENGTH('a)"
    using assms by (simp_all add: word_less_nat_alt)
  then show "unat a + 1 \<le> unat b" by simp
  have "unat a + 1 < 2 ^ LENGTH('a)" using lt by linarith
  then show "unat (a + 1) = unat a + 1"
    by (simp add: unat_word_ariths)
qed

text \<open>A table of counters read as buckets, and what a sweep and an update leave of it.\<close>

definition bucket_of :: "('v \<Rightarrow> u64) \<Rightarrow> ('v \<Rightarrow> nat) \<Rightarrow> ('k, 'v) mapping \<Rightarrow> 'k \<Rightarrow> (nat \<times> nat) option" where
  "bucket_of win spent m k = map_option (\<lambda>v. (unat (win v), spent v)) (Mapping.lookup m k)"

definition swept :: "('v \<Rightarrow> bool) \<Rightarrow> ('k, 'v) mapping \<Rightarrow> ('k, 'v) mapping \<Rightarrow> bool" where
  "swept Q m m' \<longleftrightarrow> m' = m \<or> m' = Mapping.filter (\<lambda>_. Q) m"

lemma bucket_of_update [simp]: "bucket_of win spent (Mapping.update k v m) k = Some (unat (win v), spent v)"
  by (simp add: bucket_of_def)

lemma bucket_of_old:
  "swept Q m m' \<Longrightarrow> k \<noteq> k0 \<Longrightarrow> bucket_of win spent (Mapping.update k0 v m') k = Some e \<Longrightarrow>
    bucket_of win spent m k = Some e"
  by (auto simp: swept_def bucket_of_def lookup_update' lookup_filter split: option.splits if_splits)

lemma bucket_of_kept:
  "swept Q m m' \<Longrightarrow> (\<And>u. win u = w \<Longrightarrow> Q u) \<Longrightarrow> k \<noteq> k0 \<Longrightarrow> bucket_of win spent m k = Some (unat w, n) \<Longrightarrow>
    bucket_of win spent (Mapping.update k0 v m') k = Some (unat w, n)"
  by (auto simp: swept_def bucket_of_def lookup_update' lookup_filter unsigned_word_eqI split: option.splits if_splits)

lemma used_in_bucket:
  "used_in (unat w) (bucket_of win spent m k) =
    (case Mapping.lookup m k of Some u \<Rightarrow> if win u = w then spent u else 0 | None \<Rightarrow> 0)"
  by (auto simp: used_in_def bucket_of_def unsigned_word_eqI split: option.splits)

lemma swept_lookup:
  "swept Q m m' \<Longrightarrow> (\<And>u. win u = w \<Longrightarrow> Q u) \<Longrightarrow>
    (case Mapping.lookup m' k of Some u \<Rightarrow> if win u = w then f u else d | None \<Rightarrow> d) =
    (case Mapping.lookup m k of Some u \<Rightarrow> if win u = w then f u else d | None \<Rightarrow> d)"
  by (auto simp: swept_def lookup_filter split: option.splits if_splits)

subsubsection \<open>The budget on \<open>SEND\<close>\<close>

definition no_usage :: "u64 \<Rightarrow> device_usage" where
  "no_usage window = \<lparr>du_window = window, du_frames = 0, du_bytes = 0\<rparr>"

text \<open>What one device has used in a bucket, as the charge computes it.\<close>

definition usage_at :: "u64 \<Rightarrow> (bytes, device_usage) mapping \<Rightarrow> bytes \<Rightarrow> device_usage" where
  "usage_at window m device =
    (case Mapping.lookup m device of Some u \<Rightarrow> if du_window u = window then u else no_usage window | None \<Rightarrow> no_usage window)"

lemma send_swept: "swept (\<lambda>u. du_window u = w) m (send_sweep m w)"
  by (simp add: swept_def send_sweep_def)

lemma usage_at_window [simp]: "du_window (usage_at w m device) = w"
  by (simp add: usage_at_def no_usage_def split: option.splits)

lemma send_charge_usage:
  "(let usage = entry_or (send_sweep m w) device \<lparr>du_window = 0, du_frames = 0, du_bytes = 0\<rparr> in
    if du_window usage \<noteq> w then \<lparr>du_window = w, du_frames = 0, du_bytes = 0\<rparr> else usage) = usage_at w m device"
  by (auto simp: usage_at_def no_usage_def entry_or_def send_sweep_def lookup_filter Let_def split: option.splits)

type_synonym send_request = "bytes \<times> u64 \<times> u64"

definition send_request :: "send_request \<Rightarrow> send_budget \<Rightarrow> bool \<times> send_budget" where
  "send_request r b = (case r of (device, byts, now_ms) \<Rightarrow> let (res, b') = send_charge device byts now_ms b in (res = Inr (), b'))"

definition send_put :: "bytes \<Rightarrow> u64 \<Rightarrow> device_usage \<Rightarrow> send_budget \<Rightarrow> send_budget" where
  "send_put device w u b = b\<lparr>sb_devices := Mapping.update device u (send_sweep (sb_devices b) w)\<rparr>"

text \<open>One charge: the device's counters move together or not at all.\<close>

lemma send_charge_eq:
  "send_charge device byts now_ms b =
    (let w = now_ms div SEND_WINDOW_MS; u = usage_at w (sb_devices b) device in
     if sb_frames_per_window b < saturating_add (du_frames u) 1 then (Inl FrameRate, send_put device w u b)
     else if sb_bytes_per_window b < saturating_add (du_bytes u) byts then (Inl ByteRate, send_put device w u b)
     else (Inr (), send_put device w
       (u\<lparr>du_frames := saturating_add (du_frames u) 1, du_bytes := saturating_add (du_bytes u) byts\<rparr>) b))"
  unfolding send_charge_def Let_def send_charge_usage [unfolded Let_def] send_put_def by (rule refl)

lemma send_request_cases:
  assumes "send_request (device, byts, now_ms) b = (ok, b')"
  obtains w u where "w = now_ms div SEND_WINDOW_MS" "u = usage_at w (sb_devices b) device" "\<not> ok" "b' = send_put device w u b"
  | w u where "w = now_ms div SEND_WINDOW_MS" "u = usage_at w (sb_devices b) device" "ok"
      "saturating_add (du_frames u) 1 \<le> sb_frames_per_window b" "saturating_add (du_bytes u) byts \<le> sb_bytes_per_window b"
      "b' = send_put device w (u\<lparr>du_frames := saturating_add (du_frames u) 1, du_bytes := saturating_add (du_bytes u) byts\<rparr>) b"
  using assms by (auto simp: send_request_def send_charge_eq Let_def not_less split: if_splits)

lemma unat_window: "unat now_ms div 60000 = unat (now_ms div SEND_WINDOW_MS)"
  by (simp add: SEND_WINDOW_MS_def unat_div)

definition send_look :: "(device_usage \<Rightarrow> u64) \<Rightarrow> send_budget \<Rightarrow> bytes \<Rightarrow> (nat \<times> nat) option" where
  "send_look f b = bucket_of du_window (\<lambda>u. unat (f u)) (sb_devices b)"

lemma send_look_used:
  assumes "f (no_usage w) = 0"
  shows "used_in (unat w) (send_look f b device) = unat (f (usage_at w (sb_devices b) device))"
  using assms by (auto simp: send_look_def used_in_bucket usage_at_def split: option.splits)

lemma send_look_put:
  "send_look f (send_put device w u b) device = Some (unat (du_window u), unat (f u))"
  "k \<noteq> device \<Longrightarrow> send_look f (send_put device w u b) k = Some e \<Longrightarrow> send_look f b k = Some e"
  "k \<noteq> device \<Longrightarrow> send_look f b k = Some (unat w, n) \<Longrightarrow> send_look f (send_put device w u b) k = Some (unat w, n)"
  using send_swept by (auto simp: send_look_def send_put_def intro: bucket_of_old bucket_of_kept)

lemma send_put_limits [simp]:
  "sb_frames_per_window (send_put device w u b) = sb_frames_per_window b"
  "sb_bytes_per_window (send_put device w u b) = sb_bytes_per_window b"
  by (simp_all add: send_put_def)

lemma send_request_look:
  assumes r: "send_request (device, byts, now_ms) b = (ok, b')"
    and f: "f = du_frames \<and> limit = sb_frames_per_window b \<and> c = 1 \<or> f = du_bytes \<and> limit = sb_bytes_per_window b \<and> c = byts"
    and limit: "limit \<noteq> - 1"
  defines "w \<equiv> unat now_ms div 60000"
  shows "send_look f b' device = Some (w, used_in w (send_look f b device) + (if ok then unat c else 0))"
    and "ok \<Longrightarrow> used_in w (send_look f b device) + unat c \<le> unat limit"
proof -
  have w: "w = unat (now_ms div SEND_WINDOW_MS)"
    by (simp add: w_def unat_window)
  have used: "used_in w (send_look f b device) = unat (f (usage_at (now_ms div SEND_WINDOW_MS) (sb_devices b) device))"
    unfolding w using f by (intro send_look_used) (auto simp: no_usage_def)
  have "send_look f b' device = Some (w, used_in w (send_look f b device) + (if ok then unat c else 0)) \<and>
      (ok \<longrightarrow> used_in w (send_look f b device) + unat c \<le> unat limit)"
    using r
  proof (cases rule: send_request_cases)
    case 1
    then show ?thesis using used by (simp add: send_look_put w)
  next
    case (2 w u)
    have "saturating_add (f u) c \<le> limit"
      using f 2 by auto
    note sat = unat_sat_le [OF this limit]
    show ?thesis
      using 2 f sat used w by (auto simp: send_look_put)
  qed
  then show "send_look f b' device = Some (w, used_in w (send_look f b device) + (if ok then unat c else 0))"
    "ok \<Longrightarrow> used_in w (send_look f b device) + unat c \<le> unat limit"
    by blast+
qed

lemma send_request_others:
  assumes "send_request (device, byts, now_ms) b = (ok, b')" "k \<noteq> device"
  shows "send_look f b k = Some (unat now_ms div 60000, n) \<Longrightarrow> send_look f b' k = Some (unat now_ms div 60000, n)"
    and "send_look f b' k = Some e \<Longrightarrow> send_look f b k = Some e"
  using assms(1) by (cases rule: send_request_cases; use assms(2) in \<open>auto simp: unat_window dest: send_look_put(2,3)\<close>)+

lemma send_request_limits:
  assumes "send_request r b = (ok, b')"
  shows "sb_frames_per_window b' = sb_frames_per_window b" "sb_bytes_per_window b' = sb_bytes_per_window b"
  using assms by (cases r; auto elim: send_request_cases)+

interpretation send_frames: keyed_buckets send_request "\<lambda>(_, _, now). unat now" fst "\<lambda>_. 1" "send_look du_frames" 60000
  "unat limit" "\<lambda>b. sb_frames_per_window b = limit \<and> limit \<noteq> - 1" for limit :: u64
proof (unfold_locales, goal_cases)
  case (2 s r b s')
  then show ?case by (simp add: send_request_limits)
next
  case (3 s r b s')
  then show ?case using send_request_look(1) [of _ _ _ s b s' du_frames limit 1] by (cases r) simp
next
  case (4 s r s')
  then show ?case using send_request_look(2) [of _ _ _ s True s' du_frames limit 1] by (cases r) simp
next
  case (5 s r b s' k n)
  then show ?case using send_request_others(1) by (cases r) simp
next
  case (6 s r b s' k e)
  then show ?case using send_request_others(2) by (cases r) simp
qed simp

interpretation send_bytes: keyed_buckets send_request "\<lambda>(_, _, now). unat now" fst "\<lambda>(_, byts, _). unat byts" "send_look du_bytes" 60000
  "unat limit" "\<lambda>b. sb_bytes_per_window b = limit \<and> limit \<noteq> - 1" for limit :: u64
proof (unfold_locales, goal_cases)
  case (2 s r b s')
  then show ?case by (simp add: send_request_limits)
next
  case (3 s r b s')
  moreover obtain device byts now where "r = (device, byts, now)" by (cases r)
  ultimately show ?case using send_request_look(1) [of device byts now s b s' du_bytes limit byts] by simp
next
  case (4 s r s')
  moreover obtain device byts now where "r = (device, byts, now)" by (cases r)
  ultimately show ?case using send_request_look(2) [of device byts now s True s' du_bytes limit byts] by simp
next
  case (5 s r b s' k n)
  then show ?case using send_request_others(1) by (cases r) simp
next
  case (6 s r b s' k e)
  then show ?case using send_request_others(2) by (cases r) simp
qed simp

text \<open>What the counters of one device say from time \<open>c\<close> on.\<close>

definition same_from :: "nat \<Rightarrow> bytes \<Rightarrow> send_budget \<Rightarrow> send_budget \<Rightarrow> bool" where
  "same_from c device b1 b2 \<longleftrightarrow>
    (\<forall>w. c div 60000 \<le> unat w \<longrightarrow> usage_at w (sb_devices b1) device = usage_at w (sb_devices b2) device) \<and>
    sb_frames_per_window b1 = sb_frames_per_window b2 \<and> sb_bytes_per_window b1 = sb_bytes_per_window b2"

lemma usage_at_put:
  "usage_at w' (sb_devices (send_put device w u b)) device = (if du_window u = w' then u else no_usage w')"
  "k \<noteq> device \<Longrightarrow> usage_at w (sb_devices (send_put device w u b)) k = usage_at w (sb_devices b) k"
  by (auto simp: usage_at_def send_put_def lookup_update' send_sweep_def lookup_filter split: option.splits)

lemma usage_at_new:
  "usage_at w (sb_devices (send_budget_new f n)) device = no_usage w"
  "sb_frames_per_window (send_budget_new f n) = f" "sb_bytes_per_window (send_budget_new f n) = n"
  by (simp_all add: usage_at_def send_budget_new_def)

lemma send_put_keeps:
  assumes "unat w \<le> unat w'" "k \<noteq> device" "\<And>u. Mapping.lookup (sb_devices b) k = Some u \<Longrightarrow> unat (du_window u) \<le> unat w"
  shows "usage_at w' (sb_devices (send_put device w v b)) k = usage_at w' (sb_devices b) k"
proof (cases "w = w'")
  case False
  then have "unat w < unat w'"
    using assms(1) by (metis order_less_le word_unat_eq_iff)
  then show ?thesis
    using assms(2,3) by (auto simp: usage_at_def send_put_def lookup_update' send_sweep_def lookup_filter split: option.splits)
qed (use assms in \<open>simp add: usage_at_put\<close>)

definition no_future :: "nat \<Rightarrow> send_budget \<Rightarrow> bool" where
  "no_future c b \<longleftrightarrow> (\<forall>k u. Mapping.lookup (sb_devices b) k = Some u \<longrightarrow> unat (du_window u) \<le> c div 60000)"

lemma no_future_put:
  assumes "no_future c b" "c \<le> t" "unat (du_window u) \<le> t div 60000"
  shows "no_future t (send_put device w u b)"
  using assms div_le_mono [of c t 60000]
  by (fastforce simp: no_future_def send_put_def lookup_update' send_sweep_def lookup_filter split: option.splits if_splits)

lemma send_request_put:
  obtains u' where "send_request (device, byts, now_ms) b = (ok, b') \<Longrightarrow> b' = send_put device (now_ms div SEND_WINDOW_MS) u' b"
    "du_window u' = now_ms div SEND_WINDOW_MS"
proof (cases "send_request (device, byts, now_ms) b = (ok, b')")
  case True
  then show ?thesis
    by (rule send_request_cases) (use that in auto)
next
  case False
  then show ?thesis
    using that [of "no_usage (now_ms div SEND_WINDOW_MS)"] by (simp add: no_usage_def)
qed

lemma same_from_own:
  assumes same: "same_from c device b1 b2" and c: "c \<le> unat now_ms"
    and r1: "send_request (device, byts, now_ms) b1 = (ok1, b1')" and r2: "send_request (device, byts, now_ms) b2 = (ok2, b2')"
  shows "ok1 = ok2 \<and> same_from (unat now_ms) device b1' b2'"
proof -
  let ?w = "now_ms div SEND_WINDOW_MS"
  have "usage_at ?w (sb_devices b1) device = usage_at ?w (sb_devices b2) device"
    using same c div_le_mono [OF c, of 60000] by (simp add: same_from_def unat_window)
  then show ?thesis
    using r1 r2 same
    by (auto simp: send_request_def send_charge_eq Let_def same_from_def usage_at_put split: if_splits)
qed

lemma same_from_other:
  assumes same: "same_from c device b1 b2" and c: "c \<le> unat now_ms" and past: "no_future c b1"
    and r: "send_request (d, byts, now_ms) b1 = (ok, b1')" and d: "d \<noteq> device"
  shows "same_from (unat now_ms) device b1' b2"
proof -
  obtain u' where b1': "b1' = send_put d (now_ms div SEND_WINDOW_MS) u' b1"
    using send_request_put [of d byts now_ms b1 ok b1'] r by metis
  have "usage_at w (sb_devices b1') device = usage_at w (sb_devices b1) device" if "unat now_ms div 60000 \<le> unat w" for w
    unfolding b1' using that past d div_le_mono [OF c, of 60000]
    by (intro send_put_keeps) (auto simp: unat_window no_future_def intro: order_trans)
  then show ?thesis
    using same div_le_mono [OF c, of 60000] by (auto simp: same_from_def b1' intro: order_trans)
qed

lemma isolated_run:
  "same_from c device b1 b2 \<Longrightarrow> no_future c b1 \<Longrightarrow> sorted (c # map (\<lambda>(_, _, now). unat now) rs) \<Longrightarrow>
    filter (\<lambda>(r, _). fst r = device) (outcomes send_request b1 rs) =
    outcomes send_request b2 (filter (\<lambda>r. fst r = device) rs)"
proof (induction rs arbitrary: c b1 b2)
  case (Cons r rs)
  obtain d byts now_ms where r: "r = (d, byts, now_ms)" by (cases r)
  obtain ok b1' where r1: "send_request (d, byts, now_ms) b1 = (ok, b1')"
    by (cases "send_request (d, byts, now_ms) b1")
  have c: "c \<le> unat now_ms" and srt: "sorted (unat now_ms # map (\<lambda>(_, _, now). unat now) rs)"
    using Cons.prems(3) by (simp_all add: r)
  have past: "no_future (unat now_ms) b1'"
    using send_request_put [of d byts now_ms b1 ok b1'] no_future_put [OF Cons.prems(2) c] r1 unat_window
    by (metis order_refl)
  show ?case
  proof (cases "d = device")
    case True
    obtain ok2 b2' where r2: "send_request (d, byts, now_ms) b2 = (ok2, b2')"
      by (cases "send_request (d, byts, now_ms) b2")
    show ?thesis
      using Cons.IH [OF _ past srt, of b2'] same_from_own [OF Cons.prems(1) c] r1 r2 True by (simp add: r)
  next
    case False
    then show ?thesis
      using Cons.IH [OF same_from_other [OF Cons.prems(1) c Cons.prems(2) r1 False] past srt] r1 by (simp add: r)
  qed
qed simp

text \<open>C18. One device cannot spend another's allowance on \<open>SEND\<close>. Under a clock that does not go backwards the
  answers a device gets in any run of charges are the answers it would get alone, sweeps included.\<close>

theorem send_isolated:
  assumes "sorted (map (\<lambda>(_, _, now). unat now) rs)"
  shows "filter (\<lambda>(r, _). fst r = device) (outcomes send_request (send_budget_new frames byts) rs) =
    outcomes send_request (send_budget_new frames byts) (filter (\<lambda>r. fst r = device) rs)"
  by (rule isolated_run [of 0]) (use assms in \<open>auto simp: same_from_def no_future_def send_budget_new_def\<close>)

text \<open>C19. What one device sends is bounded. Under a clock that does not go backwards, the frames and bytes
  admitted from a device are within the two limits inside every bucket of a minute, and within twice the
  limits inside every interval of a minute, whatever the counters held before and whoever else sends.\<close>

theorem send_budget_bounded:
  assumes "sorted (map (\<lambda>(_, _, now). unat now) rs)"
    and "sb_frames_per_window b = frames" "frames \<noteq> - 1" "sb_bytes_per_window b = byts" "byts \<noteq> - 1"
  shows "admitted_cost (\<lambda>(d, _, now). d = device \<and> unat now div 60000 = w) (\<lambda>_. 1) (outcomes send_request b rs) \<le> unat frames \<and>
    admitted_cost (\<lambda>(d, _, now). d = device \<and> unat now div 60000 = w) (\<lambda>(_, n, _). unat n) (outcomes send_request b rs) \<le> unat byts \<and>
    admitted_cost (\<lambda>(d, _, now). d = device \<and> a \<le> unat now \<and> unat now < a + 60000) (\<lambda>_. 1) (outcomes send_request b rs) \<le> 2 * unat frames \<and>
    admitted_cost (\<lambda>(d, _, now). d = device \<and> a \<le> unat now \<and> unat now < a + 60000) (\<lambda>(_, n, _). unat n) (outcomes send_request b rs) \<le> 2 * unat byts"
  using send_frames.key_bucket_bound [of b frames rs device w] send_bytes.key_bucket_bound [of b byts rs device w]
    send_frames.key_interval_bound [of b frames rs device a] send_bytes.key_interval_bound [of b byts rs device a] assms
  by (simp add: case_prod_unfold)

theorem send_isolated_witness:
  "filter (\<lambda>(r, _). fst r = [1]) (outcomes send_request (send_budget_new 2 100) [([1], 60, 5), ([2], 90, 6), ([1], 60, 7), ([1], 30, 8)]) =
    [(([1], 60, 5), True), (([1], 60, 7), False), (([1], 30, 8), True)]"
  by (subst send_isolated, simp)
    (simp add: send_request_def send_charge_eq usage_at_put Let_def usage_at_new no_usage_def SEND_WINDOW_MS_def
      saturating_add_def)

theorem send_budget_bounded_witness:
  "admitted_cost (\<lambda>(d, _, now). d = [1] \<and> unat now div 60000 = 0) (\<lambda>_. 1)
    (outcomes send_request (send_budget_new 2 100) [([1], 60, 5), ([2], 90, 6), ([1], 60, 7), ([1], 30, 8)]) \<le> 2"
  using send_budget_bounded [of "[([1], 60, 5), ([2], 90, 6), ([1], 60, 7), ([1], 30, 8)]" "send_budget_new 2 100" 2 100 "[1]" 0]
  by (simp add: send_budget_new_def)

subsubsection \<open>The budget into a group and of a workspace\<close>

type_synonym ingress_request = "bytes \<times> bytes \<times> string \<times> u64 \<times> u64"

definition ingress_request :: "ingress_request \<Rightarrow> group_ingress \<Rightarrow> bool \<times> group_ingress" where
  "ingress_request r b =
    (case r of (member, grp, workspace, byts, now_ms) \<Rightarrow>
      let (res, b') = ingress_charge member grp workspace byts now_ms b in (res = Inr (), b'))"

definition ingress_at :: "u64 \<Rightarrow> ('k, ingress_usage) mapping \<Rightarrow> 'k \<Rightarrow> u64" where
  "ingress_at w m k = (case Mapping.lookup m k of Some u \<Rightarrow> if iu_window u = w then iu_bytes u else 0 | None \<Rightarrow> 0)"

definition ingress_look :: "('k, ingress_usage) mapping \<Rightarrow> 'k \<Rightarrow> (nat \<times> nat) option" where
  "ingress_look = bucket_of iu_window (\<lambda>u. unat (iu_bytes u))"

lemma ingress_swept: "swept (\<lambda>u. iu_window u = w) m (ingress_sweep w m)"
  by (simp add: swept_def ingress_sweep_def)

lemma ingress_entry:
  "ingress_current (entry_or (ingress_sweep w m) k \<lparr>iu_window = 0, iu_bytes = 0\<rparr>) w = \<lparr>iu_window = w, iu_bytes = ingress_at w m k\<rparr>"
  by (auto simp: ingress_current_def entry_or_def ingress_sweep_def lookup_filter ingress_at_def split: option.splits)

lemma ingress_used: "used_in (unat w) (ingress_look m k) = unat (ingress_at w m k)"
  by (auto simp: ingress_look_def used_in_bucket ingress_at_def split: option.splits)

lemma ingress_request_cases:
  assumes "ingress_request (member, grp, workspace, byts, now_ms) b = (ok, b')"
  obtains w p n where "w = now_ms div GROUP_INGRESS_WINDOW_MS"
    "gi_principal_group b' = Mapping.update (member, grp) \<lparr>iu_window = w, iu_bytes = p\<rparr> (ingress_sweep w (gi_principal_group b))"
    "gi_workspace b' = Mapping.update workspace \<lparr>iu_window = w, iu_bytes = n\<rparr> (ingress_sweep w (gi_workspace b))"
    "\<not> ok \<Longrightarrow> p = ingress_at w (gi_principal_group b) (member, grp) \<and> n = ingress_at w (gi_workspace b) workspace"
    "ok \<Longrightarrow> p = saturating_add (ingress_at w (gi_principal_group b) (member, grp)) byts \<and> p \<le> gi_principal_group_bytes b"
    "ok \<Longrightarrow> n = saturating_add (ingress_at w (gi_workspace b) workspace) byts \<and> n \<le> gi_workspace_bytes b"
  using assms unfolding ingress_request_def ingress_charge_def prod.case Let_def ingress_entry
  by (auto simp: not_less split: if_splits)

lemma ingress_request_limits:
  assumes "ingress_request r b = (ok, b')"
  shows "gi_principal_group_bytes b' = gi_principal_group_bytes b" "gi_workspace_bytes b' = gi_workspace_bytes b"
  using assms by (auto simp: ingress_request_def ingress_charge_def Let_def split: prod.splits if_splits)

lemma unat_ingress_window: "unat now_ms div 60000 = unat (now_ms div GROUP_INGRESS_WINDOW_MS)"
  by (simp add: GROUP_INGRESS_WINDOW_MS_def unat_div)

lemma ingress_look_put:
  "ingress_look (Mapping.update k \<lparr>iu_window = w, iu_bytes = n\<rparr> (ingress_sweep w m)) k = Some (unat w, unat n)"
  "k' \<noteq> k \<Longrightarrow> ingress_look (Mapping.update k u (ingress_sweep w m)) k' = Some e \<Longrightarrow> ingress_look m k' = Some e"
  "k' \<noteq> k \<Longrightarrow> ingress_look m k' = Some (unat w, j) \<Longrightarrow> ingress_look (Mapping.update k u (ingress_sweep w m)) k' = Some (unat w, j)"
  using ingress_swept by (auto simp: ingress_look_def intro: bucket_of_old bucket_of_kept)

interpretation ingress_pair: keyed_buckets ingress_request "\<lambda>(_, _, _, _, now). unat now" "\<lambda>(member, grp, _). (member, grp)"
  "\<lambda>(_, _, _, n, _). unat n" "\<lambda>b. ingress_look (gi_principal_group b)" 60000 "unat limit"
  "\<lambda>b. gi_principal_group_bytes b = limit \<and> limit \<noteq> - 1" for limit :: u64
proof (unfold_locales, goal_cases)
  case (2 s r b s')
  then show ?case by (simp add: ingress_request_limits)
next
  case (3 s r b s')
  obtain m g ws n now where r: "r = (m, g, ws, n, now)" by (cases r)
  show ?case
    using 3 unat_sat_le(1) [of _ n limit] unfolding r
    by (elim ingress_request_cases) (cases b; simp add: unat_ingress_window ingress_look_put ingress_used)
next
  case (4 s r s')
  obtain m g ws n now where r: "r = (m, g, ws, n, now)" by (cases r)
  show ?case
    using 4 unat_sat_le(2) [of _ n limit] unfolding r
    by (elim ingress_request_cases) (simp add: unat_ingress_window ingress_used)
next
  case (5 s r b s' k n)
  then show ?case
    by (cases r) (auto elim!: ingress_request_cases simp: unat_ingress_window ingress_look_put(3))
next
  case (6 s r b s' k e)
  then show ?case
    by (cases r) (auto elim!: ingress_request_cases dest: ingress_look_put(2) [rotated])
qed simp

interpretation ingress_whole: keyed_buckets ingress_request "\<lambda>(_, _, _, _, now). unat now" "\<lambda>(_, _, workspace, _). workspace"
  "\<lambda>(_, _, _, n, _). unat n" "\<lambda>b. ingress_look (gi_workspace b)" 60000 "unat limit"
  "\<lambda>b. gi_workspace_bytes b = limit \<and> limit \<noteq> - 1" for limit :: u64
proof (unfold_locales, goal_cases)
  case (2 s r b s')
  then show ?case by (simp add: ingress_request_limits)
next
  case (3 s r b s')
  obtain m g ws n now where r: "r = (m, g, ws, n, now)" by (cases r)
  show ?case
    using 3 unat_sat_le(1) [of _ n limit] unfolding r
    by (elim ingress_request_cases) (cases b; simp add: unat_ingress_window ingress_look_put ingress_used)
next
  case (4 s r s')
  obtain m g ws n now where r: "r = (m, g, ws, n, now)" by (cases r)
  show ?case
    using 4 unat_sat_le(2) [of _ n limit] unfolding r
    by (elim ingress_request_cases) (simp add: unat_ingress_window ingress_used)
next
  case (5 s r b s' k n)
  then show ?case
    by (cases r) (auto elim!: ingress_request_cases simp: unat_ingress_window ingress_look_put(3))
next
  case (6 s r b s' k e)
  then show ?case
    by (cases r) (auto elim!: ingress_request_cases dest: ingress_look_put(2) [rotated])
qed simp

text \<open>C20. What one member writes into one group, and what one workspace takes in, is bounded: within the
  limit inside every bucket of a minute and within twice the limit inside every interval of a minute,
  under a clock that does not go backwards.\<close>

theorem group_ingress_bounded:
  assumes "sorted (map (\<lambda>(_, _, _, _, now). unat now) rs)"
    and "gi_principal_group_bytes b = pair" "pair \<noteq> - 1" "gi_workspace_bytes b = whole" "whole \<noteq> - 1"
  shows "admitted_cost (\<lambda>(m, g, _, _, now). m = member \<and> g = grp \<and> unat now div 60000 = w) (\<lambda>(_, _, _, n, _). unat n)
      (outcomes ingress_request b rs) \<le> unat pair \<and>
    admitted_cost (\<lambda>(_, _, v, _, now). v = workspace \<and> unat now div 60000 = w) (\<lambda>(_, _, _, n, _). unat n)
      (outcomes ingress_request b rs) \<le> unat whole \<and>
    admitted_cost (\<lambda>(m, g, _, _, now). m = member \<and> g = grp \<and> a \<le> unat now \<and> unat now < a + 60000)
      (\<lambda>(_, _, _, n, _). unat n) (outcomes ingress_request b rs) \<le> 2 * unat pair \<and>
    admitted_cost (\<lambda>(_, _, v, _, now). v = workspace \<and> a \<le> unat now \<and> unat now < a + 60000)
      (\<lambda>(_, _, _, n, _). unat n) (outcomes ingress_request b rs) \<le> 2 * unat whole"
  using ingress_pair.key_bucket_bound [of b pair rs "(member, grp)" w] ingress_whole.key_bucket_bound [of b whole rs workspace w]
    ingress_pair.key_interval_bound [of b pair rs "(member, grp)" a] ingress_whole.key_interval_bound [of b whole rs workspace a] assms
  by (simp add: case_prod_unfold)

theorem group_ingress_bounded_witness:
  "admitted_cost (\<lambda>(m, g, _, _, now). m = [1] \<and> g = [7] \<and> unat now div 60000 = 0) (\<lambda>(_, _, _, n, _). unat n)
    (outcomes ingress_request (group_ingress_new 50 80)
      [([1], [7], ''w'', 40, 5), ([1], [7], ''w'', 40, 6), ([2], [7], ''w'', 40, 7), ([3], [7], ''w'', 10, 8)]) \<le> 50"
  using group_ingress_bounded [of "[([1], [7], ''w'', 40, 5), ([1], [7], ''w'', 40, 6), ([2], [7], ''w'', 40, 7), ([3], [7], ''w'', 10, 8)]"
      "group_ingress_new 50 80" 50 80 "[1]" "[7]" 0]
  by (simp add: group_ingress_new_def)

subsubsection \<open>The download budget\<close>

datatype blob_charge = BlobRequest bytes u64 | BlobBytes bytes u64 u64

fun blob_device :: "blob_charge \<Rightarrow> bytes" where
  "blob_device (BlobRequest d _) = d"
| "blob_device (BlobBytes d _ _) = d"

fun blob_at :: "blob_charge \<Rightarrow> u64" where
  "blob_at (BlobRequest _ now) = now"
| "blob_at (BlobBytes _ _ now) = now"

fun blob_requests :: "blob_charge \<Rightarrow> nat" where
  "blob_requests (BlobRequest _ _) = 1"
| "blob_requests (BlobBytes _ _ _) = 0"

fun blob_bytes :: "blob_charge \<Rightarrow> nat" where
  "blob_bytes (BlobRequest _ _) = 0"
| "blob_bytes (BlobBytes _ n _) = unat n"

fun blob_allow :: "blob_charge \<Rightarrow> rate_limiter \<Rightarrow> bool \<times> rate_limiter" where
  "blob_allow (BlobRequest device now_ms) l = allow_request device now_ms l"
| "blob_allow (BlobBytes device n now_ms) l = allow_bytes device n now_ms l"

lemma rl_swept:
  "swept (\<lambda>u. bu_minute_bucket u = minute \<or> bu_day_bucket u = day) m (rl_sweep m minute day)"
  by (simp add: swept_def rl_sweep_def)

definition minute_at :: "u64 \<Rightarrow> (bytes, blob_usage) mapping \<Rightarrow> bytes \<Rightarrow> u32" where
  "minute_at w m k = (case Mapping.lookup m k of Some u \<Rightarrow> if bu_minute_bucket u = w then bu_minute_count u else 0 | None \<Rightarrow> 0)"

definition day_at :: "u64 \<Rightarrow> (bytes, blob_usage) mapping \<Rightarrow> bytes \<Rightarrow> u64" where
  "day_at w m k = (case Mapping.lookup m k of Some u \<Rightarrow> if bu_day_bucket u = w then bu_day_bytes u else 0 | None \<Rightarrow> 0)"

lemma rolled_eq:
  "rolled m device now_ms =
    (\<lparr>bu_minute_bucket = now_ms div 60000, bu_minute_count = minute_at (now_ms div 60000) m device,
      bu_day_bucket = now_ms div 86400000, bu_day_bytes = day_at (now_ms div 86400000) m device\<rparr>,
     rl_sweep m (now_ms div 60000) (now_ms div 86400000))"
  by (auto simp: rolled_def Let_def entry_or_def rl_sweep_def lookup_filter minute_at_def day_at_def split: option.splits)

lemma blob_allow_cases:
  assumes "blob_allow r l = (ok, l')"
  obtains c d where
    "rl_devices l' = Mapping.update (blob_device r)
      \<lparr>bu_minute_bucket = blob_at r div 60000, bu_minute_count = c, bu_day_bucket = blob_at r div 86400000, bu_day_bytes = d\<rparr>
      (rl_sweep (rl_devices l) (blob_at r div 60000) (blob_at r div 86400000))"
    "unat c = unat (minute_at (blob_at r div 60000) (rl_devices l) (blob_device r)) + (if ok then blob_requests r else 0)"
    "blob_requests r = 1 \<Longrightarrow> ok \<Longrightarrow> unat c \<le> unat (rl_requests_per_minute l)"
    "rl_bytes_per_day l \<noteq> - 1 \<Longrightarrow> unat d = unat (day_at (blob_at r div 86400000) (rl_devices l) (blob_device r)) + (if ok then blob_bytes r else 0)"
    "rl_bytes_per_day l \<noteq> - 1 \<Longrightarrow> blob_requests r = 0 \<Longrightarrow> ok \<Longrightarrow> unat d \<le> unat (rl_bytes_per_day l)"
proof (cases r)
  case (BlobRequest device now_ms)
  let ?c = "minute_at (now_ms div 60000) (rl_devices l) device"
  have "unat (?c + 1) = unat ?c + 1 \<and> unat ?c + 1 \<le> unat (rl_requests_per_minute l)" if "\<not> rl_requests_per_minute l \<le> ?c"
    using that unat_inc [of ?c "rl_requests_per_minute l"] by (simp add: not_le)
  then show ?thesis
    using assms that BlobRequest by (auto simp: allow_request_def rolled_eq split: if_splits)
next
  case (BlobBytes device n now_ms)
  then show ?thesis
    using assms that unat_sat_le [of "day_at (now_ms div 86400000) (rl_devices l) device" n "rl_bytes_per_day l"]
    by (auto simp: allow_bytes_def rolled_eq not_less split: if_splits)
qed

lemma blob_allow_limits:
  assumes "blob_allow r l = (ok, l')"
  shows "rl_requests_per_minute l' = rl_requests_per_minute l" "rl_bytes_per_day l' = rl_bytes_per_day l"
  using assms by (cases r; auto simp: allow_request_def allow_bytes_def split: prod.splits if_splits)+

lemma minute_used:
  "used_in (unat w) (bucket_of bu_minute_bucket (\<lambda>u. unat (bu_minute_count u)) m k) = unat (minute_at w m k)"
  by (auto simp: used_in_bucket minute_at_def split: option.splits)

lemma day_used:
  "used_in (unat w) (bucket_of bu_day_bucket (\<lambda>u. unat (bu_day_bytes u)) m k) = unat (day_at w m k)"
  by (auto simp: used_in_bucket day_at_def split: option.splits)

lemma unat_minute_day:
  "unat (now_ms :: u64) div 60000 = unat (now_ms div 60000)" "unat now_ms div 86400000 = unat (now_ms div 86400000)"
  by (simp_all add: unat_div)

interpretation blob_minute: keyed_buckets blob_allow "\<lambda>r. unat (blob_at r)" blob_device blob_requests
  "\<lambda>l. bucket_of bu_minute_bucket (\<lambda>u. unat (bu_minute_count u)) (rl_devices l)" 60000 "unat limit"
  "\<lambda>l. rl_requests_per_minute l = limit" for limit :: u32
proof (unfold_locales, goal_cases)
  case (2 s r b s')
  then show ?case by (simp add: blob_allow_limits)
next
  case (3 s r b s')
  show ?case
    by (rule blob_allow_cases [OF 3(2)]) (simp add: unat_minute_day minute_used)
next
  case (4 s r s')
  have rq: "blob_requests r = 1" using 4(3) by (cases r) auto
  show ?case
    by (rule blob_allow_cases [OF 4(2)]) (use 4(1) rq in \<open>simp add: unat_minute_day minute_used\<close>)
next
  case (5 s r b s' k n)
  show ?case
    by (rule blob_allow_cases [OF 5(2)], simp only: unat_minute_day)
      (rule bucket_of_kept [OF rl_swept]; use 5(3,4) in \<open>simp add: unat_minute_day\<close>)
next
  case (6 s r b s' k e)
  show ?case
    by (rule blob_allow_cases [OF 6(2)]) (rule bucket_of_old [OF rl_swept]; use 6(3,4) in auto)
qed simp

interpretation blob_day: keyed_buckets blob_allow "\<lambda>r. unat (blob_at r)" blob_device blob_bytes
  "\<lambda>l. bucket_of bu_day_bucket (\<lambda>u. unat (bu_day_bytes u)) (rl_devices l)" 86400000 "unat limit"
  "\<lambda>l. rl_bytes_per_day l = limit \<and> limit \<noteq> - 1" for limit :: u64
proof (unfold_locales, goal_cases)
  case (2 s r b s')
  then show ?case by (simp add: blob_allow_limits)
next
  case (3 s r b s')
  show ?case
    by (rule blob_allow_cases [OF 3(2)]) (use 3(1) in \<open>simp add: unat_minute_day day_used\<close>)
next
  case (4 s r s')
  have rq: "blob_requests r = 0" using 4(3) by (cases r) auto
  show ?case
    by (rule blob_allow_cases [OF 4(2)]) (use 4(1) rq in \<open>simp add: unat_minute_day day_used\<close>)
next
  case (5 s r b s' k n)
  show ?case
    by (rule blob_allow_cases [OF 5(2)], simp only: unat_minute_day)
      (rule bucket_of_kept [OF rl_swept]; use 5(3,4) in \<open>simp add: unat_minute_day\<close>)
next
  case (6 s r b s' k e)
  show ?case
    by (rule blob_allow_cases [OF 6(2)]) (rule bucket_of_old [OF rl_swept]; use 6(3,4) in auto)
qed simp

subsubsection \<open>The registration budget\<close>

type_synonym push_request = "bytes \<times> u64"

definition push_request :: "push_request \<Rightarrow> (bytes, u64 list) mapping \<Rightarrow> bool \<times> (bytes, u64 list) mapping" where
  "push_request r m = (case r of (entry_hash, now_ms) \<Rightarrow> push_allow entry_hash now_ms m)"

text \<open>The admitted attempts \<open>H\<close> of one principal up to \<open>c\<close>: what the table remembers of them, and the bound.\<close>

definition attempts_ok :: "bytes \<Rightarrow> nat list \<Rightarrow> (bytes, u64 list) mapping \<Rightarrow> nat \<Rightarrow> bool" where
  "attempts_ok entry H m c \<longleftrightarrow>
    (\<forall>t\<in>set H. t \<le> c) \<and>
    (\<forall>x\<ge>c. length (filter (\<lambda>t. x - t < 3600000) H) \<le> length (filter (\<lambda>t. x - unat t < 3600000) (entry_or m entry []))) \<and>
    (\<forall>a. length (filter (\<lambda>t. a \<le> t \<and> t < a + 3600000) H) \<le> 5)"

lemma recent_word: "saturating_sub now_ms t < RATE_WINDOW_MS \<longleftrightarrow> unat now_ms - unat t < 3600000"
  by (simp add: RATE_WINDOW_MS_def word_less_nat_alt unat_saturating_sub)

lemma attempts_admitted:
  assumes ok: "attempts_ok entry H m c" and c: "c \<le> unat now_ms" and p: "push_allow entry now_ms m = (True, m')"
  shows "attempts_ok entry (unat now_ms # H) m' (unat now_ms)"
proof -
  define old where "old = filter (\<lambda>t. unat now_ms - unat t < 3600000) (entry_or m entry [])"
  have few: "length old < 5" and m': "m' = Mapping.update entry (old @ [now_ms]) m"
    using p by (auto simp: push_allow_def Let_def recent_word old_def REGISTRATIONS_PER_HOUR_def split: if_splits)
  have entry: "entry_or m' entry [] = old @ [now_ms]"
    by (simp add: m' entry_or_def)
  have recent: "length (filter (\<lambda>t. x - t < 3600000) H) \<le> length (filter (\<lambda>t. x - unat t < 3600000) old)" if "unat now_ms \<le> x" for x
  proof -
    have "filter (\<lambda>t. x - unat t < 3600000) old = filter (\<lambda>t. x - unat t < 3600000) (entry_or m entry [])"
      unfolding old_def filter_filter by (rule filter_cong) (use that in auto)
    then show ?thesis
      using ok c that by (simp add: attempts_ok_def)
  qed
  have "length (filter (\<lambda>t. a \<le> t \<and> t < a + 3600000) H) \<le> 4" if "a \<le> unat now_ms" "unat now_ms < a + 3600000" for a
  proof -
    have "length (filter (\<lambda>t. a \<le> t \<and> t < a + 3600000) H) \<le> length (filter (\<lambda>t. unat now_ms - t < 3600000) H)"
      by (induction H) (use that in auto)
    also have "\<dots> \<le> length (filter (\<lambda>t. unat now_ms - unat t < 3600000) old)"
      by (rule recent) simp
    also have "\<dots> \<le> length old" by simp
    finally show ?thesis using few by simp
  qed
  then show ?thesis
    using ok c recent by (fastforce simp: attempts_ok_def entry)
qed

lemma attempts_other:
  assumes ok: "attempts_ok entry H m c" and c: "c \<le> unat now_ms" and p: "push_allow e now_ms m = (b, m')" and "\<not> (b \<and> e = entry)"
  shows "attempts_ok entry H m' (unat now_ms)"
proof -
  have "length (filter (\<lambda>t. x - unat t < 3600000) (entry_or m entry [])) \<le> length (filter (\<lambda>t. x - unat t < 3600000) (entry_or m' entry []))"
    if "unat now_ms \<le> x" for x
  proof (cases "e = entry")
    case True
    then have "entry_or m' entry [] = filter (\<lambda>t. unat now_ms - unat t < 3600000) (entry_or m entry [])"
      using assms(3,4) by (auto simp: push_allow_def Let_def recent_word entry_or_def split: if_splits)
    then have "filter (\<lambda>t. x - unat t < 3600000) (entry_or m' entry []) = filter (\<lambda>t. x - unat t < 3600000) (entry_or m entry [])"
      by (simp only: filter_filter) (rule filter_cong, use that in auto)
    then show ?thesis by simp
  next
    case False
    then have "entry_or m' entry [] = entry_or m entry []"
      using assms(3) by (auto simp: push_allow_def Let_def entry_or_def lookup_update' split: if_splits)
    then show ?thesis by simp
  qed
  then show ?thesis
    using ok c unfolding attempts_ok_def by (meson le_trans)
qed

lemma push_run_bounded:
  "attempts_ok entry H m c \<Longrightarrow> sorted (c # map (\<lambda>(_, now). unat now) rs) \<Longrightarrow>
    admitted_cost (\<lambda>(e, now). e = entry \<and> a \<le> unat now \<and> unat now < a + 3600000) (\<lambda>_. 1) (outcomes push_request m rs) +
      length (filter (\<lambda>t. a \<le> t \<and> t < a + 3600000) H) \<le> 5"
proof (induction rs arbitrary: H m c)
  case Nil
  then show ?case by (simp add: attempts_ok_def)
next
  case (Cons r rs)
  obtain e now_ms b m' where r: "r = (e, now_ms)" and p: "push_allow e now_ms m = (b, m')"
    by (metis surj_pair)
  have c: "c \<le> unat now_ms" and srt: "sorted (unat now_ms # map (\<lambda>(_, now). unat now) rs)"
    using Cons.prems(2) by (simp_all add: r)
  show ?case
  proof (cases "b \<and> e = entry")
    case True
    then show ?thesis
      using Cons.IH [OF attempts_admitted [OF Cons.prems(1) c] srt] p by (auto simp: r push_request_def)
  next
    case False
    then show ?thesis
      using Cons.IH [OF attempts_other [OF Cons.prems(1) c p False] srt] p by (auto simp: r push_request_def)
  qed
qed

text \<open>C21. No principal registers more than five handles in any hour. Unlike the other limits this one slides, so
  the bound is the limit itself, over every interval of an hour.\<close>

theorem push_rate_bounded:
  assumes "sorted (map (\<lambda>(_, now). unat now) rs)"
  shows "admitted_cost (\<lambda>(e, now). e = entry \<and> a \<le> unat now \<and> unat now < a + 3600000) (\<lambda>_. 1)
    (outcomes push_request Mapping.empty rs) \<le> unat REGISTRATIONS_PER_HOUR"
  using push_run_bounded [of entry "[]" Mapping.empty 0 rs a] assms
  by (simp add: attempts_ok_def REGISTRATIONS_PER_HOUR_def)

theorem push_rate_bounded_witness:
  "admitted_cost (\<lambda>(e, now). e = [9] \<and> 0 \<le> unat now \<and> unat now < 0 + 3600000) (\<lambda>_. 1)
    (outcomes push_request Mapping.empty [([9], 1), ([9], 2), ([8], 2), ([9], 3), ([9], 4), ([9], 5), ([9], 6)]) \<le> 5"
  using push_rate_bounded [of "[([9], 1), ([9], 2), ([8], 2), ([9], 3), ([9], 4), ([9], 5), ([9], 6)]" "[9]" 0]
  by (simp add: REGISTRATIONS_PER_HOUR_def)

subsubsection \<open>The frame budget of a connection\<close>

definition fb_win :: "frame_budget \<Rightarrow> (nat \<times> nat) option" where
  "fb_win b = Some (unat (fb_window_started_ms b), unat (fb_spent b))"

lemma window_ended:
  "now_ms < st \<or> (60000 :: u64) \<le> saturating_sub now_ms st \<longleftrightarrow> \<not> (unat st \<le> unat now_ms \<and> unat now_ms < unat st + 60000)"
proof -
  have "unat (60000 :: u64) = 60000" by simp
  then show ?thesis
    unfolding word_le_nat_alt word_less_nat_alt unat_saturating_sub by linarith
qed

lemma fb_charge_step:
  assumes "fb_charge now_ms allowance b = (ok, b')" "fb_win b = Some (st, n)"
  shows "fb_win b' =
      (if st \<le> unat now_ms \<and> unat now_ms < st + 60000 then Some (st, n + (if ok then 1 else 0))
       else Some (unat now_ms, if ok then 1 else 0))"
    and "ok \<Longrightarrow> (if st \<le> unat now_ms \<and> unat now_ms < st + 60000 then n + 1 else 1) \<le> unat allowance"
proof -
  have *: "\<not> allowance \<le> x \<Longrightarrow> unat (x + 1) = unat x + 1 \<and> unat x + 1 \<le> unat allowance" for x
    using unat_inc [of x allowance] by (simp add: not_le)
  show "fb_win b' =
      (if st \<le> unat now_ms \<and> unat now_ms < st + 60000 then Some (st, n + (if ok then 1 else 0))
       else Some (unat now_ms, if ok then 1 else 0))"
    using assms * by (auto simp: fb_charge_def fb_win_def Let_def FRAME_BUDGET_WINDOW_MS_def window_ended split: if_splits)
  show "ok \<Longrightarrow> (if st \<le> unat now_ms \<and> unat now_ms < st + 60000 then n + 1 else 1) \<le> unat allowance"
    using assms * [of "fb_spent b"] * [of 0]
    by (auto simp: fb_charge_def fb_win_def Let_def FRAME_BUDGET_WINDOW_MS_def window_ended split: if_splits)
qed

subsubsection \<open>The media budget\<close>

type_synonym media_request = "u64 \<times> bytes \<times> bytes \<times> nat"

definition media_request :: "media_request \<Rightarrow> media_budget \<Rightarrow> bool \<times> media_budget" where
  "media_request r b =
    (case r of (now_ms, call_id, stream, byts) \<Rightarrow> let (res, b') = media_charge now_ms call_id stream byts b in (res = Inr (), b'))"

abbreviation media_at :: "media_request \<Rightarrow> nat" where
  "media_at \<equiv> \<lambda>(now, _, _, _). unat now"

definition stream_key :: "stream_window \<Rightarrow> bytes \<times> bytes" where
  "stream_key w = (sw_call w, sw_stream w)"

definition media_inv :: "media_budget \<Rightarrow> bool" where
  "media_inv b \<longleftrightarrow> distinct (map stream_key (mb_streams b)) \<and> length (mb_streams b) \<le> MAX_TRACKED_STREAMS \<and>
    (\<forall>w\<in>set (mb_streams b). sw_spent w \<le> MEDIA_FRAMES_PER_STREAM_PER_SECOND) \<and> mb_bytes_spent b \<le> MEDIA_BYTES_PER_MINUTE"

definition media_bytes_win :: "media_budget \<Rightarrow> (nat \<times> nat) option" where
  "media_bytes_win b = Some (unat (mb_bytes_window_started_ms b), unat (mb_bytes_spent b))"

definition stream_win :: "bytes \<Rightarrow> bytes \<Rightarrow> media_budget \<Rightarrow> (nat \<times> nat) option" where
  "stream_win call_id stream b =
    map_option (\<lambda>w. (unat (sw_started w), unat (sw_spent w))) (find (is_stream call_id stream) (mb_streams b))"

lemma is_stream_key: "is_stream c st w \<longleftrightarrow> stream_key w = (c, st)"
  by (simp add: is_stream_def stream_key_def)

lemma find_stream_None: "find (is_stream c st) ws = None \<longleftrightarrow> (c, st) \<notin> stream_key ` set ws"
proof (induction ws)
  case (Cons w ws)
  then show ?case
    using is_stream_key [of c st w] by (cases "is_stream c st w") auto
qed simp

lemma find_snoc: "find P (xs @ [x]) = (case find P xs of Some y \<Rightarrow> Some y | None \<Rightarrow> if P x then Some x else None)"
  by (induction xs) auto

lemma find_filter_key:
  "distinct (map stream_key ws) \<Longrightarrow>
    find (is_stream c st) (filter Q ws) = (case find (is_stream c st) ws of Some w \<Rightarrow> if Q w then Some w else None | None \<Rightarrow> None)"
proof (induction ws)
  case (Cons w ws)
  show ?case
  proof (cases "is_stream c st w")
    case True
    then have "(c, st) \<notin> stream_key ` set ws"
      using Cons.prems by (auto simp: is_stream_key)
    then have "find (is_stream c st) (filter Q ws) = None"
      unfolding find_stream_None by auto
    then show ?thesis using True by simp
  next
    case False
    then show ?thesis using Cons by simp
  qed
qed simp

lemma bump_stream_keys [simp]: "map stream_key (bump_stream c st ws) = map stream_key ws"
  by (induction ws) (auto simp: stream_key_def)

lemma find_bump:
  "find (is_stream c st) (bump_stream c' st' ws) =
    (if (c, st) = (c', st') then map_option (\<lambda>w. w\<lparr>sw_spent := sw_spent w + 1\<rparr>) (find (is_stream c st) ws) else find (is_stream c st) ws)"
proof (induction ws)
  case (Cons w ws)
  have "is_stream c st (w\<lparr>sw_spent := n\<rparr>) = is_stream c st w" for n
    by (simp add: is_stream_def)
  moreover have "is_stream c st w \<Longrightarrow> is_stream c' st' w \<Longrightarrow> (c, st) = (c', st')"
    by (simp add: is_stream_def)
  ultimately show ?case
    using Cons by (cases "is_stream c st w"; cases "is_stream c' st' w") auto
qed simp

lemma bump_stream_length [simp]: "length (bump_stream c st ws) = length ws"
  by (induction ws) auto

lemma set_bump_stream:
  "find (is_stream c st) ws = Some w \<Longrightarrow> set (bump_stream c st ws) \<subseteq> insert (w\<lparr>sw_spent := sw_spent w + 1\<rparr>) (set ws)"
  by (induction ws) (auto split: if_splits)

text \<open>One media frame, by its three refusals and its two ways to be admitted.\<close>

definition media_rolled :: "u64 \<Rightarrow> media_budget \<Rightarrow> media_budget" where
  "media_rolled now_ms b =
    (if unat (mb_bytes_window_started_ms b) \<le> unat now_ms \<and> unat now_ms < unat (mb_bytes_window_started_ms b) + 60000 then b
     else b\<lparr>mb_bytes_window_started_ms := now_ms, mb_bytes_spent := 0\<rparr>)"

definition live_streams :: "u64 \<Rightarrow> media_budget \<Rightarrow> stream_window list" where
  "live_streams now_ms b =
    filter (\<lambda>w. unat (sw_started w) \<le> unat now_ms \<and> unat now_ms < unat (sw_started w) + 1000) (mb_streams b)"

lemma live_stream_word:
  "st \<le> now_ms \<and> saturating_sub now_ms st < MEDIA_STREAM_WINDOW_MS \<longleftrightarrow> unat st \<le> unat now_ms \<and> unat now_ms < unat st + 1000"
proof -
  have "unat MEDIA_STREAM_WINDOW_MS = 1000" by (simp add: MEDIA_STREAM_WINDOW_MS_def)
  then show ?thesis
    unfolding word_le_nat_alt word_less_nat_alt unat_saturating_sub by linarith
qed

lemma media_charge_eq:
  "media_charge now_ms call_id stream byts b =
    (let b = media_rolled now_ms b; later = saturating_add (mb_bytes_spent b) (of_nat byts); ws = live_streams now_ms b in
     if MEDIA_BYTES_PER_MINUTE < later then (Inl MediaByteRate, b)
     else case find (is_stream call_id stream) ws of
         Some w \<Rightarrow>
           if MEDIA_FRAMES_PER_STREAM_PER_SECOND \<le> sw_spent w then (Inl StreamRate, b\<lparr>mb_streams := ws\<rparr>)
           else (Inr (), b\<lparr>mb_streams := bump_stream call_id stream ws, mb_bytes_spent := later\<rparr>)
       | None \<Rightarrow>
           if MAX_TRACKED_STREAMS \<le> length ws then (Inl TooManyStreams, b\<lparr>mb_streams := ws\<rparr>)
           else (Inr (), b\<lparr>mb_streams := ws @ [\<lparr>sw_call = call_id, sw_stream = stream, sw_started = now_ms, sw_spent = 1\<rparr>],
                           mb_bytes_spent := later\<rparr>))"
  unfolding media_charge_def media_rolled_def live_streams_def window_ended live_stream_word Let_def if_not_P
  by (auto split: option.splits)

lemma media_request_cases:
  assumes "media_request (now_ms, call_id, stream, byts) b = (ok, b')"
  obtains
    (bytes) "\<not> ok" "b' = media_rolled now_ms b"
  | (refused) "\<not> ok" "b' = (media_rolled now_ms b)\<lparr>mb_streams := live_streams now_ms b\<rparr>"
  | (next_frame) w where "ok" "saturating_add (mb_bytes_spent (media_rolled now_ms b)) (of_nat byts) \<le> MEDIA_BYTES_PER_MINUTE"
      "find (is_stream call_id stream) (live_streams now_ms b) = Some w" "sw_spent w < MEDIA_FRAMES_PER_STREAM_PER_SECOND"
      "b' = (media_rolled now_ms b)\<lparr>mb_streams := bump_stream call_id stream (live_streams now_ms b),
        mb_bytes_spent := saturating_add (mb_bytes_spent (media_rolled now_ms b)) (of_nat byts)\<rparr>"
  | (first_frame) "ok" "saturating_add (mb_bytes_spent (media_rolled now_ms b)) (of_nat byts) \<le> MEDIA_BYTES_PER_MINUTE"
      "find (is_stream call_id stream) (live_streams now_ms b) = None" "length (live_streams now_ms b) < MAX_TRACKED_STREAMS"
      "b' = (media_rolled now_ms b)\<lparr>mb_streams := live_streams now_ms b @ [\<lparr>sw_call = call_id, sw_stream = stream, sw_started = now_ms, sw_spent = 1\<rparr>],
        mb_bytes_spent := saturating_add (mb_bytes_spent (media_rolled now_ms b)) (of_nat byts)\<rparr>"
proof -
  have "live_streams now_ms (media_rolled now_ms b) = live_streams now_ms b"
    by (simp add: live_streams_def media_rolled_def)
  then show ?thesis
    using assms that
    by (auto simp: media_request_def media_charge_eq Let_def not_less not_le split: if_splits option.splits)
qed

lemma live_streams_inv:
  assumes "media_inv b"
  shows "distinct (map stream_key (live_streams now_ms b))" "length (live_streams now_ms b) \<le> MAX_TRACKED_STREAMS"
    "\<forall>w\<in>set (live_streams now_ms b). sw_spent w \<le> MEDIA_FRAMES_PER_STREAM_PER_SECOND"
  using assms
  by (auto simp: media_inv_def live_streams_def distinct_map_filter intro: order_trans [OF length_filter_le])

lemma media_rolled_inv:
  assumes "media_inv b"
  shows "media_inv (media_rolled now_ms b)"
  using assms by (simp add: media_inv_def media_rolled_def)

lemma media_request_inv:
  assumes inv: "media_inv b" and r: "media_request (now_ms, call_id, stream, byts) b = (ok, b')"
  shows "media_inv b'"
  using r
proof (cases rule: media_request_cases)
  case bytes
  then show ?thesis using media_rolled_inv [OF inv] by simp
next
  case refused
  then show ?thesis
    using media_rolled_inv [OF inv] live_streams_inv [OF inv] by (simp add: media_inv_def)
next
  case (next_frame w)
  have "sw_spent w + 1 \<le> MEDIA_FRAMES_PER_STREAM_PER_SECOND"
    using next_frame(4) inc_le by blast
  then show ?thesis
    using next_frame media_rolled_inv [OF inv] live_streams_inv [OF inv] set_bump_stream [OF next_frame(3)]
    by (auto simp: media_inv_def)
next
  case first_frame
  then have "(call_id, stream) \<notin> stream_key ` set (live_streams now_ms b)"
    by (simp add: find_stream_None)
  then show ?thesis
    using first_frame live_streams_inv [OF inv, of now_ms]
    by (auto simp: media_inv_def stream_key_def MEDIA_FRAMES_PER_STREAM_PER_SECOND_def)
qed

definition live_win :: "u64 \<Rightarrow> (nat \<times> nat) option \<Rightarrow> (nat \<times> nat) option" where
  "live_win now_ms e =
    (case e of Some (t, n) \<Rightarrow> if t \<le> unat now_ms \<and> unat now_ms < t + 1000 then Some (t, n) else None | None \<Rightarrow> None)"

lemma stream_win_live:
  assumes "media_inv b"
  shows "live_win now_ms (stream_win c st b) =
    map_option (\<lambda>w. (unat (sw_started w), unat (sw_spent w))) (find (is_stream c st) (live_streams now_ms b))"
  using assms unfolding live_streams_def stream_win_def media_inv_def live_win_def
  by (auto simp: find_filter_key split: option.splits)

lemma stream_win_admitted:
  assumes inv: "media_inv b" and r: "media_request (now_ms, c, st, byts) b = (True, b')"
  shows "stream_win c st b' =
      (case live_win now_ms (stream_win c st b) of Some (t, n) \<Rightarrow> Some (t, n + 1) | None \<Rightarrow> Some (unat now_ms, 1))"
    and "(case live_win now_ms (stream_win c st b) of Some (t, n) \<Rightarrow> n + 1 | None \<Rightarrow> 1) \<le> 60"
proof -
  have inc: "unat (sw_spent w + 1) = unat (sw_spent w) + 1 \<and> unat (sw_spent w) + 1 \<le> 60"
    if "sw_spent w < MEDIA_FRAMES_PER_STREAM_PER_SECOND" for w
    using unat_inc [OF that] by (simp add: MEDIA_FRAMES_PER_STREAM_PER_SECOND_def)
  have "stream_win c st b' =
      (case live_win now_ms (stream_win c st b) of Some (t, n) \<Rightarrow> Some (t, n + 1) | None \<Rightarrow> Some (unat now_ms, 1)) \<and>
    (case live_win now_ms (stream_win c st b) of Some (t, n) \<Rightarrow> n + 1 | None \<Rightarrow> 1) \<le> 60"
    using r
  proof (cases rule: media_request_cases)
    case (next_frame w)
    then show ?thesis
      using inc [OF next_frame(4)] unfolding stream_win_live [OF inv] by (simp add: stream_win_def find_bump)
  next
    case first_frame
    then show ?thesis
      unfolding stream_win_live [OF inv] by (simp add: stream_win_def find_snoc is_stream_def)
  qed simp_all
  then show "stream_win c st b' =
      (case live_win now_ms (stream_win c st b) of Some (t, n) \<Rightarrow> Some (t, n + 1) | None \<Rightarrow> Some (unat now_ms, 1))"
    "(case live_win now_ms (stream_win c st b) of Some (t, n) \<Rightarrow> n + 1 | None \<Rightarrow> 1) \<le> 60"
    by blast+
qed

lemma stream_win_other:
  assumes inv: "media_inv b" and r: "media_request (now_ms, call_id, stream, byts) b = (ok, b')"
    and other: "\<not> (ok \<and> (c, st) = (call_id, stream))"
  shows "stream_win c st b' = live_win now_ms (stream_win c st b) \<or> stream_win c st b' = stream_win c st b"
  using r
proof (cases rule: media_request_cases)
  case bytes
  then show ?thesis by (simp add: stream_win_def media_rolled_def)
next
  case refused
  then show ?thesis unfolding stream_win_live [OF inv] by (simp add: stream_win_def)
next
  case (next_frame w)
  then have "(c, st) \<noteq> (call_id, stream)" using other by simp
  with next_frame show ?thesis unfolding stream_win_live [OF inv] by (auto simp: stream_win_def find_bump)
next
  case first_frame
  then have "(c, st) \<noteq> (call_id, stream)" using other by simp
  with first_frame show ?thesis
    unfolding stream_win_live [OF inv] by (auto simp: stream_win_def find_snoc is_stream_def split: option.splits)
qed

interpretation media_stream: rate_window media_request media_at "\<lambda>(_, c, st, _). c = call_id \<and> st = stream" "\<lambda>_. 1"
  "stream_win call_id stream" "\<lambda>t. t" 1000 60 media_inv for call_id stream
proof (unfold_locales, goal_cases)
  case (4 s r b s')
  then show ?case by (cases r) (auto intro: media_request_inv)
next
  case (6 s r s' st n)
  obtain now c t byts where r: "r = (now, c, t, byts)" by (cases r)
  show ?case
    using stream_win_admitted [of s now c t byts s'] 6 by (auto simp: r live_win_def)
next
  case (7 s r s')
  obtain now c t byts where r: "r = (now, c, t, byts)" by (cases r)
  show ?case
    using stream_win_admitted [of s now c t byts s'] 7 by (auto simp: r live_win_def split: option.splits)
next
  case (8 s r b s' st n)
  obtain now c t byts where r: "r = (now, c, t, byts)" by (cases r)
  show ?case
    using stream_win_other [of s now c t byts b s' call_id stream] 8 by (auto simp: r live_win_def)
next
  case (9 s r b s' st n)
  obtain now c t byts where r: "r = (now, c, t, byts)" by (cases r)
  show ?case
    using stream_win_other [of s now c t byts b s' call_id stream] 9 by (auto simp: r live_win_def split: option.splits if_splits)
qed auto

lemma media_bytes_step:
  assumes r: "media_request (now_ms, c, st, byts) b = (ok, b')" and w: "media_bytes_win b = Some (t, n)"
  defines "m \<equiv> if t \<le> unat now_ms \<and> unat now_ms < t + 60000 then n else 0"
    and "u \<equiv> if t \<le> unat now_ms \<and> unat now_ms < t + 60000 then t else unat now_ms"
  shows "media_bytes_win b' = Some (u, m + (if ok then unat (of_nat byts :: u64) else 0))"
    and "ok \<Longrightarrow> m + unat (of_nat byts :: u64) \<le> 1048576"
proof -
  have rolled: "unat (mb_bytes_spent (media_rolled now_ms b)) = m"
    "unat (mb_bytes_window_started_ms (media_rolled now_ms b)) = u"
    using w by (auto simp: media_bytes_win_def media_rolled_def m_def u_def)
  have limit: "MEDIA_BYTES_PER_MINUTE \<noteq> - 1" "unat MEDIA_BYTES_PER_MINUTE = 1048576"
    by (simp_all add: MEDIA_BYTES_PER_MINUTE_def)
  have "media_bytes_win b' = Some (u, m + (if ok then unat (of_nat byts :: u64) else 0)) \<and>
      (ok \<longrightarrow> m + unat (of_nat byts :: u64) \<le> 1048576)"
    using r
  proof (cases rule: media_request_cases)
    case (next_frame w)
    then show ?thesis
      using unat_sat_le [OF next_frame(2) limit(1)] limit(2) rolled by (simp add: media_bytes_win_def)
  next
    case first_frame
    then show ?thesis
      using unat_sat_le [OF first_frame(2) limit(1)] limit(2) rolled by (simp add: media_bytes_win_def)
  qed (use rolled in \<open>simp_all add: media_bytes_win_def\<close>)
  then show "media_bytes_win b' = Some (u, m + (if ok then unat (of_nat byts :: u64) else 0))"
    "ok \<Longrightarrow> m + unat (of_nat byts :: u64) \<le> 1048576"
    by blast+
qed

interpretation media_bytes: rate_window media_request media_at "\<lambda>_. True" "\<lambda>(_, _, _, n). unat (of_nat n :: u64)"
  media_bytes_win "\<lambda>t. t" 60000 1048576 "\<lambda>_. True"
proof (unfold_locales, goal_cases)
  case (6 s r s' st n)
  obtain now c t byts where r: "r = (now, c, t, byts)" by (cases r)
  show ?case
    using media_bytes_step [of now c t byts s True s' st n] 6 by (simp add: r)
next
  case (7 s r s')
  obtain now c t byts where r: "r = (now, c, t, byts)" by (cases r)
  obtain st n where w: "media_bytes_win s = Some (st, n)" by (simp add: media_bytes_win_def)
  show ?case
    using media_bytes_step [of now c t byts s True s' st n] 7(2) 7(4) [OF w] w by (auto simp: r)
next
  case (8 s r b s' st n)
  obtain now c t byts where r: "r = (now, c, t, byts)" by (cases r)
  show ?case
    using media_bytes_step [of now c t byts s b s' st n] 8 by (simp add: r)
next
  case (9 s r b s' st n)
  obtain now c t byts where r: "r = (now, c, t, byts)" by (cases r)
  obtain st' n' where w: "media_bytes_win s = Some (st', n')" by (simp add: media_bytes_win_def)
  show ?case
    using media_bytes_step [of now c t byts s b s' st' n'] 9(2-4) w by (auto simp: r split: if_splits)
qed auto

text \<open>C22. A call's media is bounded on one connection: never more than 32 streams tracked, at most twice 60 frames of
  one stream in any second and twice one MiB in any minute, under a clock that does not go backwards.\<close>

theorem media_budget_bounded:
  assumes "sorted (map (\<lambda>(now, _, _, _). unat now) rs)" "media_inv b"
  shows "admitted_cost (\<lambda>(now, c, st, _). c = call_id \<and> st = stream \<and> a \<le> unat now \<and> unat now < a + 1000) (\<lambda>_. 1)
      (outcomes media_request b rs) \<le> 120 \<and>
    admitted_cost (\<lambda>(now, _, _, _). a \<le> unat now \<and> unat now < a + 60000) (\<lambda>(_, _, _, n). unat (of_nat n :: u64))
      (outcomes media_request b rs) \<le> 2 * unat MEDIA_BYTES_PER_MINUTE \<and>
    (media_request (now, c, st, n) b = (ok, b') \<longrightarrow> media_inv b' \<and> length (mb_streams b') \<le> MAX_TRACKED_STREAMS)"
  using media_stream.interval_bound [of b rs call_id stream a] media_bytes.interval_bound [where s = b and rs = rs and a = a] assms
    media_request_inv [of b now c st n ok b']
  by (auto simp: case_prod_unfold MEDIA_BYTES_PER_MINUTE_def media_inv_def)

theorem media_budget_bounded_witness:
  "admitted_cost (\<lambda>(now, c, st, _). c = [1] \<and> st = [2] \<and> 0 \<le> unat now \<and> unat now < 0 + 1000) (\<lambda>_. 1)
    (outcomes media_request media_budget_default [(5, [1], [2], 80), (25, [1], [2], 80), (26, [1], [3], 2000000)]) \<le> 120"
  using media_budget_bounded [of "[(5, [1], [2], 80), (25, [1], [2], 80), (26, [1], [3], 2000000)]" media_budget_default "[1]" "[2]" 0]
  by (simp add: media_inv_def media_budget_default_def MEDIA_BYTES_PER_MINUTE_def)

end
