(* ===== verification/Session.thy ===== *)
theory Session
  imports Frame Accept Budgets
begin

text \<open>
  The protocol state machine of one connection, \<open>src/backend/wealdrelay/src/session.rs\<close>: its state, one
  definition per arm of \<open>Session::handle\<close>, the table that composes them, and what the socket layer
  records in a session. A reaction is a value; what a deferred work item does is modelled with the
  components that do it. BLAKE3 and the process secret of a challenge are parameters, and so is the
  process-wide counter a connection's nonce is taken from.
\<close>

subsection \<open>Limits\<close>

definition CLOCK_SKEW_LIMIT_MS :: u64 where "CLOCK_SKEW_LIMIT_MS = 5 * 60 * 1000"
definition MAX_GROUPS_PER_CONNECTION :: nat where "MAX_GROUPS_PER_CONNECTION = 256"
definition MAX_LIVE_BYTES :: nat where "MAX_LIVE_BYTES = 4096"
definition LIVE_FRAMES_PER_MINUTE :: u32 where "LIVE_FRAMES_PER_MINUTE = 900"
definition KEYS_FRAMES_PER_MINUTE :: u32 where "KEYS_FRAMES_PER_MINUTE = 30"
definition WAKE_FRAMES_PER_MINUTE :: u32 where "WAKE_FRAMES_PER_MINUTE = 30"
definition JOIN_FRAMES_PER_MINUTE :: u32 where "JOIN_FRAMES_PER_MINUTE = 20"
definition MAX_SCOPES :: nat where "MAX_SCOPES = 256"
definition JOIN_FRAMES_PER_MINUTE_RESERVED :: u32 where
  "JOIN_FRAMES_PER_MINUTE_RESERVED = JOIN_FRAMES_PER_MINUTE + 2 * of_nat MAX_SCOPES + 2"
definition HANDSHAKE_FRAMES_PER_MINUTE :: u32 where "HANDSHAKE_FRAMES_PER_MINUTE = 120"
definition ACCESS_FRAMES_PER_MINUTE :: u32 where "ACCESS_FRAMES_PER_MINUTE = 30"
definition WRAP_FRAMES_PER_MINUTE :: u32 where "WRAP_FRAMES_PER_MINUTE = 30"
definition INVITE_FRAMES_PER_MINUTE :: u32 where "INVITE_FRAMES_PER_MINUTE = 30"
definition SUB_FRAMES_PER_MINUTE :: u32 where "SUB_FRAMES_PER_MINUTE = 300"
definition RECON_FRAMES_PER_MINUTE :: u32 where "RECON_FRAMES_PER_MINUTE = 600"
definition BLOB_FRAMES_PER_MINUTE :: u32 where "BLOB_FRAMES_PER_MINUTE = 120"
definition DROP_FRAMES_PER_MINUTE :: u32 where "DROP_FRAMES_PER_MINUTE = 30"
definition MAX_KEY_PACKAGE_FETCH :: u8 where "MAX_KEY_PACKAGE_FETCH = 8"

definition MAX_MEDIA_CT_BYTES :: nat where "MAX_MEDIA_CT_BYTES = 1500"
definition MAX_CALL_BODY_BYTES :: nat where "MAX_CALL_BODY_BYTES = 4096"
definition CALL_FRAMES_PER_MINUTE :: u32 where "CALL_FRAMES_PER_MINUTE = 120"

datatype call_kind = Offer | Answer | Decline | Bye

definition call_kind_from_u8 :: "u8 \<Rightarrow> call_kind option" where
  "call_kind_from_u8 v =
    (if v = 1 then Some Offer else if v = 2 then Some Answer else if v = 3 then Some Decline
     else if v = 4 then Some Bye else None)"

definition call_joins :: "call_kind \<Rightarrow> bool" where
  "call_joins k \<longleftrightarrow> k = Offer \<or> k = Answer"

subsection \<open>Data\<close>

datatype live_mode = LiveOn | LiveOff
datatype call_mode = CallOn | CallOff
datatype access_set_mode = Enforce | AccessOff

datatype session_state = Fresh | Challenged | Ready | Bootstrapping | SClosed

datatype work =
    Authenticate bytes bytes bytes
  | AcceptEnvelope bytes
  | Subscribe bytes u64
  | Reconcile bytes bytes
  | RotateAccessSet bytes
  | BlobTicket bytes
  | DropBefore bytes
  | PublishWrap bytes
  | Redeem bytes
  | AdministerInvite bytes
  | PublishHandshake bytes bytes
  | PublishLive bytes u64 bytes
  | KeyPackages keys_body
  | WakeRegistration wake_body
  | PublishCall bytes bytes u64 call_kind bytes
  | PublishMedia bytes bytes u64 bytes

datatype reaction = Reply "frame list" | ReplyAndClose "frame list" | Defer work

datatype durability = Ephemeral | ReadsOnly | Writes

datatype write_refusal = NotAWrite | FrameTable | Handler | ServedWhileQuiesced

record work_policy =
  wp_durability :: durability
  wp_frames_per_minute :: "u32 option"
  wp_write_refusal :: write_refusal

definition mk_policy :: "durability \<Rightarrow> u32 option \<Rightarrow> write_refusal \<Rightarrow> work_policy" where
  "mk_policy d n r = \<lparr>wp_durability = d, wp_frames_per_minute = n, wp_write_refusal = r\<rparr>"

fun policy :: "work \<Rightarrow> work_policy" where
  "policy (Authenticate _ _ _) = mk_policy ReadsOnly None NotAWrite"
| "policy (AcceptEnvelope _) = mk_policy Writes None FrameTable"
| "policy (Subscribe _ _) = mk_policy ReadsOnly (Some SUB_FRAMES_PER_MINUTE) NotAWrite"
| "policy (Reconcile _ _) = mk_policy ReadsOnly (Some RECON_FRAMES_PER_MINUTE) NotAWrite"
| "policy (RotateAccessSet _) = mk_policy Writes (Some ACCESS_FRAMES_PER_MINUTE) FrameTable"
| "policy (BlobTicket _) = mk_policy Writes (Some BLOB_FRAMES_PER_MINUTE) Handler"
| "policy (DropBefore _) = mk_policy Writes (Some DROP_FRAMES_PER_MINUTE) FrameTable"
| "policy (PublishWrap _) = mk_policy Writes (Some WRAP_FRAMES_PER_MINUTE) FrameTable"
| "policy (Redeem _) = mk_policy Writes (Some JOIN_FRAMES_PER_MINUTE) ServedWhileQuiesced"
| "policy (AdministerInvite _) = mk_policy Writes (Some INVITE_FRAMES_PER_MINUTE) FrameTable"
| "policy (PublishHandshake _ _) = mk_policy Writes (Some HANDSHAKE_FRAMES_PER_MINUTE) FrameTable"
| "policy (PublishLive _ _ _) = mk_policy Ephemeral (Some LIVE_FRAMES_PER_MINUTE) NotAWrite"
| "policy (KeyPackages body) =
    (case body of
       Publish _ \<Rightarrow> mk_policy Writes (Some KEYS_FRAMES_PER_MINUTE) FrameTable
     | _ \<Rightarrow> mk_policy ReadsOnly (Some KEYS_FRAMES_PER_MINUTE) NotAWrite)"
| "policy (WakeRegistration body) =
    (case body of
       Register _ _ _ \<Rightarrow> mk_policy Writes (Some WAKE_FRAMES_PER_MINUTE) FrameTable
     | Clear \<Rightarrow> mk_policy Writes (Some WAKE_FRAMES_PER_MINUTE) FrameTable
     | _ \<Rightarrow> mk_policy ReadsOnly (Some WAKE_FRAMES_PER_MINUTE) NotAWrite)"
| "policy (PublishCall _ _ _ _ _) = mk_policy Ephemeral (Some CALL_FRAMES_PER_MINUTE) NotAWrite"
| "policy (PublishMedia _ _ _ _) = mk_policy Ephemeral None NotAWrite"

record session =
  ss_state :: session_state
  ss_connection_nonce :: u64
  ss_challenge :: bytes
  ss_requested :: "bytes list"
  ss_authorized_workspace :: "string option"
  ss_subscribed :: "bytes list"
  ss_skew_ms :: "int option"
  ss_min_enc :: u8
  ss_source :: "string option"
  ss_device_key :: "bytes option"
  ss_write_mode :: write_mode
  ss_build_digest :: bytes
  ss_access_set_enforced :: bool
  ss_refuses_plaintext :: bool
  ss_negotiated_version :: u16
  ss_live :: live_mode
  ss_live_budget :: frame_budget
  ss_keys_budget :: frame_budget
  ss_wake_budget :: frame_budget
  ss_handshake_budget :: frame_budget
  ss_access_budget :: frame_budget
  ss_wrap_budget :: frame_budget
  ss_invite_budget :: frame_budget
  ss_sub_budget :: frame_budget
  ss_recon_budget :: frame_budget
  ss_blob_budget :: frame_budget
  ss_drop_budget :: frame_budget
  ss_join_budget :: frame_budget
  ss_join_reserved :: bool
  ss_calls :: call_mode
  ss_call_budget :: frame_budget
  ss_media_budget :: media_budget

text \<open>What \<open>Session::new\<close> reads of the configuration.\<close>

record session_config =
  scfg_min_encryption :: min_encryption
  scfg_write_mode :: write_mode
  scfg_access_set :: access_set_mode
  scfg_live :: live_mode
  scfg_calls :: call_mode

subsection \<open>What the socket layer asks of a session\<close>

definition session_new :: "session_config \<Rightarrow> u64 \<Rightarrow> bytes \<Rightarrow> session" where
  "session_new cfg nonce build_digest =
    \<lparr>ss_state = Fresh, ss_connection_nonce = nonce, ss_challenge = [], ss_requested = [], ss_authorized_workspace = None,
     ss_subscribed = [], ss_skew_ms = None, ss_min_enc = floor_byte (scfg_min_encryption cfg), ss_source = None,
     ss_device_key = None, ss_write_mode = scfg_write_mode cfg, ss_build_digest = build_digest,
     ss_access_set_enforced = (scfg_access_set cfg = Enforce), ss_refuses_plaintext = (scfg_min_encryption cfg = MinMls),
     ss_negotiated_version = MIN_PROTOCOL_VERSION, ss_live = scfg_live cfg,
     ss_live_budget = frame_budget_default, ss_keys_budget = frame_budget_default, ss_wake_budget = frame_budget_default,
     ss_handshake_budget = frame_budget_default, ss_access_budget = frame_budget_default, ss_wrap_budget = frame_budget_default,
     ss_invite_budget = frame_budget_default, ss_sub_budget = frame_budget_default, ss_recon_budget = frame_budget_default,
     ss_blob_budget = frame_budget_default, ss_drop_budget = frame_budget_default, ss_join_budget = frame_budget_default,
     ss_join_reserved = False, ss_calls = scfg_calls cfg, ss_call_budget = frame_budget_default,
     ss_media_budget = media_budget_default\<rparr>"

definition note_join_reserved :: "session \<Rightarrow> session" where
  "note_join_reserved s = s\<lparr>ss_join_reserved := True\<rparr>"

definition join_allowance :: "session \<Rightarrow> u32" where
  "join_allowance s = (if ss_join_reserved s then JOIN_FRAMES_PER_MINUTE_RESERVED else JOIN_FRAMES_PER_MINUTE)"

definition set_source :: "string option \<Rightarrow> session \<Rightarrow> session" where
  "set_source source s = s\<lparr>ss_source := source\<rparr>"

definition bind_device :: "bytes \<Rightarrow> session \<Rightarrow> session" where
  "bind_device key s = s\<lparr>ss_device_key := Some key\<rparr>"

definition bind_workspace :: "string \<Rightarrow> session \<Rightarrow> session" where
  "bind_workspace workspace s = s\<lparr>ss_authorized_workspace := Some workspace\<rparr>"

definition forget_subscription :: "bytes \<Rightarrow> session \<Rightarrow> session" where
  "forget_subscription grp s = s\<lparr>ss_subscribed := filter (\<lambda>held. held \<noteq> grp) (ss_subscribed s)\<rparr>"

definition refuses_writes :: "session \<Rightarrow> bool" where
  "refuses_writes s \<longleftrightarrow> ss_write_mode s = WriteReadOnly"

definition challenge_of :: "session \<Rightarrow> bytes option" where
  "challenge_of s = (if ss_challenge s = [] then None else Some (ss_challenge s))"

definition auth_ack :: "u32 \<Rightarrow> session \<Rightarrow> frame" where
  "auth_ack remaining s =
    FAuthAck remaining (case ss_write_mode s of WriteFull \<Rightarrow> 0 | WriteReadOnly \<Rightarrow> 1) (ss_build_digest s)
      (if ss_access_set_enforced s then 1 else 0) (if ss_refuses_plaintext s then 1 else 0)"

definition session_authenticated :: "u32 \<Rightarrow> session \<Rightarrow> frame \<times> session" where
  "session_authenticated remaining s =
    (let s = s\<lparr>ss_state := Ready, ss_challenge := []\<rparr> in (auth_ack remaining s, s))"

definition session_bootstrapping :: "u32 \<Rightarrow> session \<Rightarrow> frame \<times> session" where
  "session_bootstrapping remaining s =
    (let s = s\<lparr>ss_state := Bootstrapping, ss_challenge := []\<rparr> in (auth_ack remaining s, s))"

definition session_rejected :: "error_code \<Rightarrow> session \<Rightarrow> frame list \<times> session" where
  "session_rejected code s = ([FError (new_error code)], s\<lparr>ss_state := SClosed\<rparr>)"

text \<open>\<open>i64::saturating_sub\<close>, on values already in range.\<close>

definition i64_saturating_sub :: "int \<Rightarrow> int \<Rightarrow> int" where
  "i64_saturating_sub a b = i64_clip (a - b)"

definition skew :: "u64 \<Rightarrow> u64 \<Rightarrow> int option" where
  "skew client_ms relay_ms =
    (let difference = i64_saturating_sub (clamp_i64 client_ms) (clamp_i64 relay_ms) in
     if \<bar>difference\<bar> > uint CLOCK_SKEW_LIMIT_MS then Some difference else None)"

text \<open>\<open>challenge_bytes\<close>. \<open>hash secret\<close> stands for BLAKE3 over the label, the process secret and what follows.\<close>

definition challenge_input :: "u64 \<Rightarrow> bytes list \<Rightarrow> u64 \<Rightarrow> bytes \<Rightarrow> bytes" where
  "challenge_input now_ms groups connection_nonce secret =
    as_bytes ''weald relay challenge v1'' @ secret @ to_be_bytes 8 connection_nonce @ to_be_bytes 8 now_ms @ concat groups"

record entropy =
  blake3_of :: "bytes \<Rightarrow> bytes"
  challenge_secret :: bytes

definition challenge_bytes :: "entropy \<Rightarrow> u64 \<Rightarrow> bytes list \<Rightarrow> u64 \<Rightarrow> bytes" where
  "challenge_bytes e now_ms groups connection_nonce =
    blake3_of e (challenge_input now_ms groups connection_nonce (challenge_secret e))"

subsection \<open>The frame table\<close>

definition error_reply :: "error_code \<Rightarrow> reaction" where
  "error_reply code = Reply [FError (new_error code)]"

definition read_only_refusal :: "session \<Rightarrow> reaction option" where
  "read_only_refusal s = (if refuses_writes s then Some (error_reply ServiceReadOnly) else None)"

definition calls_unavailable :: "session \<Rightarrow> reaction option" where
  "calls_unavailable s = (if ss_calls s = CallOff then Some (error_reply ProtocolUnsupported) else None)"

definition rate_limited :: "u32 \<Rightarrow> reaction" where
  "rate_limited allowance =
    Reply [FError (with_detail (to_be_bytes 8 (ucast allowance :: u64)) (with_retry_after 60 (new_error RateLimited)))]"

definition too_large :: "nat \<Rightarrow> reaction" where
  "too_large limit = Reply [FError (with_detail (to_be_bytes 8 (of_nat limit :: u64)) (new_error EnvelopeTooLarge))]"

text \<open>The step every budgeted arm ends with: charge the frame, then defer its work.\<close>

definition defer_charged :: "u64 \<Rightarrow> u32 \<Rightarrow> frame_budget \<Rightarrow> work \<Rightarrow> reaction \<times> frame_budget" where
  "defer_charged now_ms allowance b w =
    (let (ok, b) = fb_charge now_ms allowance b in (if ok then Defer w else rate_limited allowance, b))"

text \<open>A frame the table does not name for the session's state.\<close>

definition handle_other :: "session \<Rightarrow> reaction \<times> session" where
  "handle_other s = (ReplyAndClose [FError (new_error MalformedHeader)], s\<lparr>ss_state := SClosed\<rparr>)"

definition handle_connect :: "entropy \<Rightarrow> u16 \<Rightarrow> bytes list \<Rightarrow> u64 \<Rightarrow> u64 \<Rightarrow> session \<Rightarrow> reaction \<times> session" where
  "handle_connect e version groups sent_at now_ms s =
    (if version < MIN_PROTOCOL_VERSION then
       (ReplyAndClose [FError (with_detail (to_be_bytes 2 PROTOCOL_VERSION) (new_error ProtocolUnsupported))],
        s\<lparr>ss_state := SClosed\<rparr>)
     else
       let s = s\<lparr>ss_negotiated_version := min version PROTOCOL_VERSION\<rparr> in
       if MAX_GROUPS_PER_CONNECTION < length groups then
         (ReplyAndClose [FError (with_detail (to_be_bytes 8 (of_nat MAX_GROUPS_PER_CONNECTION :: u64)) (new_error RateLimited))],
          s\<lparr>ss_state := SClosed\<rparr>)
       else
         let challenge = challenge_bytes e now_ms groups (ss_connection_nonce s) in
         (Reply [FConnectAck (ss_negotiated_version s) now_ms (ss_min_enc s), FAuthChallenge challenge],
          s\<lparr>ss_requested := groups, ss_skew_ms := skew sent_at now_ms, ss_challenge := challenge, ss_state := Challenged\<rparr>))"

definition handle_auth :: "bytes \<Rightarrow> bytes \<Rightarrow> session \<Rightarrow> reaction \<times> session" where
  "handle_auth device_key signature s =
    (Defer (Authenticate device_key signature (ss_challenge s)), s\<lparr>ss_challenge := []\<rparr>)"

definition handle_send :: "bytes \<Rightarrow> session \<Rightarrow> reaction \<times> session" where
  "handle_send envelope s =
    (if refuses_writes s then (error_reply ServiceReadOnly, s) else (Defer (AcceptEnvelope envelope), s))"

definition handle_sub :: "bytes \<Rightarrow> u64 \<Rightarrow> u64 \<Rightarrow> session \<Rightarrow> reaction \<times> session" where
  "handle_sub grp from_seq now_ms s =
    (if MAX_GROUPS_PER_CONNECTION \<le> length (ss_subscribed s) \<and> grp \<notin> set (ss_subscribed s) then
       (Reply [FError (with_detail (to_be_bytes 8 (of_nat MAX_GROUPS_PER_CONNECTION :: u64)) (new_error RateLimited))], s)
     else
       let (ok, b) = fb_charge now_ms SUB_FRAMES_PER_MINUTE (ss_sub_budget s);
           s = s\<lparr>ss_sub_budget := b\<rparr> in
       if \<not> ok then (rate_limited SUB_FRAMES_PER_MINUTE, s)
       else
         (Defer (Subscribe grp from_seq),
          if grp \<in> set (ss_subscribed s) then s else s\<lparr>ss_subscribed := ss_subscribed s @ [grp]\<rparr>))"

definition handle_recon :: "bytes \<Rightarrow> bytes \<Rightarrow> u64 \<Rightarrow> session \<Rightarrow> reaction \<times> session" where
  "handle_recon grp payload now_ms s =
    (let (r, b) = defer_charged now_ms RECON_FRAMES_PER_MINUTE (ss_recon_budget s) (Reconcile grp payload) in
     (r, s\<lparr>ss_recon_budget := b\<rparr>))"

definition handle_access :: "bytes \<Rightarrow> u64 \<Rightarrow> session \<Rightarrow> reaction \<times> session" where
  "handle_access body now_ms s =
    (case read_only_refusal s of
       Some refusal \<Rightarrow> (refusal, s)
     | None \<Rightarrow>
       let (r, b) = defer_charged now_ms ACCESS_FRAMES_PER_MINUTE (ss_access_budget s) (RotateAccessSet body) in
       (r, s\<lparr>ss_access_budget := b\<rparr>))"

definition handle_wrap :: "bytes \<Rightarrow> u64 \<Rightarrow> session \<Rightarrow> reaction \<times> session" where
  "handle_wrap body now_ms s =
    (case read_only_refusal s of
       Some refusal \<Rightarrow> (refusal, s)
     | None \<Rightarrow>
       let (r, b) = defer_charged now_ms WRAP_FRAMES_PER_MINUTE (ss_wrap_budget s) (PublishWrap body) in
       (r, s\<lparr>ss_wrap_budget := b\<rparr>))"

definition handle_join :: "bytes \<Rightarrow> u64 \<Rightarrow> session \<Rightarrow> reaction \<times> session" where
  "handle_join body now_ms s =
    (let (r, b) = defer_charged now_ms (join_allowance s) (ss_join_budget s) (Redeem body) in
     (r, s\<lparr>ss_join_budget := b\<rparr>))"

definition handle_invite :: "bytes \<Rightarrow> u64 \<Rightarrow> session \<Rightarrow> reaction \<times> session" where
  "handle_invite body now_ms s =
    (case read_only_refusal s of
       Some refusal \<Rightarrow> (refusal, s)
     | None \<Rightarrow>
       let (r, b) = defer_charged now_ms INVITE_FRAMES_PER_MINUTE (ss_invite_budget s) (AdministerInvite body) in
       (r, s\<lparr>ss_invite_budget := b\<rparr>))"

definition handle_handshake :: "bytes \<Rightarrow> bytes \<Rightarrow> u64 \<Rightarrow> session \<Rightarrow> reaction \<times> session" where
  "handle_handshake grp message now_ms s =
    (case read_only_refusal s of
       Some refusal \<Rightarrow> (refusal, s)
     | None \<Rightarrow>
       let (r, b) = defer_charged now_ms HANDSHAKE_FRAMES_PER_MINUTE (ss_handshake_budget s) (PublishHandshake grp message) in
       (r, s\<lparr>ss_handshake_budget := b\<rparr>))"

definition handle_live :: "bytes \<Rightarrow> u64 \<Rightarrow> bytes \<Rightarrow> u64 \<Rightarrow> session \<Rightarrow> reaction \<times> session" where
  "handle_live grp epoch ct now_ms s =
    (if ss_live s = LiveOff then (error_reply ProtocolUnsupported, s)
     else if MAX_LIVE_BYTES < length ct then (too_large MAX_LIVE_BYTES, s)
     else
       let (r, b) = defer_charged now_ms LIVE_FRAMES_PER_MINUTE (ss_live_budget s) (PublishLive grp epoch ct) in
       (r, s\<lparr>ss_live_budget := b\<rparr>))"

definition handle_keys :: "keys_body \<Rightarrow> u64 \<Rightarrow> session \<Rightarrow> reaction \<times> session" where
  "handle_keys body now_ms s =
    (let charged = (let (r, b) = defer_charged now_ms KEYS_FRAMES_PER_MINUTE (ss_keys_budget s) (KeyPackages body) in
                    (r, s\<lparr>ss_keys_budget := b\<rparr>)) in
     case body of
       Publish _ \<Rightarrow> (case read_only_refusal s of Some refusal \<Rightarrow> (refusal, s) | None \<Rightarrow> charged)
     | Fetch _ count \<Rightarrow>
         if count = 0 \<or> MAX_KEY_PACKAGE_FETCH < count then (too_large (unat MAX_KEY_PACKAGE_FETCH), s) else charged
     | _ \<Rightarrow> handle_other s)"

definition handle_wake :: "wake_body \<Rightarrow> u64 \<Rightarrow> session \<Rightarrow> reaction \<times> session" where
  "handle_wake body now_ms s =
    (let charged = (let (r, b) = defer_charged now_ms WAKE_FRAMES_PER_MINUTE (ss_wake_budget s) (WakeRegistration body) in
                    (r, s\<lparr>ss_wake_budget := b\<rparr>)) in
     case body of
       Register _ _ expires_at \<Rightarrow>
         (case read_only_refusal s of
            Some refusal \<Rightarrow> (refusal, s)
          | None \<Rightarrow> if \<not> expiry_in_bounds expires_at now_ms then (error_reply PushHandleMalformed, s) else charged)
     | Clear \<Rightarrow> (case read_only_refusal s of Some refusal \<Rightarrow> (refusal, s) | None \<Rightarrow> charged)
     | Query \<Rightarrow> charged
     | _ \<Rightarrow> handle_other s)"

definition handle_call :: "bytes \<Rightarrow> bytes \<Rightarrow> u64 \<Rightarrow> u8 \<Rightarrow> bytes \<Rightarrow> u64 \<Rightarrow> session \<Rightarrow> reaction \<times> session" where
  "handle_call call_id grp epoch kind body now_ms s =
    (case calls_unavailable s of
       Some refusal \<Rightarrow> (refusal, s)
     | None \<Rightarrow>
       (case call_kind_from_u8 kind of
          None \<Rightarrow> (error_reply MalformedHeader, s)
        | Some kind \<Rightarrow>
          if length call_id \<noteq> CALL_ID_BYTES then (error_reply MalformedHeader, s)
          else if MAX_CALL_BODY_BYTES < length body then (too_large MAX_CALL_BODY_BYTES, s)
          else
            let (r, b) = defer_charged now_ms CALL_FRAMES_PER_MINUTE (ss_call_budget s) (PublishCall call_id grp epoch kind body) in
            (r, s\<lparr>ss_call_budget := b\<rparr>)))"

definition handle_media :: "bytes \<Rightarrow> bytes \<Rightarrow> u64 \<Rightarrow> bytes \<Rightarrow> u64 \<Rightarrow> session \<Rightarrow> reaction \<times> session" where
  "handle_media call_id stream seq ct now_ms s =
    (case calls_unavailable s of
       Some refusal \<Rightarrow> (refusal, s)
     | None \<Rightarrow>
       if MAX_MEDIA_CT_BYTES < length ct then (too_large MAX_MEDIA_CT_BYTES, s)
       else if length call_id \<noteq> CALL_ID_BYTES \<or> length stream \<noteq> STREAM_BYTES then (error_reply MalformedHeader, s)
       else
         (case media_charge now_ms call_id stream (length ct) (ss_media_budget s) of
            (Inr _, b) \<Rightarrow> (Defer (PublishMedia call_id stream seq ct), s\<lparr>ss_media_budget := b\<rparr>)
          | (Inl refusal, b) \<Rightarrow>
            let (report, b) = should_report now_ms b in
            (Reply
               (if report
                then [FError (with_detail (to_be_bytes 8 (media_detail refusal))
                        (with_retry_after (media_retry_after refusal) (new_error (media_refusal_code refusal))))]
                else []),
             s\<lparr>ss_media_budget := b\<rparr>)))"

definition handle_blob :: "bytes \<Rightarrow> u64 \<Rightarrow> session \<Rightarrow> reaction \<times> session" where
  "handle_blob payload now_ms s =
    (let (r, b) = defer_charged now_ms BLOB_FRAMES_PER_MINUTE (ss_blob_budget s) (BlobTicket payload) in
     (r, s\<lparr>ss_blob_budget := b\<rparr>))"

definition handle_drop :: "bytes \<Rightarrow> u64 \<Rightarrow> session \<Rightarrow> reaction \<times> session" where
  "handle_drop payload now_ms s =
    (case read_only_refusal s of
       Some refusal \<Rightarrow> (refusal, s)
     | None \<Rightarrow>
       let (r, b) = defer_charged now_ms DROP_FRAMES_PER_MINUTE (ss_drop_budget s) (DropBefore payload) in
       (r, s\<lparr>ss_drop_budget := b\<rparr>))"

definition handle_bye :: "session \<Rightarrow> reaction \<times> session" where
  "handle_bye s = (ReplyAndClose [FBye []], s\<lparr>ss_state := SClosed\<rparr>)"

definition handle :: "entropy \<Rightarrow> frame \<Rightarrow> u64 \<Rightarrow> session \<Rightarrow> reaction \<times> session" where
  "handle e f now_ms s =
    (let st = ss_state s; ready = (\<lambda>r. if st = Ready then r else handle_other s) in
     case f of
       FConnect version groups sent_at \<Rightarrow> if st = Fresh then handle_connect e version groups sent_at now_ms s else handle_other s
     | FAuth device_key signature \<Rightarrow> if st = Challenged then handle_auth device_key signature s else handle_other s
     | FSend envelope \<Rightarrow> ready (handle_send envelope s)
     | FSub grp from_seq \<Rightarrow> ready (handle_sub grp from_seq now_ms s)
     | FRecon grp payload \<Rightarrow> ready (handle_recon grp payload now_ms s)
     | FAccess body \<Rightarrow> if st = Ready \<or> st = Bootstrapping then handle_access body now_ms s else handle_other s
     | FWrap body \<Rightarrow> ready (handle_wrap body now_ms s)
     | FJoin body \<Rightarrow> if st \<noteq> SClosed then handle_join body now_ms s else handle_other s
     | FInvite body \<Rightarrow> ready (handle_invite body now_ms s)
     | FHandshake grp _ message \<Rightarrow> ready (handle_handshake grp message now_ms s)
     | FLive grp epoch ct \<Rightarrow> ready (handle_live grp epoch ct now_ms s)
     | FKeys body \<Rightarrow> ready (handle_keys body now_ms s)
     | FWake body \<Rightarrow> ready (handle_wake body now_ms s)
     | FCall call_id grp epoch kind body \<Rightarrow> ready (handle_call call_id grp epoch kind body now_ms s)
     | FMedia call_id stream seq ct \<Rightarrow> ready (handle_media call_id stream seq ct now_ms s)
     | FBlob payload \<Rightarrow> ready (handle_blob payload now_ms s)
     | FDrop payload \<Rightarrow> ready (handle_drop payload now_ms s)
     | FBye _ \<Rightarrow> if st \<noteq> SClosed then handle_bye s else handle_other s
     | _ \<Rightarrow> handle_other s)"

subsection \<open>A connection's life\<close>

text \<open>What happens to a session between its creation and its end, with the time it happens at.\<close>

datatype session_op =
    OpFrame frame
  | OpAuthenticated u32
  | OpBootstrapping u32
  | OpRejected error_code
  | OpBindWorkspace string
  | OpBindDevice bytes
  | OpForget bytes
  | OpReserved
  | OpSource "string option"

fun session_step :: "entropy \<Rightarrow> u64 \<times> session_op \<Rightarrow> session \<Rightarrow> reaction \<times> session" where
  "session_step e (now_ms, OpFrame f) s = handle e f now_ms s"
| "session_step e (_, OpAuthenticated n) s = (let (f, s) = session_authenticated n s in (Reply [f], s))"
| "session_step e (_, OpBootstrapping n) s = (let (f, s) = session_bootstrapping n s in (Reply [f], s))"
| "session_step e (_, OpRejected code) s = (let (fs, s) = session_rejected code s in (ReplyAndClose fs, s))"
| "session_step e (_, OpBindWorkspace w) s = (Reply [], bind_workspace w s)"
| "session_step e (_, OpBindDevice k) s = (Reply [], bind_device k s)"
| "session_step e (_, OpForget g) s = (Reply [], forget_subscription g s)"
| "session_step e (_, OpReserved) s = (Reply [], note_join_reserved s)"
| "session_step e (_, OpSource src) s = (Reply [], set_source src s)"

fun session_run :: "entropy \<Rightarrow> (u64 \<times> session_op) list \<Rightarrow> session \<Rightarrow> reaction list \<times> session" where
  "session_run e [] s = ([], s)"
| "session_run e (op # ops) s =
    (let (r, s) = session_step e op s; (rs, s) = session_run e ops s in (r # rs, s))"

subsection \<open>The frame budgets\<close>

datatype budget_kind = KLive | KKeys | KWake | KHandshake | KAccess | KWrap | KInvite | KSub | KRecon | KBlob | KDrop | KJoin | KCall

fun budget_of :: "budget_kind \<Rightarrow> session \<Rightarrow> frame_budget" where
  "budget_of KLive s = ss_live_budget s"
| "budget_of KKeys s = ss_keys_budget s"
| "budget_of KWake s = ss_wake_budget s"
| "budget_of KHandshake s = ss_handshake_budget s"
| "budget_of KAccess s = ss_access_budget s"
| "budget_of KWrap s = ss_wrap_budget s"
| "budget_of KInvite s = ss_invite_budget s"
| "budget_of KSub s = ss_sub_budget s"
| "budget_of KRecon s = ss_recon_budget s"
| "budget_of KBlob s = ss_blob_budget s"
| "budget_of KDrop s = ss_drop_budget s"
| "budget_of KJoin s = ss_join_budget s"
| "budget_of KCall s = ss_call_budget s"

fun kind_limit :: "budget_kind \<Rightarrow> u32" where
  "kind_limit KLive = LIVE_FRAMES_PER_MINUTE"
| "kind_limit KKeys = KEYS_FRAMES_PER_MINUTE"
| "kind_limit KWake = WAKE_FRAMES_PER_MINUTE"
| "kind_limit KHandshake = HANDSHAKE_FRAMES_PER_MINUTE"
| "kind_limit KAccess = ACCESS_FRAMES_PER_MINUTE"
| "kind_limit KWrap = WRAP_FRAMES_PER_MINUTE"
| "kind_limit KInvite = INVITE_FRAMES_PER_MINUTE"
| "kind_limit KSub = SUB_FRAMES_PER_MINUTE"
| "kind_limit KRecon = RECON_FRAMES_PER_MINUTE"
| "kind_limit KBlob = BLOB_FRAMES_PER_MINUTE"
| "kind_limit KDrop = DROP_FRAMES_PER_MINUTE"
| "kind_limit KJoin = JOIN_FRAMES_PER_MINUTE_RESERVED"
| "kind_limit KCall = CALL_FRAMES_PER_MINUTE"

fun frame_kind :: "frame \<Rightarrow> budget_kind option" where
  "frame_kind (FLive _ _ _) = Some KLive"
| "frame_kind (FKeys _) = Some KKeys"
| "frame_kind (FWake _) = Some KWake"
| "frame_kind (FHandshake _ _ _) = Some KHandshake"
| "frame_kind (FAccess _) = Some KAccess"
| "frame_kind (FWrap _) = Some KWrap"
| "frame_kind (FInvite _) = Some KInvite"
| "frame_kind (FSub _ _) = Some KSub"
| "frame_kind (FRecon _ _) = Some KRecon"
| "frame_kind (FBlob _) = Some KBlob"
| "frame_kind (FDrop _) = Some KDrop"
| "frame_kind (FJoin _) = Some KJoin"
| "frame_kind (FCall _ _ _ _ _) = Some KCall"
| "frame_kind _ = None"

definition kind_allowance :: "budget_kind \<Rightarrow> session \<Rightarrow> u32" where
  "kind_allowance k s = (if k = KJoin then join_allowance s else kind_limit k)"

definition defers :: "reaction \<Rightarrow> bool" where
  "defers r \<longleftrightarrow> (\<exists>w. r = Defer w)"

lemma defers_simps [simp]: "defers (Defer w)" "\<not> defers (Reply fs)" "\<not> defers (ReplyAndClose fs)"
  by (simp_all add: defers_def)

lemma budget_of_update [simp]:
  "budget_of k (s\<lparr>ss_live_budget := b\<rparr>) = (if k = KLive then b else budget_of k s)"
  "budget_of k (s\<lparr>ss_keys_budget := b\<rparr>) = (if k = KKeys then b else budget_of k s)"
  "budget_of k (s\<lparr>ss_wake_budget := b\<rparr>) = (if k = KWake then b else budget_of k s)"
  "budget_of k (s\<lparr>ss_handshake_budget := b\<rparr>) = (if k = KHandshake then b else budget_of k s)"
  "budget_of k (s\<lparr>ss_access_budget := b\<rparr>) = (if k = KAccess then b else budget_of k s)"
  "budget_of k (s\<lparr>ss_wrap_budget := b\<rparr>) = (if k = KWrap then b else budget_of k s)"
  "budget_of k (s\<lparr>ss_invite_budget := b\<rparr>) = (if k = KInvite then b else budget_of k s)"
  "budget_of k (s\<lparr>ss_sub_budget := b\<rparr>) = (if k = KSub then b else budget_of k s)"
  "budget_of k (s\<lparr>ss_recon_budget := b\<rparr>) = (if k = KRecon then b else budget_of k s)"
  "budget_of k (s\<lparr>ss_blob_budget := b\<rparr>) = (if k = KBlob then b else budget_of k s)"
  "budget_of k (s\<lparr>ss_drop_budget := b\<rparr>) = (if k = KDrop then b else budget_of k s)"
  "budget_of k (s\<lparr>ss_join_budget := b\<rparr>) = (if k = KJoin then b else budget_of k s)"
  "budget_of k (s\<lparr>ss_call_budget := b\<rparr>) = (if k = KCall then b else budget_of k s)"
  by (cases k; simp)+

lemma budget_of_same [simp]:
  "budget_of k (s\<lparr>ss_state := st\<rparr>) = budget_of k s"
  "budget_of k (s\<lparr>ss_challenge := c\<rparr>) = budget_of k s"
  "budget_of k (s\<lparr>ss_requested := gs\<rparr>) = budget_of k s"
  "budget_of k (s\<lparr>ss_authorized_workspace := w\<rparr>) = budget_of k s"
  "budget_of k (s\<lparr>ss_subscribed := gs\<rparr>) = budget_of k s"
  "budget_of k (s\<lparr>ss_skew_ms := x\<rparr>) = budget_of k s"
  "budget_of k (s\<lparr>ss_source := src\<rparr>) = budget_of k s"
  "budget_of k (s\<lparr>ss_device_key := dk\<rparr>) = budget_of k s"
  "budget_of k (s\<lparr>ss_negotiated_version := v\<rparr>) = budget_of k s"
  "budget_of k (s\<lparr>ss_join_reserved := j\<rparr>) = budget_of k s"
  "budget_of k (s\<lparr>ss_media_budget := m\<rparr>) = budget_of k s"
  by (cases k; simp)+

lemmas handle_arms = handle_connect_def handle_auth_def handle_send_def handle_sub_def handle_recon_def handle_access_def
  handle_wrap_def handle_join_def handle_invite_def handle_handshake_def handle_live_def handle_keys_def handle_wake_def
  handle_call_def handle_media_def handle_blob_def handle_drop_def handle_bye_def handle_other_def

lemmas handle_answers = error_reply_def rate_limited_def too_large_def read_only_refusal_def calls_unavailable_def defer_charged_def

text \<open>One frame against one budget: a frame of that kind either charges it and is deferred exactly when it was
  admitted, or leaves it alone and is answered; any other frame leaves it alone.\<close>

definition charges :: "budget_kind \<Rightarrow> u64 \<Rightarrow> session \<Rightarrow> reaction \<Rightarrow> session \<Rightarrow> bool" where
  "charges k now_ms s r s' \<longleftrightarrow>
    fb_charge now_ms (kind_allowance k s) (budget_of k s) = (defers r, budget_of k s') \<or>
    \<not> defers r \<and> budget_of k s' = budget_of k s"

lemma handle_budget:
  assumes "handle e f now_ms s = (r, s')"
  shows "if frame_kind f = Some k then charges k now_ms s r s' else budget_of k s' = budget_of k s"
  using assms
  by (cases f)
    (auto simp: handle_def handle_arms handle_answers charges_def kind_allowance_def Let_def split: if_splits prod.splits option.splits
      keys_body.splits wake_body.splits sum.splits)

end
