(* ===== verification/Session_Life.thy ===== *)
theory Session_Life
  imports Session
begin

text \<open>
  What holds over the whole life of a session (\<open>src/backend/wealdrelay/src/session.rs\<close>): its frame budgets keep
  the contract of \<open>Rate_Window\<close>, its table honours the declared policies, and nothing but a redemption is
  served before authentication, which spends the challenge this connection issued.
\<close>

definition session_request :: "entropy \<Rightarrow> u64 \<times> session_op \<Rightarrow> session \<Rightarrow> bool \<times> session" where
  "session_request e op s = (let (r, s') = session_step e op s in (defers r, s'))"

fun op_kind :: "session_op \<Rightarrow> budget_kind option" where
  "op_kind (OpFrame f) = frame_kind f"
| "op_kind _ = None"

lemma session_ops_budget [simp]:
  "budget_of k (bind_workspace w s) = budget_of k s" "budget_of k (bind_device d s) = budget_of k s"
  "budget_of k (forget_subscription g s) = budget_of k s" "budget_of k (note_join_reserved s) = budget_of k s"
  "budget_of k (set_source x s) = budget_of k s"
  by (simp_all add: bind_workspace_def bind_device_def forget_subscription_def note_join_reserved_def set_source_def)

lemma session_request_budget:
  assumes "session_request e (now_ms, op) s = (ok, s')"
  shows "if op_kind op = Some k
    then fb_charge now_ms (kind_allowance k s) (budget_of k s) = (ok, budget_of k s') \<or> \<not> ok \<and> budget_of k s' = budget_of k s
    else budget_of k s' = budget_of k s"
proof (cases op)
  case (OpFrame f)
  obtain r where "handle e f now_ms s = (r, s')" "ok = defers r"
    using assms by (auto simp: session_request_def OpFrame split: prod.splits)
  then show ?thesis
    using handle_budget [of e f now_ms s r s' k] by (auto simp: OpFrame charges_def split: if_splits)
qed (use assms in \<open>auto simp: session_request_def session_authenticated_def session_bootstrapping_def session_rejected_def Let_def\<close>)

lemma kind_allowance_le: "unat (kind_allowance k s) \<le> unat (kind_limit k)"
  by (auto simp: kind_allowance_def join_allowance_def JOIN_FRAMES_PER_MINUTE_RESERVED_def JOIN_FRAMES_PER_MINUTE_def MAX_SCOPES_def)

interpretation frame_rate: rate_window "session_request e" "\<lambda>(now, _). unat now" "\<lambda>(_, op). op_kind op = Some k" "\<lambda>_. 1"
  "\<lambda>s. fb_win (budget_of k s)" "\<lambda>t. t" 60000 "unat (kind_limit k)" "\<lambda>_. True" for e k
proof (unfold_locales, goal_cases)
  case (6 s r s' st n)
  obtain now op where r: "r = (now, op)" by (cases r)
  show ?case
    using session_request_budget [of e now op s True s' k] 6 kind_allowance_le [of k s]
      fb_charge_step [of now "kind_allowance k s" "budget_of k s" True "budget_of k s'" st n]
    by (simp add: r)
next
  case (7 s r s')
  obtain now op where r: "r = (now, op)" by (cases r)
  obtain st n where w: "fb_win (budget_of k s) = Some (st, n)" by (simp add: fb_win_def)
  show ?case
    using session_request_budget [of e now op s True s' k] 7(2,3) 7(4) [OF w] kind_allowance_le [of k s]
      fb_charge_step [of now "kind_allowance k s" "budget_of k s" True "budget_of k s'" st n] w
    by (auto simp: r)
next
  case (8 s r b s' st n)
  obtain now op where r: "r = (now, op)" by (cases r)
  show ?case
    using session_request_budget [of e now op s b s' k] 8
      fb_charge_step(1) [of now "kind_allowance k s" "budget_of k s" b "budget_of k s'" st n]
    by (auto simp: r split: if_splits)
next
  case (9 s r b s' st n)
  obtain now op where r: "r = (now, op)" by (cases r)
  obtain st' n' where w: "fb_win (budget_of k s) = Some (st', n')" by (simp add: fb_win_def)
  show ?case
    using session_request_budget [of e now op s b s' k] 9(2-4) w
      fb_charge_step(1) [of now "kind_allowance k s" "budget_of k s" b "budget_of k s'" st' n']
    by (auto simp: r split: if_splits)
qed auto

text \<open>C15. Every budgeted frame is rate limited. Over any life of a connection under a clock that does not go backwards,
  the frames of one kind whose work is started inside any interval of a minute are at most twice that kind's
  frames-per-minute ceiling, whatever else happens to the session in between.\<close>

theorem session_rate_bounded:
  assumes "sorted (map (\<lambda>(now, _). unat now) ops)"
  shows "admitted_cost (\<lambda>(now, op). op_kind op = Some k \<and> a \<le> unat now \<and> unat now < a + 60000) (\<lambda>_. 1)
    (outcomes (session_request e) s ops) \<le> 2 * unat (kind_limit k)"
  using frame_rate.interval_bound [where s = s and rs = ops and a = a and k = k and e = e] assms
  by (simp add: case_prod_unfold)

text \<open>The kind of budget a deferred item's frame has, against the ceiling the item's policy declares.\<close>

lemma policy_kind:
  assumes "handle e f now_ms s = (Defer w, s')"
  shows "wp_frames_per_minute (policy w) = map_option (\<lambda>k. if k = KJoin then JOIN_FRAMES_PER_MINUTE else kind_limit k) (frame_kind f)"
    and "wp_write_refusal (policy w) = FrameTable \<Longrightarrow> \<not> refuses_writes s"
    and "wp_durability (policy w) = Writes \<longleftrightarrow> wp_write_refusal (policy w) \<noteq> NotAWrite"
  using assms
  by (cases f; auto simp: handle_def handle_arms handle_answers mk_policy_def Let_def split: if_splits prod.splits option.splits
      keys_body.splits wake_body.splits sum.splits)+


theorem session_rate_bounded_witness:
  "admitted_cost (\<lambda>(now, op). op_kind op = Some KJoin \<and> 0 \<le> unat now \<and> unat now < 0 + 60000) (\<lambda>_. 1)
    (outcomes (session_request \<lparr>blake3_of = \<lambda>x. x, challenge_secret = []\<rparr>)
      (session_new \<lparr>scfg_min_encryption = MinMls, scfg_write_mode = WriteFull, scfg_access_set = Enforce, scfg_live = LiveOn, scfg_calls = CallOn\<rparr> 0 [])
      [(5, OpFrame (FJoin [1])), (6, OpReserved), (7, OpFrame (FJoin [2]))]) \<le> 2 * unat JOIN_FRAMES_PER_MINUTE_RESERVED"
  using session_rate_bounded [where ops = "[(5, OpFrame (FJoin [1])), (6, OpReserved), (7, OpFrame (FJoin [2]))]" and k = KJoin and a = 0
      and e = "\<lparr>blake3_of = \<lambda>x. x, challenge_secret = []\<rparr>"
      and s = "session_new \<lparr>scfg_min_encryption = MinMls, scfg_write_mode = WriteFull, scfg_access_set = Enforce, scfg_live = LiveOn, scfg_calls = CallOn\<rparr> 0 []"]
  by simp

definition sample_session :: "session_state \<Rightarrow> session" where
  "sample_session st =
    (session_new \<lparr>scfg_min_encryption = MinMls, scfg_write_mode = WriteFull, scfg_access_set = Enforce, scfg_live = LiveOn, scfg_calls = CallOn\<rparr> 0 [])
      \<lparr>ss_state := st\<rparr>"

definition sample_entropy :: entropy where
  "sample_entropy = \<lparr>blake3_of = \<lambda>x. x, challenge_secret = []\<rparr>"


subsection \<open>Authentication\<close>

fun needs_ready :: "work \<Rightarrow> bool" where
  "needs_ready (Authenticate _ _ _) = False"
| "needs_ready (Redeem _) = False"
| "needs_ready (RotateAccessSet _) = False"
| "needs_ready _ = True"

fun is_rotation :: "work \<Rightarrow> bool" where
  "is_rotation (RotateAccessSet _) = True"
| "is_rotation _ = False"

fun is_authentication :: "work \<Rightarrow> bool" where
  "is_authentication (Authenticate _ _ _) = True"
| "is_authentication _ = False"

lemma handle_defer_state:
  assumes "handle e f now_ms s = (Defer w, s')"
  shows "needs_ready w \<Longrightarrow> ss_state s = Ready"
    and "is_rotation w \<Longrightarrow> ss_state s = Ready \<or> ss_state s = Bootstrapping"
    and "is_authentication w \<Longrightarrow> ss_state s = Challenged"
    and "ss_state s \<noteq> SClosed"
  using assms
  by (cases f; auto simp: handle_def handle_arms handle_answers Let_def split: if_splits prod.splits option.splits
      keys_body.splits wake_body.splits sum.splits)+

lemma handle_state:
  assumes "handle e f now_ms s = (r, s')"
  shows "ss_state s' = ss_state s \<or> ss_state s' = SClosed \<or> ss_state s = Fresh \<and> ss_state s' = Challenged"
  using assms
  by (cases f)
    (auto simp: handle_def handle_arms handle_answers Let_def split: if_splits prod.splits option.splits
      keys_body.splits wake_body.splits sum.splits)

lemma session_run_append:
  "session_run e (ops @ ops') s =
    (let (rs, s) = session_run e ops s; (rs', s) = session_run e ops' s in (rs @ rs', s))"
  by (induction ops arbitrary: s) (auto simp: Let_def split: prod.splits)

text \<open>How a session got into a state that serves.\<close>

definition earned :: "(u64 \<times> session_op) list \<Rightarrow> session \<Rightarrow> bool" where
  "earned ops s \<longleftrightarrow>
    (ss_state s = Ready \<longrightarrow> (\<exists>n. OpAuthenticated n \<in> snd ` set ops)) \<and>
    (ss_state s = Bootstrapping \<longrightarrow> (\<exists>n. OpBootstrapping n \<in> snd ` set ops))"

lemma earned_step:
  assumes "earned ops s" "session_step e (now_ms, op) s = (r, s')"
  shows "earned (ops @ [(now_ms, op)]) s'"
proof (cases op)
  case (OpFrame f)
  then have h: "handle e f now_ms s = (r, s')"
    using assms(2) by simp
  show ?thesis
    using handle_state [OF h] assms(1) by (auto simp: earned_def)
qed (use assms in \<open>auto simp: earned_def session_authenticated_def session_bootstrapping_def session_rejected_def Let_def bind_workspace_def
    bind_device_def forget_subscription_def note_join_reserved_def set_source_def\<close>)

lemma earned_run:
  "earned past s \<Longrightarrow> session_run e ops s = (rs, s') \<Longrightarrow> earned (past @ ops) s'"
proof (induction ops arbitrary: past s rs)
  case (Cons op ops)
  obtain now_ms o' r s1 rs1 where "op = (now_ms, o')" "session_step e (now_ms, o') s = (r, s1)" "session_run e ops s1 = (rs1, s')"
    using Cons.prems(2) by (cases op) (auto simp: Let_def split: prod.splits)
  then show ?case
    using Cons.IH [OF earned_step [OF Cons.prems(1)]] by simp
qed simp

text \<open>C4. Nothing is served before authentication. Whatever a connection was sent before, the work a frame starts is a
  redemption, an attempt to authenticate, a publication of an access set by a session admitted to bootstrap, or
  the work of a session that was authenticated.\<close>

theorem work_needs_authentication:
  assumes "session_run e ops (session_new cfg nonce digest) = (rs, s)" "handle e f now_ms s = (Defer w, s')"
  shows "(\<exists>body. w = Redeem body) \<or> (\<exists>d sig c. w = Authenticate d sig c) \<or>
    (\<exists>body n. w = RotateAccessSet body \<and> OpBootstrapping n \<in> snd ` set ops) \<or>
    (\<exists>n. OpAuthenticated n \<in> snd ` set ops)"
proof -
  have "earned ops s"
    using earned_run [of "[]" "session_new cfg nonce digest" e ops rs s] assms(1) by (simp add: earned_def session_new_def)
  then show ?thesis
    using handle_defer_state(1,2) [OF assms(2)] by (cases w) (auto simp: earned_def)
qed

theorem work_needs_authentication_witness:
  "\<exists>rs s. session_run sample_entropy [(5, OpFrame (FConnect 4 [] 5)), (6, OpFrame (FAuth [1] [2])), (7, OpAuthenticated 3)]
      (sample_session Fresh) = (rs, s) \<and>
    fst (handle sample_entropy (FSend [1]) 8 s) = Defer (AcceptEnvelope [1]) \<and>
    (\<exists>n. OpAuthenticated n \<in> snd ` set [(5 :: u64, OpFrame (FConnect 4 [] 5)), (6, OpFrame (FAuth [1] [2])), (7, OpAuthenticated 3)])"
proof -
  let ?ops = "[(5, OpFrame (FConnect 4 [] 5)), (6, OpFrame (FAuth [1] [2])), (7, OpAuthenticated 3)]"
  let ?cfg = "\<lparr>scfg_min_encryption = MinMls, scfg_write_mode = WriteFull, scfg_access_set = Enforce, scfg_live = LiveOn, scfg_calls = CallOn\<rparr>"
  obtain rs s where run: "session_run sample_entropy ?ops (session_new ?cfg 0 []) = (rs, s)"
    by (cases "session_run sample_entropy ?ops (session_new ?cfg 0 [])")
  then have "ss_state s = Ready" "ss_write_mode s = WriteFull"
    by (auto simp: handle_def handle_connect_def handle_auth_def session_new_def session_authenticated_def MIN_PROTOCOL_VERSION_def
        PROTOCOL_VERSION_def MAX_GROUPS_PER_CONNECTION_def Let_def)
  then have h: "handle sample_entropy (FSend [1]) 8 s = (Defer (AcceptEnvelope [1]), s)"
    by (simp add: handle_def handle_send_def refuses_writes_def)
  have "sample_session Fresh = session_new ?cfg 0 []"
    by (simp add: sample_session_def session_new_def)
  then show ?thesis
    using work_needs_authentication [OF run h] run h by auto
qed

subsection \<open>Challenges\<close>

fun spent :: "reaction \<Rightarrow> bytes list" where
  "spent (Defer (Authenticate _ _ c)) = (if c = [] then [] else [c])"
| "spent _ = []"

definition spent_challenges :: "reaction list \<Rightarrow> bytes list" where
  "spent_challenges rs = concat (map spent rs)"

definition issued :: "reaction list \<Rightarrow> bytes \<Rightarrow> bool" where
  "issued rs c \<longleftrightarrow> (\<exists>fs. Reply fs \<in> set rs \<and> FAuthChallenge c \<in> set fs)"

definition own_challenge :: "entropy \<Rightarrow> u64 \<Rightarrow> reaction list \<Rightarrow> bytes \<Rightarrow> bool" where
  "own_challenge e nonce rs c \<longleftrightarrow> issued rs c \<and> (\<exists>now_ms groups. c = challenge_bytes e now_ms groups nonce)"

text \<open>What a run has done with its challenge so far.\<close>

definition challenge_ok :: "entropy \<Rightarrow> u64 \<Rightarrow> reaction list \<Rightarrow> session \<Rightarrow> bool" where
  "challenge_ok e nonce rs s \<longleftrightarrow>
    ss_connection_nonce s = nonce \<and>
    (ss_state s = Fresh \<longrightarrow> spent_challenges rs = [] \<and> ss_challenge s = []) \<and>
    length (spent_challenges rs) + (if ss_challenge s = [] then 0 else 1) \<le> 1 \<and>
    (\<forall>c\<in>set (spent_challenges rs) \<union> ({ss_challenge s} - {[]}). own_challenge e nonce rs c)"

lemma spent_challenges_snoc [simp]: "spent_challenges (rs @ [r]) = spent_challenges rs @ spent r"
  by (simp add: spent_challenges_def)

lemma own_challenge_mono: "own_challenge e nonce rs c \<Longrightarrow> own_challenge e nonce (rs @ [r]) c"
  by (auto simp: own_challenge_def issued_def)

lemma handle_keeps_challenge:
  assumes "handle e f now_ms s = (r, s')" "tag_of f \<noteq> TConnect" "tag_of f \<noteq> TAuth"
  shows "spent r = [] \<and> ss_challenge s' = ss_challenge s \<and> ss_connection_nonce s' = ss_connection_nonce s"
  using assms
  by (cases f)
    (auto simp: handle_def handle_arms handle_answers Let_def split: if_splits prod.splits option.splits
      keys_body.splits wake_body.splits sum.splits)

lemma handle_auth_challenge:
  assumes "handle e (FAuth d sig) now_ms s = (r, s')"
  shows "ss_connection_nonce s' = ss_connection_nonce s \<and>
    (spent r = [] \<and> ss_challenge s' = ss_challenge s \<or>
     ss_state s = Challenged \<and> ss_state s' = Challenged \<and> spent r = (if ss_challenge s = [] then [] else [ss_challenge s]) \<and> ss_challenge s' = [])"
  using assms by (auto simp: handle_def handle_auth_def handle_other_def split: if_splits)

lemma handle_connect_challenge:
  assumes "handle e (FConnect v gs at) now_ms s = (r, s')"
  shows "ss_connection_nonce s' = ss_connection_nonce s \<and> spent r = [] \<and>
    (ss_challenge s' = ss_challenge s \<or>
     ss_state s = Fresh \<and> ss_state s' = Challenged \<and> ss_challenge s' = challenge_bytes e now_ms gs (ss_connection_nonce s) \<and>
       (\<exists>fs. r = Reply fs \<and> FAuthChallenge (ss_challenge s') \<in> set fs))"
  using assms by (auto simp: handle_def handle_connect_def handle_other_def Let_def split: if_splits)

lemma handle_challenge:
  assumes "handle e f now_ms s = (r, s')"
  shows "ss_connection_nonce s' = ss_connection_nonce s"
    and "spent r = [] \<and> ss_challenge s' = ss_challenge s \<and> (ss_state s' = Fresh \<longrightarrow> ss_state s = Fresh) \<or>
      ss_state s = Challenged \<and> ss_state s' = Challenged \<and> spent r = (if ss_challenge s = [] then [] else [ss_challenge s]) \<and> ss_challenge s' = [] \<or>
      ss_state s = Fresh \<and> ss_state s' = Challenged \<and> spent r = [] \<and>
        (\<exists>groups fs. ss_challenge s' = challenge_bytes e now_ms groups (ss_connection_nonce s) \<and> r = Reply fs \<and> FAuthChallenge (ss_challenge s') \<in> set fs)"
proof -
  have fresh: "ss_state s' = Fresh \<longrightarrow> ss_state s = Fresh"
    using handle_state [OF assms] by auto
  have "tag_of f = TConnect \<Longrightarrow> \<exists>v gs at. f = FConnect v gs at" "tag_of f = TAuth \<Longrightarrow> \<exists>d sig. f = FAuth d sig"
    by (cases f; simp)+
  then consider (connect) v gs at where "f = FConnect v gs at" | (auth) d sig where "f = FAuth d sig"
    | (other) "tag_of f \<noteq> TConnect" "tag_of f \<noteq> TAuth"
    by blast
  note cases = this
  show "ss_connection_nonce s' = ss_connection_nonce s"
    using cases
  proof cases
    case connect
    then show ?thesis using handle_connect_challenge [of e v gs at now_ms s r s'] assms by blast
  next
    case auth
    then show ?thesis using handle_auth_challenge [of e d sig now_ms s r s'] assms by blast
  next
    case other
    then show ?thesis using handle_keeps_challenge [OF assms] by blast
  qed
  show "spent r = [] \<and> ss_challenge s' = ss_challenge s \<and> (ss_state s' = Fresh \<longrightarrow> ss_state s = Fresh) \<or>
      ss_state s = Challenged \<and> ss_state s' = Challenged \<and> spent r = (if ss_challenge s = [] then [] else [ss_challenge s]) \<and> ss_challenge s' = [] \<or>
      ss_state s = Fresh \<and> ss_state s' = Challenged \<and> spent r = [] \<and>
        (\<exists>groups fs. ss_challenge s' = challenge_bytes e now_ms groups (ss_connection_nonce s) \<and> r = Reply fs \<and> FAuthChallenge (ss_challenge s') \<in> set fs)"
    using cases
  proof cases
    case connect
    then show ?thesis using handle_connect_challenge [of e v gs at now_ms s r s'] assms fresh by blast
  next
    case auth
    then show ?thesis using handle_auth_challenge [of e d sig now_ms s r s'] assms fresh by blast
  next
    case other
    then show ?thesis using handle_keeps_challenge [OF assms] fresh by blast
  qed
qed

lemma challenge_step:
  assumes ok: "challenge_ok e nonce rs s" and step: "session_step e (now_ms, op) s = (r, s')"
  shows "challenge_ok e nonce (rs @ [r]) s'"
proof (cases op)
  case (OpFrame f)
  then have h: "handle e f now_ms s = (r, s')"
    using step by simp
  from handle_challenge(2) [OF h] show ?thesis
  proof (elim disjE)
    assume "spent r = [] \<and> ss_challenge s' = ss_challenge s \<and> (ss_state s' = Fresh \<longrightarrow> ss_state s = Fresh)"
    then show ?thesis
      using ok handle_challenge(1) [OF h] by (auto simp: challenge_ok_def own_challenge_mono)
  next
    assume "ss_state s = Challenged \<and> ss_state s' = Challenged \<and> spent r = (if ss_challenge s = [] then [] else [ss_challenge s]) \<and> ss_challenge s' = []"
    then show ?thesis
      using ok handle_challenge(1) [OF h] by (auto simp: challenge_ok_def own_challenge_mono split: if_splits)
  next
    assume *: "ss_state s = Fresh \<and> ss_state s' = Challenged \<and> spent r = [] \<and>
        (\<exists>groups fs. ss_challenge s' = challenge_bytes e now_ms groups (ss_connection_nonce s) \<and> r = Reply fs \<and> FAuthChallenge (ss_challenge s') \<in> set fs)"
    then have "own_challenge e nonce (rs @ [r]) (ss_challenge s')"
      using ok by (auto simp: own_challenge_def issued_def challenge_ok_def)
    then show ?thesis
      using * ok handle_challenge(1) [OF h] by (auto simp: challenge_ok_def)
  qed
qed (use step ok in \<open>auto simp: challenge_ok_def own_challenge_mono session_authenticated_def session_bootstrapping_def session_rejected_def Let_def
    bind_workspace_def bind_device_def forget_subscription_def note_join_reserved_def set_source_def\<close>)

lemma challenge_run:
  "challenge_ok e nonce past s \<Longrightarrow> session_run e ops s = (rs, s') \<Longrightarrow> challenge_ok e nonce (past @ rs) s'"
proof (induction ops arbitrary: past s rs)
  case (Cons op ops)
  obtain now_ms o' r s1 rs1 where "op = (now_ms, o')" "session_step e (now_ms, o') s = (r, s1)" "session_run e ops s1 = (rs1, s')"
    and "rs = r # rs1"
    using Cons.prems(2) by (cases op) (auto simp: Let_def split: prod.splits)
  then show ?case
    using Cons.IH [OF challenge_step [OF Cons.prems(1)]] by simp
qed simp

lemma challenge_input_nonce:
  assumes "challenge_input now_ms groups nonce secret = challenge_input now_ms' groups' nonce' secret"
  shows "nonce = nonce'"
proof -
  have "to_be_bytes 8 nonce = to_be_bytes 8 nonce'"
    using assms by (simp add: challenge_input_def)
  then have "foldl be_step 0 (to_be_bytes 8 nonce) = foldl be_step 0 (to_be_bytes 8 nonce')"
    by simp
  moreover have "take_bit (8 * 8) x = x" for x :: u64
    by (simp add: bit_eq_iff bit_simps)
  ultimately show ?thesis
    by (simp add: foldl_be_to_be_bytes)
qed

text \<open>C5. A connection authenticates against a challenge of its own, once. In any life of a connection at most one
  non-empty challenge reaches verification, and it is one the connection sent to its peer, computed under its own
  nonce. A challenge that also reaches verification on a connection with another nonce is a BLAKE3 collision
  between the two inputs, which differ.\<close>

theorem challenge_not_replayable:
  assumes "session_run e ops1 (session_new cfg1 nonce1 digest1) = (rs1, s1)"
  shows "length (spent_challenges rs1) \<le> 1 \<and>
    (\<forall>c\<in>set (spent_challenges rs1). issued rs1 c \<and> (\<exists>now1 groups1. c = challenge_bytes e now1 groups1 nonce1)) \<and>
    (\<forall>ops2 cfg2 nonce2 digest2 rs2 s2 c.
      session_run e ops2 (session_new cfg2 nonce2 digest2) = (rs2, s2) \<and> nonce1 \<noteq> nonce2 \<and>
      c \<in> set (spent_challenges rs1) \<and> c \<in> set (spent_challenges rs2) \<longrightarrow>
      (\<exists>now1 groups1 now2 groups2.
        let x = challenge_input now1 groups1 nonce1 (challenge_secret e); y = challenge_input now2 groups2 nonce2 (challenge_secret e) in
        x \<noteq> y \<and> blake3_of e x = c \<and> blake3_of e y = c))"
proof (intro conjI allI impI)
  have new: "challenge_ok e nonce [] (session_new cfg nonce digest)" for cfg nonce digest
    by (simp add: challenge_ok_def session_new_def spent_challenges_def)
  have ok: "session_run e ops (session_new cfg nonce digest) = (rs, s) \<Longrightarrow> challenge_ok e nonce rs s" for ops cfg nonce digest rs s
    using challenge_run [OF new] by fastforce
  show "length (spent_challenges rs1) \<le> 1"
    using ok [OF assms] by (auto simp: challenge_ok_def split: if_splits)
  show "\<forall>c\<in>set (spent_challenges rs1). issued rs1 c \<and> (\<exists>now1 groups1. c = challenge_bytes e now1 groups1 nonce1)"
    using ok [OF assms] by (auto simp: challenge_ok_def own_challenge_def)
  fix ops2 cfg2 nonce2 digest2 rs2 s2 c
  assume other: "session_run e ops2 (session_new cfg2 nonce2 digest2) = (rs2, s2) \<and> nonce1 \<noteq> nonce2 \<and>
      c \<in> set (spent_challenges rs1) \<and> c \<in> set (spent_challenges rs2)"
  then have "own_challenge e nonce1 rs1 c" "own_challenge e nonce2 rs2 c"
    using ok [OF assms] ok [of ops2 cfg2 nonce2 digest2 rs2 s2] by (auto simp: challenge_ok_def)
  then show "\<exists>now1 groups1 now2 groups2.
        let x = challenge_input now1 groups1 nonce1 (challenge_secret e); y = challenge_input now2 groups2 nonce2 (challenge_secret e) in
        x \<noteq> y \<and> blake3_of e x = c \<and> blake3_of e y = c"
    using challenge_input_nonce other by (auto simp: own_challenge_def challenge_bytes_def Let_def) metis
qed

theorem challenge_not_replayable_witness:
  "\<exists>c rs s. session_run sample_entropy [(5, OpFrame (FConnect 4 [] 5)), (6, OpFrame (FAuth [1] [2])), (7, OpFrame (FAuth [1] [3]))]
      (sample_session Fresh) = (rs, s) \<and> spent_challenges rs = [c] \<and> issued rs c \<and>
    (\<forall>ops2 cfg2 digest2. c \<notin> set (spent_challenges (fst (session_run sample_entropy ops2 (session_new cfg2 1 digest2)))))"
proof -
  let ?ops = "[(5, OpFrame (FConnect 4 [] 5)), (6, OpFrame (FAuth [1] [2])), (7, OpFrame (FAuth [1] [3]))]"
  let ?cfg = "\<lparr>scfg_min_encryption = MinMls, scfg_write_mode = WriteFull, scfg_access_set = Enforce, scfg_live = LiveOn, scfg_calls = CallOn\<rparr>"
  let ?c = "challenge_bytes sample_entropy 5 [] 0"
  have sample: "sample_session Fresh = session_new ?cfg 0 []"
    by (simp add: sample_session_def session_new_def)
  obtain rs s where run: "session_run sample_entropy ?ops (session_new ?cfg 0 []) = (rs, s)"
    by (cases "session_run sample_entropy ?ops (session_new ?cfg 0 [])")
  have "?c \<noteq> []"
    by (simp add: challenge_bytes_def challenge_input_def sample_entropy_def as_bytes_def)
  then have spent: "spent_challenges rs = [?c]"
    using run by (auto simp: handle_def handle_connect_def handle_auth_def session_new_def MIN_PROTOCOL_VERSION_def PROTOCOL_VERSION_def
        MAX_GROUPS_PER_CONNECTION_def spent_challenges_def Let_def)
  have "?c \<notin> set (spent_challenges (fst (session_run sample_entropy ops2 (session_new cfg2 1 digest2))))" for ops2 cfg2 digest2
  proof
    assume "?c \<in> set (spent_challenges (fst (session_run sample_entropy ops2 (session_new cfg2 1 digest2))))"
    moreover obtain rs2 s2 where "session_run sample_entropy ops2 (session_new cfg2 1 digest2) = (rs2, s2)"
      by (cases "session_run sample_entropy ops2 (session_new cfg2 1 digest2)")
    ultimately show False
      using challenge_not_replayable [OF run] spent by (fastforce simp: sample_entropy_def Let_def)
  qed
  then show ?thesis
    using challenge_not_replayable [OF run] run spent sample by (intro exI [of _ ?c] exI [of _ rs] exI [of _ s]) auto
qed

subsection \<open>The invariant of a session\<close>

definition session_inv :: "session \<Rightarrow> bool" where
  "session_inv s \<longleftrightarrow> distinct (ss_subscribed s) \<and> length (ss_subscribed s) \<le> MAX_GROUPS_PER_CONNECTION \<and>
    length (ss_requested s) \<le> MAX_GROUPS_PER_CONNECTION \<and> media_inv (ss_media_budget s) \<and>
    MIN_PROTOCOL_VERSION \<le> ss_negotiated_version s \<and> ss_negotiated_version s \<le> PROTOCOL_VERSION"

lemma should_report_inv: "media_inv b \<Longrightarrow> should_report now_ms b = (r, b') \<Longrightarrow> media_inv b'"
  by (auto simp: should_report_def media_inv_def Let_def split: if_splits)

lemma handle_media_inv:
  assumes "media_inv (ss_media_budget s)" "handle_media call_id stream seq ct now_ms s = (r, s')"
  shows "media_inv (ss_media_budget s')"
proof -
  have "media_charge now_ms call_id stream (length ct) (ss_media_budget s) = (x, b) \<Longrightarrow> media_inv b" for x b
    using media_request_inv [OF assms(1), of now_ms call_id stream "length ct" "x = Inr ()" b] by (simp add: media_request_def)
  then show ?thesis
    using assms should_report_inv
    by (auto simp: handle_media_def calls_unavailable_def Let_def split: if_splits prod.splits sum.splits option.splits)
qed

lemma handle_keeps_lists:
  assumes "handle e f now_ms s = (r, s')" "tag_of f \<notin> {TConnect, TSub, TMedia}"
  shows "ss_subscribed s' = ss_subscribed s" "ss_requested s' = ss_requested s"
    "ss_negotiated_version s' = ss_negotiated_version s" "ss_media_budget s' = ss_media_budget s"
  using assms
  by (cases f; auto simp: handle_def handle_arms handle_answers Let_def split: if_splits prod.splits option.splits
      keys_body.splits wake_body.splits)+

lemma handle_session_inv:
  assumes inv: "session_inv s" and h: "handle e f now_ms s = (r, s')"
  shows "session_inv s'"
proof -
  have "tag_of f = TConnect \<Longrightarrow> \<exists>v gs at. f = FConnect v gs at" "tag_of f = TSub \<Longrightarrow> \<exists>g n. f = FSub g n"
    "tag_of f = TMedia \<Longrightarrow> \<exists>c st q ct. f = FMedia c st q ct"
    by (cases f; simp)+
  moreover have versions: "MIN_PROTOCOL_VERSION \<le> PROTOCOL_VERSION"
    by (simp add: MIN_PROTOCOL_VERSION_def PROTOCOL_VERSION_def)
  ultimately consider (connect) v gs at where "f = FConnect v gs at" | (sub) g n where "f = FSub g n"
    | (media) c st q ct where "f = FMedia c st q ct" | (other) "tag_of f \<notin> {TConnect, TSub, TMedia}"
    by blast
  then show ?thesis
  proof cases
    case connect
    have "\<not> v < MIN_PROTOCOL_VERSION \<Longrightarrow> MIN_PROTOCOL_VERSION \<le> min v PROTOCOL_VERSION"
      using versions by (simp add: min_def not_less)
    then show ?thesis
      using inv h
      by (auto simp: connect handle_def handle_connect_def handle_other_def session_inv_def Let_def not_less split: if_splits)
  next
    case sub
    then show ?thesis
      using inv h
      by (auto simp: handle_def handle_sub_def handle_other_def session_inv_def Let_def split: if_splits prod.splits)
  next
    case media
    have "ss_subscribed s' = ss_subscribed s \<and> ss_requested s' = ss_requested s \<and> ss_negotiated_version s' = ss_negotiated_version s"
      using h by (auto simp: media handle_def handle_media_def handle_other_def calls_unavailable_def Let_def
          split: if_splits prod.splits sum.splits option.splits)
    moreover have "media_inv (ss_media_budget s')"
      using inv h handle_media_inv [of s c st q ct now_ms r s']
      by (auto simp: media handle_def session_inv_def handle_other_def split: if_splits)
    ultimately show ?thesis
      using inv by (simp add: session_inv_def)
  next
    case other
    then show ?thesis
      using inv handle_keeps_lists [OF h other] by (simp add: session_inv_def)
  qed
qed

lemma session_step_inv:
  assumes inv: "session_inv s" and step: "session_step e (now_ms, op) s = (r, s')"
  shows "session_inv s'"
proof (cases op)
  case (OpFrame f)
  then show ?thesis using handle_session_inv [OF inv] step by simp
next
  case (OpForget g)
  have "length (filter (\<lambda>held. held \<noteq> g) (ss_subscribed s)) \<le> MAX_GROUPS_PER_CONNECTION"
    by (rule le_trans [OF length_filter_le]) (use inv in \<open>simp add: session_inv_def\<close>)
  then show ?thesis
    using inv step OpForget by (auto simp: session_inv_def forget_subscription_def)
qed (use inv step in \<open>auto simp: session_inv_def session_authenticated_def session_bootstrapping_def session_rejected_def Let_def
    bind_workspace_def bind_device_def note_join_reserved_def set_source_def\<close>)

text \<open>C17. The session's own bounds hold for the whole of its life: no group is recorded twice, no more than 256 groups
  are subscribed or requested, the negotiated version stays within what the build speaks and the media budget
  within its table.\<close>

theorem session_keeps_inv:
  assumes "session_run e ops (session_new cfg nonce digest) = (rs, s)"
  shows "session_inv s"
proof -
  have run: "session_inv s \<Longrightarrow> session_run e ops s = (rs, s') \<Longrightarrow> session_inv s'" for s s' rs
  proof (induction ops arbitrary: s rs)
    case (Cons op ops)
    obtain r s1 rs1 where "session_step e op s = (r, s1)" "session_run e ops s1 = (rs1, s')"
      using Cons.prems(2) by (auto simp: Let_def split: prod.splits)
    then show ?case
      using Cons.IH session_step_inv [OF Cons.prems(1)] by (cases op) blast
  qed simp
  have "session_inv (session_new cfg nonce digest)"
    by (simp add: session_inv_def session_new_def media_inv_def media_budget_default_def MIN_PROTOCOL_VERSION_def PROTOCOL_VERSION_def)
  then show ?thesis
    using run assms by blast
qed

theorem session_keeps_inv_witness:
  "session_inv (snd (session_run sample_entropy [(5, OpFrame (FConnect 9 [[1], [2]] 5)), (6, OpAuthenticated 3), (7, OpFrame (FSub [1] 0))]
    (session_new \<lparr>scfg_min_encryption = MinMls, scfg_write_mode = WriteFull, scfg_access_set = Enforce, scfg_live = LiveOn, scfg_calls = CallOn\<rparr> 0 [])))"
  by (rule session_keeps_inv) (rule prod.collapse [symmetric])

end
