(* ===== verification/Deadline.thy ===== *)
theory Deadline
  imports Prelude
begin

text \<open>
  \<open>src/backend/wealdrelay/src/deadline.rs\<close> and the loop of \<open>ws::serve_connection\<close> that asks it what to
  do. A \<open>Duration\<close> is a number of milliseconds (every one here comes from \<open>from_millis\<close> or \<open>from_secs\<close>);
  an instant is the \<open>u64\<close> the loop reads from its monotonic clock.
\<close>

definition LIVENESS_PROBE_WINDOW :: nat where "LIVENESS_PROBE_WINDOW = 10 * 1000"
definition DEFAULT_HANDSHAKE_TIMEOUT_MS :: u64 where "DEFAULT_HANDSHAKE_TIMEOUT_MS = 10000"
definition DEFAULT_IDLE_TIMEOUT_MS :: u64 where "DEFAULT_IDLE_TIMEOUT_MS = 300000"

datatype expiry = HandshakeExpiry | IdleExpiry

fun expiry_as_str :: "expiry \<Rightarrow> string" where
  "expiry_as_str HandshakeExpiry = ''handshake_deadline''"
| "expiry_as_str IdleExpiry = ''idle_deadline''"

datatype dl_next = Wait nat | Probe nat | Expired expiry

record deadlines =
  dl_handshake :: nat
  dl_idle :: nat
  dl_probe :: nat
  dl_opened_ms :: u64
  dl_last_seen_ms :: u64
  dl_probed_at_ms :: "u64 option"
  dl_authenticated :: bool

definition dl_from_parts :: "nat \<Rightarrow> nat \<Rightarrow> u64 \<Rightarrow> deadlines" where
  "dl_from_parts handshake idle now_ms =
    \<lparr>dl_handshake = handshake, dl_idle = idle, dl_probe = min LIVENESS_PROBE_WINDOW idle, dl_opened_ms = now_ms,
     dl_last_seen_ms = now_ms, dl_probed_at_ms = None, dl_authenticated = False\<rparr>"

definition dl_new :: "u64 \<Rightarrow> u64 \<Rightarrow> u64 \<Rightarrow> deadlines" where
  "dl_new handshake_timeout_ms idle_timeout_ms now_ms =
    dl_from_parts (unat handshake_timeout_ms) (unat idle_timeout_ms) now_ms"

definition dl_auth :: "u64 \<Rightarrow> deadlines \<Rightarrow> deadlines" where
  "dl_auth now_ms d =
    (if dl_authenticated d then d
     else d\<lparr>dl_authenticated := True, dl_last_seen_ms := now_ms, dl_probed_at_ms := None\<rparr>)"

definition dl_saw_message :: "u64 \<Rightarrow> deadlines \<Rightarrow> deadlines" where
  "dl_saw_message now_ms d = d\<lparr>dl_last_seen_ms := now_ms, dl_probed_at_ms := None\<rparr>"

definition dl_probed :: "u64 \<Rightarrow> deadlines \<Rightarrow> deadlines" where
  "dl_probed now_ms d = d\<lparr>dl_probed_at_ms := Some now_ms\<rparr>"

definition dl_probing :: "deadlines \<Rightarrow> bool" where
  "dl_probing d \<longleftrightarrow> dl_probed_at_ms d \<noteq> None"

definition remaining :: "u64 \<Rightarrow> nat \<Rightarrow> u64 \<Rightarrow> nat option" where
  "remaining since_ms window now_ms =
    (let left = window - unat (saturating_sub now_ms since_ms) in if left = 0 then None else Some left)"

definition dl_due :: "deadlines \<Rightarrow> u64 \<Rightarrow> dl_next" where
  "dl_due d now_ms =
    (if \<not> dl_authenticated d then
       case remaining (dl_opened_ms d) (dl_handshake d) now_ms of None \<Rightarrow> Expired HandshakeExpiry | Some left \<Rightarrow> Wait left
     else case dl_probed_at_ms d of
       Some probed_at \<Rightarrow>
         (case remaining probed_at (dl_probe d) now_ms of None \<Rightarrow> Expired IdleExpiry | Some left \<Rightarrow> Wait left)
     | None \<Rightarrow>
         (case remaining (dl_last_seen_ms d) (dl_idle d) now_ms of None \<Rightarrow> Probe (dl_probe d) | Some left \<Rightarrow> Wait left))"

subsection \<open>The loop\<close>

text \<open>What one turn of the loop meets: when it asked, when it recorded a probe, and how its wait ended. A message
  comes with the time it was seen and, when the session is authenticated after it, the time that was noted.\<close>

datatype arrival = Lapsed | Message u64 "u64 option" | Gone

type_synonym turn = "u64 \<times> u64 \<times> arrival"

definition dl_turn :: "u64 \<Rightarrow> u64 \<Rightarrow> deadlines \<Rightarrow> deadlines" where
  "dl_turn asked probed_at d = (case dl_due d asked of Probe _ \<Rightarrow> dl_probed probed_at d | _ \<Rightarrow> d)"

fun serve_deadlines :: "deadlines \<Rightarrow> turn list \<Rightarrow> expiry option \<times> deadlines" where
  "serve_deadlines d [] = (None, d)"
| "serve_deadlines d ((asked, probed_at, a) # turns) =
    (case dl_due d asked of
       Expired e \<Rightarrow> (Some e, d)
     | _ \<Rightarrow>
       let d = dl_turn asked probed_at d in
       case a of
         Lapsed \<Rightarrow> serve_deadlines d turns
       | Gone \<Rightarrow> (None, d)
       | Message seen auth \<Rightarrow>
           let d = dl_saw_message seen d;
               d = (case auth of Some t \<Rightarrow> dl_auth t d | None \<Rightarrow> d) in
           serve_deadlines d turns)"

subsection \<open>When a connection is closed, and when it is not\<close>

lemma remaining_None: "remaining since window now = None \<longleftrightarrow> window \<le> unat now - unat since"
  by (simp add: remaining_def Let_def unat_saturating_sub)

lemma remaining_Some: "remaining since window now = Some left \<longleftrightarrow> left = window - (unat now - unat since) \<and> 0 < left"
  by (auto simp: remaining_def Let_def unat_saturating_sub)

text \<open>A probe is only ever outstanding after a whole idle interval of silence.\<close>

definition dl_inv :: "deadlines \<Rightarrow> u64 \<Rightarrow> bool" where
  "dl_inv d now \<longleftrightarrow> dl_opened_ms d \<le> now \<and> dl_last_seen_ms d \<le> now \<and>
    (\<forall>p. dl_probed_at_ms d = Some p \<longrightarrow> p \<le> now \<and> dl_authenticated d \<and> unat (dl_last_seen_ms d) + dl_idle d \<le> unat p)"

text \<open>The clock reads of a run of turns do not go back, and a wait that lapsed lasted as long as it was asked to.\<close>

fun turns_ok :: "deadlines \<Rightarrow> u64 \<Rightarrow> turn list \<Rightarrow> bool" where
  "turns_ok d now [] = True"
| "turns_ok d now ((asked, probed_at, a) # turns) =
    (now \<le> asked \<and> asked \<le> probed_at \<and>
     (let d' = dl_turn asked probed_at d in
      case a of
        Lapsed \<Rightarrow>
          turns_ok d' probed_at turns \<and>
          (case turns of [] \<Rightarrow> True
           | (asked', _) # _ \<Rightarrow>
             (case dl_due d asked of Wait w \<Rightarrow> unat asked + w \<le> unat asked' | Probe w \<Rightarrow> unat probed_at + w \<le> unat asked' | _ \<Rightarrow> True))
      | Gone \<Rightarrow> True
      | Message seen auth \<Rightarrow>
          probed_at \<le> seen \<and>
          (case auth of
             None \<Rightarrow> turns_ok (dl_saw_message seen d') seen turns
           | Some t \<Rightarrow> seen \<le> t \<and> turns_ok (dl_auth t (dl_saw_message seen d')) t turns)))"

lemma dl_inv_turn:
  assumes "dl_inv d now" "now \<le> asked" "asked \<le> probed_at"
  shows "dl_inv (dl_turn asked probed_at d) probed_at"
proof (cases "dl_due d asked")
  case (Probe w)
  then have "dl_authenticated d" "dl_idle d \<le> unat asked - unat (dl_last_seen_ms d)"
    by (auto simp: dl_due_def remaining_None split: if_splits option.splits)
  moreover have "unat (dl_last_seen_ms d) \<le> unat asked" "unat asked \<le> unat probed_at"
    using assms by (auto simp: dl_inv_def word_le_nat_alt)
  ultimately show ?thesis
    using assms Probe by (auto simp: dl_inv_def dl_turn_def dl_probed_def)
qed (use assms in \<open>auto simp: dl_inv_def dl_turn_def\<close>)

lemma dl_inv_message:
  assumes "dl_inv d now" "now \<le> seen"
  shows "dl_inv (dl_saw_message seen d) seen"
    and "seen \<le> t \<Longrightarrow> dl_inv (dl_auth t (dl_saw_message seen d)) t"
  using assms by (auto simp: dl_inv_def dl_saw_message_def dl_auth_def)

lemma dl_kept [simp]:
  "dl_idle (dl_turn a b d) = dl_idle d" "dl_probe (dl_turn a b d) = dl_probe d" "dl_handshake (dl_turn a b d) = dl_handshake d"
  "dl_opened_ms (dl_turn a b d) = dl_opened_ms d" "dl_authenticated (dl_turn a b d) = dl_authenticated d"
  "dl_idle (dl_saw_message t d) = dl_idle d" "dl_probe (dl_saw_message t d) = dl_probe d"
  "dl_handshake (dl_saw_message t d) = dl_handshake d" "dl_opened_ms (dl_saw_message t d) = dl_opened_ms d"
  "dl_idle (dl_auth t d) = dl_idle d" "dl_probe (dl_auth t d) = dl_probe d"
  "dl_handshake (dl_auth t d) = dl_handshake d" "dl_opened_ms (dl_auth t d) = dl_opened_ms d"
  by (auto simp: dl_turn_def dl_probed_def dl_saw_message_def dl_auth_def split: dl_next.splits)

lemma due_expired:
  assumes "dl_due d now = Expired e" "dl_inv d now"
  shows "e = HandshakeExpiry \<and> \<not> dl_authenticated d \<and> unat (dl_opened_ms d) + dl_handshake d \<le> unat now \<or>
    e = IdleExpiry \<and> dl_authenticated d \<and> unat (dl_last_seen_ms d) + dl_idle d + dl_probe d \<le> unat now"
  using assms
  by (auto simp: dl_due_def remaining_None dl_inv_def word_le_nat_alt split: if_splits option.splits)

text \<open>The state after a turn that goes on, and the last time it read.\<close>

definition dl_after :: "arrival \<Rightarrow> deadlines \<Rightarrow> deadlines" where
  "dl_after a d =
    (case a of Message seen auth \<Rightarrow> (case auth of Some t \<Rightarrow> dl_auth t | None \<Rightarrow> id) (dl_saw_message seen d) | _ \<Rightarrow> d)"

definition dl_clock :: "arrival \<Rightarrow> u64 \<Rightarrow> u64" where
  "dl_clock a t = (case a of Message seen auth \<Rightarrow> (case auth of Some t' \<Rightarrow> t' | None \<Rightarrow> seen) | _ \<Rightarrow> t)"

lemma serve_turn:
  assumes "\<nexists>e. dl_due d asked = Expired e" "a \<noteq> Gone"
  shows "serve_deadlines d ((asked, probed_at, a) # turns) = serve_deadlines (dl_after a (dl_turn asked probed_at d)) turns"
  using assms by (auto simp: dl_after_def Let_def split: dl_next.splits arrival.splits option.splits)

lemma turn_ok:
  assumes "turns_ok d now ((asked, probed_at, a) # turns)" "dl_inv d now" "a \<noteq> Gone"
  shows "turns_ok (dl_after a (dl_turn asked probed_at d)) (dl_clock a probed_at) turns"
    and "dl_inv (dl_after a (dl_turn asked probed_at d)) (dl_clock a probed_at)"
proof -
  have "dl_inv (dl_turn asked probed_at d) probed_at"
    using assms dl_inv_turn by auto
  then show "turns_ok (dl_after a (dl_turn asked probed_at d)) (dl_clock a probed_at) turns"
    "dl_inv (dl_after a (dl_turn asked probed_at d)) (dl_clock a probed_at)"
    using assms dl_inv_message
    by (auto simp: dl_after_def dl_clock_def Let_def split: arrival.splits option.splits)
qed

lemma dl_after_kept [simp]:
  "dl_idle (dl_after a d) = dl_idle d" "dl_probe (dl_after a d) = dl_probe d"
  "dl_handshake (dl_after a d) = dl_handshake d" "dl_opened_ms (dl_after a d) = dl_opened_ms d"
  by (auto simp: dl_after_def split: arrival.splits option.splits)

lemma serve_expired:
  "dl_inv d now \<Longrightarrow> turns_ok d now turns \<Longrightarrow> serve_deadlines d turns = (Some e, d') \<Longrightarrow>
    \<exists>t. t \<in> fst ` set turns \<and> dl_due d' t = Expired e \<and> dl_inv d' t \<and>
      dl_idle d' = dl_idle d \<and> dl_probe d' = dl_probe d \<and> dl_handshake d' = dl_handshake d \<and> dl_opened_ms d' = dl_opened_ms d"
proof (induction turns arbitrary: d now)
  case (Cons turn turns)
  obtain asked probed_at a where turn: "turn = (asked, probed_at, a)" by (cases turn)
  have inv: "dl_inv d asked"
    using Cons.prems(1,2) by (auto simp: turn dl_inv_def)
  show ?case
  proof (cases "\<exists>e. dl_due d asked = Expired e")
    case True
    then show ?thesis using Cons.prems(3) inv by (auto simp: turn)
  next
    case False
    then have "a \<noteq> Gone"
      using Cons.prems(3) by (auto simp: turn Let_def split: dl_next.splits)
    then have "serve_deadlines (dl_after a (dl_turn asked probed_at d)) turns = (Some e, d')"
      using Cons.prems(3) serve_turn [OF False] by (simp add: turn)
    from Cons.IH [OF turn_ok(2,1) [OF Cons.prems(2) [unfolded turn] Cons.prems(1) \<open>a \<noteq> Gone\<close>] this]
    show ?thesis by (auto simp: turn)
  qed
qed simp

text \<open>C23. A connection is closed by a deadline only when it earned it: the handshake deadline closes a peer that
  has not authenticated and only after the whole interval, and the idle deadline closes an authenticated peer
  only after an idle interval without a message and a probe window without an answer.\<close>

theorem deadline_expiry_justified:
  assumes "turns_ok (dl_new handshake idle opened) opened turns" "serve_deadlines (dl_new handshake idle opened) turns = (Some e, d)"
  shows "\<exists>t\<in>fst ` set turns.
    e = HandshakeExpiry \<and> \<not> dl_authenticated d \<and> unat opened + unat handshake \<le> unat t \<or>
    e = IdleExpiry \<and> dl_authenticated d \<and>
      unat (dl_last_seen_ms d) + unat idle + min LIVENESS_PROBE_WINDOW (unat idle) \<le> unat t"
proof -
  have "dl_inv (dl_new handshake idle opened) opened"
    by (simp add: dl_inv_def dl_new_def dl_from_parts_def)
  from serve_expired [OF this assms] obtain t where t: "t \<in> fst ` set turns" "dl_due d t = Expired e" "dl_inv d t"
    and d: "dl_idle d = unat idle" "dl_probe d = min LIVENESS_PROBE_WINDOW (unat idle)" "dl_handshake d = unat handshake"
      "dl_opened_ms d = opened"
    by (auto simp: dl_new_def dl_from_parts_def)
  show ?thesis
    by (rule bexI [OF _ t(1)]) (use due_expired [OF t(2,3)] in \<open>simp add: d\<close>)
qed

lemma due_after_wait:
  assumes "dl_due d t = Wait w" "dl_inv d t" "unat t + w \<le> unat t'"
  shows "(\<exists>e. dl_due d t' = Expired e) \<or> dl_due d t' = Probe (dl_probe d)"
  using assms
  by (auto simp: dl_due_def remaining_None remaining_Some dl_inv_def word_le_nat_alt split: if_splits option.splits)

lemma due_after_probe:
  assumes "dl_due d t = Probe w" "unat p + w \<le> unat t'"
  shows "dl_due (dl_turn t p d) t' = Expired IdleExpiry"
  using assms
  by (auto simp: dl_due_def dl_turn_def dl_probed_def remaining_None split: if_splits option.splits)

text \<open>C24. A peer that says nothing is let go: when every wait lapses, the loop closes the connection by its third
  turn, whatever the connection did before.\<close>

theorem silent_peer_closed:
  assumes inv: "dl_inv d now" and ok: "turns_ok d now [(t1, p1, Lapsed), (t2, p2, Lapsed), (t3, p3, Lapsed)]"
  shows "\<exists>e. fst (serve_deadlines d [(t1, p1, Lapsed), (t2, p2, Lapsed), (t3, p3, Lapsed)]) = Some e"
proof -
  have inv1: "dl_inv d t1"
    using inv ok by (auto simp: dl_inv_def)
  have probed: "\<exists>e. fst (serve_deadlines d' ((t, p, Lapsed) # (t', p', Lapsed) # turns)) = Some e"
    if "dl_due d' t = Probe w" "unat p + w \<le> unat t'" for d' t p t' p' w turns
    using due_after_probe [OF that] that(1) by simp
  show ?thesis
  proof (cases "dl_due d t1")
    case (Wait w)
    then have same: "dl_turn t1 p1 d = d" and later: "unat t1 + w \<le> unat t2"
      using ok by (auto simp: dl_turn_def Let_def)
    from due_after_wait [OF Wait inv1 later] show ?thesis
    proof
      assume "dl_due d t2 = Probe (dl_probe d)"
      moreover from this have "unat p2 + dl_probe d \<le> unat t3"
        using ok by (auto simp: same Let_def)
      ultimately show ?thesis
        using probed [of d t2 "dl_probe d" p2 t3 p3 "[]"] Wait by (simp add: same)
    qed (use Wait same in auto)
  next
    case (Probe w)
    then show ?thesis
      using ok by (intro probed) (auto simp: Let_def)
  qed simp
qed

theorem deadline_expiry_justified_witness:
  "serve_deadlines (dl_new 10000 20000 0) [(0, 0, Message 500 (Some 500)), (500, 500, Lapsed), (20500, 20501, Lapsed), (30501, 30501, Lapsed)] =
    (Some IdleExpiry, (dl_new 10000 20000 0)\<lparr>dl_authenticated := True, dl_last_seen_ms := 500, dl_probed_at_ms := Some 20501\<rparr>) \<and>
   (\<exists>t\<in>fst ` set [(0, 0, Message 500 (Some 500)), (500, 500, Lapsed), (20500, 20501, Lapsed), (30501, 30501, Lapsed)].
     IdleExpiry = IdleExpiry \<and> unat (500 :: u64) + unat (20000 :: u64) + min LIVENESS_PROBE_WINDOW (unat (20000 :: u64)) \<le> unat (t :: u64))"
proof -
  let ?turns = "[(0, 0, Message 500 (Some 500)), (500, 500, Lapsed), (20500, 20501, Lapsed), (30501, 30501, Lapsed)]"
  let ?d = "(dl_new 10000 20000 0)\<lparr>dl_authenticated := True, dl_last_seen_ms := 500, dl_probed_at_ms := Some 20501\<rparr>"
  note defs = dl_new_def dl_from_parts_def LIVENESS_PROBE_WINDOW_def dl_due_def remaining_def Let_def saturating_sub_def dl_turn_def
    dl_probed_def dl_saw_message_def dl_auth_def
  have run: "serve_deadlines (dl_new 10000 20000 0) ?turns = (Some IdleExpiry, ?d)"
    by (simp add: defs)
  have ok: "turns_ok (dl_new 10000 20000 0) 0 ?turns"
    by (simp add: defs)
  show ?thesis
    using deadline_expiry_justified [OF ok run] run by (simp add: dl_new_def dl_from_parts_def)
qed

theorem silent_peer_closed_witness:
  "\<exists>e. fst (serve_deadlines (dl_new 10000 20000 0) [(0, 0, Lapsed), (10000, 10000, Lapsed), (10000, 10000, Lapsed)]) = Some e"
  by (rule silent_peer_closed [of _ 0])
    (simp_all add: dl_inv_def dl_new_def dl_from_parts_def dl_due_def remaining_def Let_def saturating_sub_def dl_turn_def)

end
