(* ===== verification/Hub.thy ===== *)
theory Hub
  imports Outbound "HOL-Library.Mapping" "HOL-Library.AList_Mapping"
begin

text \<open>
  The subscriber registry, \<open>src/backend/wealdrelay/src/hub.rs\<close>. A sender is a handle to a channel that the
  connection's writer, its session and every subscription share: handles are addresses of a store of
  channels, and every operation takes the store and returns it. A \<open>HashMap\<close> is a mapping; where the code walks
  one and the order could show, the order is an argument. Each operation is one step, and the writer drains
  channels between steps: the loops over subscribers run under the registry's lock, and \<open>evict\<close>,
  \<open>fanout_frame\<close> and \<open>release_handshakes\<close> let go of it before they disconnect the connections they ended, so the
  model leaves out what others may do between that loop and its disconnects.
\<close>

subsection \<open>The registry\<close>

definition MIN_FANOUT_VERSION :: u16 where "MIN_FANOUT_VERSION = MIN_PROTOCOL_VERSION"
definition MAX_HELD_HANDSHAKES :: nat where "MAX_HELD_HANDSHAKES = 256"

type_synonym connection_id = u64
type_synonym handle = nat
type_synonym channels = "handle \<Rightarrow> outbound"

datatype delivery = DSent | NotSpoken | Shed | Downgraded | DGone

record subscriber =
  sub_id :: connection_id
  sub_sender :: handle
  sub_version :: u16
  sub_owed :: bool
  sub_held :: "frame list option"

record hub =
  hub_groups :: "(bytes, subscriber list) mapping"
  hub_next_id :: u64
  hub_downgrades :: u64
  hub_shed :: u64
  hub_principals :: "(bytes, (connection_id \<times> handle) list) mapping"

definition hub_new :: hub where
  "hub_new = \<lparr>hub_groups = Mapping.empty, hub_next_id = 0, hub_downgrades = 0, hub_shed = 0, hub_principals = Mapping.empty\<rparr>"

definition hub_connect :: "hub \<Rightarrow> connection_id \<times> hub" where
  "hub_connect h = (hub_next_id h, h\<lparr>hub_next_id := hub_next_id h + 1\<rparr>)"

text \<open>\<open>entry(...).or_default()\<close> and \<open>get\<close>.\<close>

definition subs :: "bytes \<Rightarrow> hub \<Rightarrow> subscriber list" where
  "subs grp h = (case Mapping.lookup (hub_groups h) grp of None \<Rightarrow> [] | Some xs \<Rightarrow> xs)"

definition conns :: "bytes \<Rightarrow> hub \<Rightarrow> (connection_id \<times> handle) list" where
  "conns entry_hash h = (case Mapping.lookup (hub_principals h) entry_hash of None \<Rightarrow> [] | Some xs \<Rightarrow> xs)"

definition set_subs :: "bytes \<Rightarrow> subscriber list \<Rightarrow> hub \<Rightarrow> hub" where
  "set_subs grp xs h = h\<lparr>hub_groups := Mapping.update grp xs (hub_groups h)\<rparr>"

definition subscribe_with :: "frame list option \<Rightarrow> bytes \<Rightarrow> connection_id \<Rightarrow> handle \<Rightarrow> u16 \<Rightarrow> hub \<Rightarrow> hub" where
  "subscribe_with held grp cid sender version h =
    (let xs = subs grp h in
     if list_ex (\<lambda>s. sub_id s = cid) xs then set_subs grp xs h
     else set_subs grp (xs @ [\<lparr>sub_id = cid, sub_sender = sender, sub_version = version, sub_owed = False, sub_held = held\<rparr>]) h)"

definition hub_subscribe :: "bytes \<Rightarrow> connection_id \<Rightarrow> handle \<Rightarrow> u16 \<Rightarrow> hub \<Rightarrow> hub" where
  "hub_subscribe = subscribe_with None"

definition subscribe_holding_handshakes :: "bytes \<Rightarrow> connection_id \<Rightarrow> handle \<Rightarrow> u16 \<Rightarrow> hub \<Rightarrow> hub" where
  "subscribe_holding_handshakes = subscribe_with (Some [])"

definition hub_holds :: "bytes \<Rightarrow> connection_id \<Rightarrow> hub \<Rightarrow> bool" where
  "hub_holds grp cid h \<longleftrightarrow> list_ex (\<lambda>s. sub_id s = cid) (subs grp h)"

definition hub_identify :: "bytes \<Rightarrow> connection_id \<Rightarrow> handle \<Rightarrow> hub \<Rightarrow> hub" where
  "hub_identify entry_hash cid sender h =
    (let xs = conns entry_hash h in
     h\<lparr>hub_principals := Mapping.update entry_hash
       (if list_ex (\<lambda>(existing, _). existing = cid) xs then xs else xs @ [(cid, sender)]) (hub_principals h)\<rparr>)"

definition hub_disconnect :: "connection_id \<Rightarrow> hub \<Rightarrow> hub" where
  "hub_disconnect cid h =
    h\<lparr>hub_groups := Mapping.filter (\<lambda>_ xs. xs \<noteq> [])
        (Mapping.map_values (\<lambda>_. filter (\<lambda>s. sub_id s \<noteq> cid)) (hub_groups h)),
      hub_principals := Mapping.filter (\<lambda>_ xs. xs \<noteq> [])
        (Mapping.map_values (\<lambda>_. filter (\<lambda>(existing, _). existing \<noteq> cid)) (hub_principals h))\<rparr>"

fun evict_all :: "(connection_id \<times> handle) list \<Rightarrow> channels \<Rightarrow> hub \<Rightarrow> channels \<times> hub" where
  "evict_all [] ch h = (ch, h)"
| "evict_all ((cid, sender) # taken) ch h =
    (let q = ob_evict (ch sender) in evict_all taken (ch(sender := snd (ob_close q))) (hub_disconnect cid h))"

definition hub_evict :: "bytes \<Rightarrow> channels \<Rightarrow> hub \<Rightarrow> nat \<times> channels \<times> hub" where
  "hub_evict entry_hash ch h =
    (let taken = conns entry_hash h in
     (length taken, evict_all taken ch (h\<lparr>hub_principals := Mapping.delete entry_hash (hub_principals h)\<rparr>)))"

definition connections_for :: "bytes \<Rightarrow> hub \<Rightarrow> nat" where
  "connections_for entry_hash h = length (conns entry_hash h)"

definition hub_subscribers :: "bytes \<Rightarrow> hub \<Rightarrow> nat" where
  "hub_subscribers grp h = length (subs grp h)"

subsection \<open>Handshakes held back during a replay\<close>

text \<open>The loop of \<open>release_handshakes\<close>; the first component is whether the connection was evicted.\<close>

fun release_loop :: "u64 \<Rightarrow> frame list \<Rightarrow> outbound \<Rightarrow> bool \<times> outbound" where
  "release_loop nxt [] q = (False, q)"
| "release_loop nxt (f # held) q =
    (case f of
       FHandshake _ seq _ \<Rightarrow>
         if seq < nxt then release_loop nxt held q
         else (case try_queue q f of
           (Sent, q') \<Rightarrow> release_loop (saturating_add seq 1) held q'
         | (_, q') \<Rightarrow> (True, ob_evict q'))
     | _ \<Rightarrow> release_loop nxt held q)"

fun clear_held :: "connection_id \<Rightarrow> subscriber list \<Rightarrow> subscriber list" where
  "clear_held cid [] = []"
| "clear_held cid (s # xs) = (if sub_id s = cid then s\<lparr>sub_held := None\<rparr> # xs else s # clear_held cid xs)"

definition release_handshakes :: "bytes \<Rightarrow> connection_id \<Rightarrow> u64 \<Rightarrow> channels \<Rightarrow> hub \<Rightarrow> channels \<times> hub" where
  "release_handshakes grp cid replayed_to ch h =
    (case find (\<lambda>s. sub_id s = cid) (subs grp h) of
       None \<Rightarrow> (ch, h)
     | Some s \<Rightarrow>
       (case sub_held s of
          None \<Rightarrow> (ch, h)
        | Some held \<Rightarrow>
          let (evicted, q) = release_loop replayed_to held (ch (sub_sender s));
              ch = ch(sub_sender s := q);
              h = set_subs grp (clear_held cid (subs grp h)) h in
          (ch, if evicted then hub_disconnect cid h else h)))"

subsection \<open>Fan-out\<close>

definition is_ephemeral :: "frame \<Rightarrow> bool" where
  "is_ephemeral f = (case f of FLive _ _ _ \<Rightarrow> True | FCall _ _ _ _ _ \<Rightarrow> True | _ \<Rightarrow> False)"

definition undowngradable :: "frame \<Rightarrow> bool" where
  "undowngradable f = (case f of FHandshake _ _ _ \<Rightarrow> True | _ \<Rightarrow> False)"

text \<open>What the loop does to one subscriber, over its channel: the frame itself, once nothing is owed. The last component
  is whether this was a new downgrade.\<close>

definition fan_frame :: "frame \<Rightarrow> outbound \<Rightarrow> subscriber \<Rightarrow> delivery \<times> outbound \<times> subscriber \<times> bool" where
  "fan_frame f q s =
    (case try_queue q f of
       (Sent, q) \<Rightarrow> (DSent, q, s, False)
     | (Full, q) \<Rightarrow>
       if is_ephemeral f then (Shed, q, s, False)
       else if undowngradable f then (DGone, ob_evict q, s, False)
       else (Downgraded, q, s\<lparr>sub_owed := True\<rparr>, True)
     | (Closed, q) \<Rightarrow> (DGone, q, s, False))"

definition fan_one :: "bytes \<Rightarrow> frame \<Rightarrow> u16 \<Rightarrow> outbound \<Rightarrow> subscriber \<Rightarrow> delivery \<times> outbound \<times> subscriber \<times> bool" where
  "fan_one grp f minimum_version q s =
    (if sub_version s < minimum_version then (NotSpoken, q, s, False)
     else case (undowngradable f, sub_held s) of
       (True, Some held) \<Rightarrow>
         if length held < MAX_HELD_HANDSHAKES then (DSent, q, s\<lparr>sub_held := Some (held @ [f])\<rparr>, False)
         else (DGone, ob_evict q, s, False)
     | _ \<Rightarrow>
       if sub_owed s then
         (case try_queue q (downgrade_frame grp) of
            (Sent, q) \<Rightarrow> fan_frame f q (s\<lparr>sub_owed := False\<rparr>)
          | (Full, q) \<Rightarrow> if undowngradable f then (DGone, ob_evict q, s, False) else (Downgraded, q, s, False)
          | (Closed, q) \<Rightarrow> (DGone, q, s, False))
       else fan_frame f q s)"

text \<open>The loop over a group's subscribers: the outcomes, the channels, the subscribers and the two counters.\<close>

fun fan_loop :: "bytes \<Rightarrow> frame \<Rightarrow> connection_id \<Rightarrow> u16 \<Rightarrow> channels \<Rightarrow> subscriber list \<Rightarrow>
    (connection_id \<times> delivery) list \<times> channels \<times> subscriber list \<times> u64 \<times> u64" where
  "fan_loop grp f except minimum_version ch [] = ([], ch, [], 0, 0)"
| "fan_loop grp f except minimum_version ch (s # xs) =
    (if sub_id s = except then
       let (out, ch', xs', dg, sh) = fan_loop grp f except minimum_version ch xs in (out, ch', s # xs', dg, sh)
     else
       let (d, q, s', counted) = fan_one grp f minimum_version (ch (sub_sender s)) s;
           (out, ch', xs', dg, sh) = fan_loop grp f except minimum_version (ch(sub_sender s := q)) xs in
       ((sub_id s, d) # out, ch', s' # xs', dg + of_bool counted, sh + of_bool (d = Shed)))"

definition fanout_frame :: "bytes \<Rightarrow> frame \<Rightarrow> connection_id \<Rightarrow> u16 \<Rightarrow> channels \<Rightarrow> hub \<Rightarrow>
    (connection_id \<times> delivery) list \<times> channels \<times> hub" where
  "fanout_frame grp f except minimum_version ch h =
    (case Mapping.lookup (hub_groups h) grp of
       None \<Rightarrow> ([], ch, h)
     | Some xs \<Rightarrow>
       let (out, ch, xs, dg, sh) = fan_loop grp f except minimum_version ch xs;
           h = (set_subs grp xs h)\<lparr>hub_downgrades := hub_downgrades h + dg, hub_shed := hub_shed h + sh\<rparr> in
       (out, ch, fold hub_disconnect (map fst (filter (\<lambda>(_, d). d = DGone) out)) h))"

definition fanout :: "bytes \<Rightarrow> bytes \<Rightarrow> connection_id \<Rightarrow> channels \<Rightarrow> hub \<Rightarrow> (connection_id \<times> delivery) list \<times> channels \<times> hub" where
  "fanout grp envelope except = fanout_frame grp (FPush envelope) except MIN_FANOUT_VERSION"

text \<open>One subscriber of \<open>settle_downgrades\<close>; the last component is whether the notice went out. The walk over the groups
  is in the map's order, \<open>order\<close>.\<close>

definition settle_one :: "bytes \<Rightarrow> outbound \<Rightarrow> subscriber \<Rightarrow> outbound \<times> subscriber \<times> bool" where
  "settle_one grp q s =
    (if \<not> sub_owed s then (q, s, False)
     else case try_queue q (downgrade_frame grp) of
       (Sent, q) \<Rightarrow> (q, s\<lparr>sub_owed := False\<rparr>, True)
     | (_, q) \<Rightarrow> (q, s, False))"

fun settle_subs :: "bytes \<Rightarrow> channels \<Rightarrow> subscriber list \<Rightarrow> nat \<times> channels \<times> subscriber list" where
  "settle_subs grp ch [] = (0, ch, [])"
| "settle_subs grp ch (s # xs) =
    (let (q, s', paid) = settle_one grp (ch (sub_sender s)) s;
         (n, ch', xs') = settle_subs grp (ch(sub_sender s := q)) xs in
     (n + of_bool paid, ch', s' # xs'))"

fun settle_downgrades :: "bytes list \<Rightarrow> channels \<Rightarrow> hub \<Rightarrow> nat \<times> channels \<times> hub" where
  "settle_downgrades [] ch h = (0, ch, h)"
| "settle_downgrades (grp # order) ch h =
    (let (n, ch, xs) = settle_subs grp ch (subs grp h);
         (m, ch, h) = settle_downgrades order ch (set_subs grp xs h) in
     (n + m, ch, h))"

definition downgrades_owed :: "hub \<Rightarrow> nat" where
  "downgrades_owed h = (\<Sum>grp\<in>Mapping.keys (hub_groups h). length (filter sub_owed (subs grp h)))"

subsection \<open>One subscription's life\<close>

text \<open>What happens to a subscription of a group between its start and its end: a frame is fanned out, the debts are settled,
  the handshakes held back during the replay are released, or its channel changes under it, because the writer
  drains it or others queue on it.\<close>

datatype sub_event = Fanned frame u16 | Settled | Release u64 | Channel "outbound \<Rightarrow> outbound"

text \<open>What became of a frame: the outcome of the fan-out, or that it was held back, or that it was queued at the release.\<close>

datatype fate = At delivery | Held | Let

definition newly_queued :: "outbound \<Rightarrow> outbound \<Rightarrow> frame list" where
  "newly_queued q q' = frames_of (drop (length (ob_queue q)) (ob_queue q'))"

text \<open>The frames fanned out with what became of each, the frames the hub queued for the group, in order, the subscriber at
  the end, and whether the hub ended the subscription.\<close>

fun sub_life :: "bytes \<Rightarrow> sub_event list \<Rightarrow> outbound \<Rightarrow> subscriber \<Rightarrow> (frame \<times> fate) list \<times> frame list \<times> subscriber \<times> bool" where
  "sub_life grp [] q s = ([], [], s, False)"
| "sub_life grp (Fanned f v # es) q s =
    (let (d, q', s', _) = fan_one grp f v q s;
         fate = if sub_held s' = sub_held s then At d else Held in
     if d = DGone then ([(f, fate)], newly_queued q q', s', True)
     else let (log, qs, s'', ended) = sub_life grp es q' s' in ((f, fate) # log, newly_queued q q' @ qs, s'', ended))"
| "sub_life grp (Settled # es) q s =
    (let (q', s', _) = settle_one grp q s;
         (log, qs, s'', ended) = sub_life grp es q' s' in (log, newly_queued q q' @ qs, s'', ended))"
| "sub_life grp (Release replayed_to # es) q s =
    (case sub_held s of
       None \<Rightarrow> sub_life grp es q s
     | Some held \<Rightarrow>
       let (evicted, q') = release_loop replayed_to held q;
           fs = newly_queued q q'; s' = s\<lparr>sub_held := None\<rparr> in
       if evicted then (map (\<lambda>f. (f, Let)) fs, fs, s', True)
       else let (log, qs, s'', ended) = sub_life grp es q' s' in (map (\<lambda>f. (f, Let)) fs @ log, fs @ qs, s'', ended))"
| "sub_life grp (Channel g # es) q s = sub_life grp es (g q) s"

text \<open>The contract of a live stream, as an automaton: a subscriber that was not given a frame is owed a notice, and is
  given nothing before it but the handshakes of the release.\<close>

inductive live_stream :: "bytes \<Rightarrow> (frame \<times> fate) list \<Rightarrow> frame list \<Rightarrow> bool \<Rightarrow> bool" for grp where
  start: "live_stream grp [] [] False"
| sent: "live_stream grp log qs False \<Longrightarrow> live_stream grp (log @ [(f, At DSent)]) (qs @ [f]) False"
| not_spoken: "live_stream grp log qs owed \<Longrightarrow> live_stream grp (log @ [(f, At NotSpoken)]) qs owed"
| shed: "live_stream grp log qs False \<Longrightarrow> is_ephemeral f \<Longrightarrow> live_stream grp (log @ [(f, At Shed)]) qs False"
| missed: "live_stream grp log qs owed \<Longrightarrow> \<not> undowngradable f \<Longrightarrow> owed \<or> \<not> is_ephemeral f \<Longrightarrow>
    live_stream grp (log @ [(f, At Downgraded)]) qs True"
| told: "live_stream grp log qs True \<Longrightarrow> live_stream grp log (qs @ [downgrade_frame grp]) False"
| held: "live_stream grp log qs owed \<Longrightarrow> undowngradable f \<Longrightarrow> live_stream grp (log @ [(f, Held)]) qs owed"
| let_go: "live_stream grp log qs owed \<Longrightarrow> undowngradable f \<Longrightarrow> live_stream grp (log @ [(f, Let)]) (qs @ [f]) owed"
| gone: "live_stream grp log qs owed \<Longrightarrow> live_stream grp (log @ [(f, At DGone)]) qs owed"

lemma try_queue_newly:
  "try_queue q f = (r, q') \<Longrightarrow> newly_queued q q' = (if r = Sent then [f] else [])"
  by (auto simp: try_queue_def try_send_def newly_queued_def Let_def split: if_splits)

lemma newly_queued_trans:
  assumes "try_queue q f = (Sent, q1)" "try_queue q1 g = (r, q2)"
  shows "newly_queued q q2 = f # (if r = Sent then [g] else [])"
  using assms by (auto simp: try_queue_def try_send_def newly_queued_def Let_def split: if_splits)

lemma newly_queued_evict [simp]: "newly_queued q (ob_evict q') = newly_queued q q'"
  by (simp add: newly_queued_def ob_evict_def)

lemma fan_frame_stream:
  assumes "live_stream grp log qs False" "fan_frame f q s = (d, q', s', c)" "\<not> sub_owed s"
  shows "live_stream grp (log @ [(f, At d)]) (qs @ newly_queued q q') (sub_owed s')" "sub_held s' = sub_held s"
proof -
  obtain r q1 where r: "try_queue q f = (r, q1)" by (cases "try_queue q f")
  have "newly_queued q q' = (if r = Sent then [f] else [])"
    using try_queue_newly [OF r] assms(2) r by (auto simp: fan_frame_def split: queued.splits if_splits)
  then show "live_stream grp (log @ [(f, At d)]) (qs @ newly_queued q q') (sub_owed s')"
    using assms r by (cases r) (auto simp: fan_frame_def intro: live_stream.intros split: if_splits)
  show "sub_held s' = sub_held s"
    using assms(2) r by (auto simp: fan_frame_def split: queued.splits if_splits)
qed

lemma fan_frame_newly:
  assumes "try_queue q0 g = (Sent, q)" "fan_frame f q s = (d, q', s', c)"
  shows "newly_queued q0 q' = g # newly_queued q q'"
proof -
  obtain r q1 where r: "try_queue q f = (r, q1)" by (cases "try_queue q f")
  show ?thesis
    using newly_queued_trans [OF assms(1) r] try_queue_newly [OF r] assms(2) r
    by (auto simp: fan_frame_def split: queued.splits if_splits)
qed

lemma newly_queued_same [simp]: "newly_queued q q = []"
  by (simp add: newly_queued_def)

text \<open>A handshake while the hold lasts, and everything else.\<close>

lemma fan_one_holding:
  "undowngradable f \<Longrightarrow> sub_held s = Some held \<Longrightarrow> fan_one grp f v q s =
    (if sub_version s < v then (NotSpoken, q, s, False)
     else if length held < MAX_HELD_HANDSHAKES then (DSent, q, s\<lparr>sub_held := Some (held @ [f])\<rparr>, False)
     else (DGone, ob_evict q, s, False))"
  by (simp add: fan_one_def)

lemma fan_one_released:
  "undowngradable f \<longrightarrow> sub_held s = None \<Longrightarrow> fan_one grp f v q s =
    (if sub_version s < v then (NotSpoken, q, s, False)
     else if sub_owed s then
       (case try_queue q (downgrade_frame grp) of
          (Sent, q) \<Rightarrow> fan_frame f q (s\<lparr>sub_owed := False\<rparr>)
        | (Full, q) \<Rightarrow> if undowngradable f then (DGone, ob_evict q, s, False) else (Downgraded, q, s, False)
        | (Closed, q) \<Rightarrow> (DGone, q, s, False))
     else fan_frame f q s)"
  by (auto simp: fan_one_def split: bool.splits option.splits)

lemma fan_one_stream:
  assumes st: "live_stream grp log qs (sub_owed s)" and fan: "fan_one grp f v q s = (d, q', s', c)"
    and live: "undowngradable f \<longrightarrow> sub_held s = None"
  shows "live_stream grp (log @ [(f, At d)]) (qs @ newly_queued q q') (sub_owed s') \<and> sub_held s' = sub_held s"
proof (cases "sub_version s < v \<or> \<not> sub_owed s")
  case True
  then show ?thesis
    using st fan live fan_frame_stream [of grp log qs f q s d q' s' c]
    by (auto simp: fan_one_released intro: live_stream.not_spoken split: if_splits)
next
  case owed: False
  obtain r q1 where r: "try_queue q (downgrade_frame grp) = (r, q1)" by (cases "try_queue q (downgrade_frame grp)")
  show ?thesis
  proof (cases r)
    case Sent
    then have f: "fan_frame f q1 (s\<lparr>sub_owed := False\<rparr>) = (d, q', s', c)"
      using fan live owed r by (simp add: fan_one_released)
    have "live_stream grp log (qs @ [downgrade_frame grp]) False"
      using st owed by (auto intro: live_stream.told)
    from fan_frame_stream [OF this f] show ?thesis
      using fan_frame_newly [OF r [unfolded Sent] f] by simp
  next
    case Full
    then show ?thesis
      using fan live owed r st try_queue_newly [OF r]
      by (auto simp: fan_one_released intro: live_stream.intros split: if_splits)
  next
    case Closed
    then show ?thesis
      using fan live owed r st try_queue_newly [OF r]
      by (auto simp: fan_one_released intro: live_stream.intros split: if_splits)
  qed
qed

text \<open>One fan-out in the life of a subscription, held back or not.\<close>

lemma fanned_stream:
  assumes st: "live_stream grp log qs (sub_owed s)" and fan: "fan_one grp f v q s = (d, q', s', c)"
  shows "live_stream grp (log @ [(f, if sub_held s' = sub_held s then At d else Held)]) (qs @ newly_queued q q') (sub_owed s')"
proof (cases "undowngradable f \<and> sub_held s \<noteq> None")
  case True
  then obtain held where "undowngradable f" "sub_held s = Some held" by auto
  then show ?thesis
    using fan st by (auto simp: fan_one_holding intro: live_stream.intros split: if_splits)
next
  case False
  then show ?thesis
    using fan_one_stream [OF st fan] by auto
qed

lemma fanned_held:
  assumes "fan_one grp f v q s = (d, q', s', c)"
  shows "sub_held s' = sub_held s \<or> undowngradable f \<and> (\<exists>held. sub_held s = Some held \<and> sub_held s' = Some (held @ [f]))"
  using assms by (auto simp: fan_one_def fan_frame_def split: if_splits prod.splits queued.splits option.splits bool.splits)

text \<open>The release: what it queues, and what it passes over.\<close>

lemma newly_queued_cons:
  assumes "try_queue q f = (Sent, q1)" "ob_queue q' = ob_queue q1 @ xs"
  shows "newly_queued q q' = f # newly_queued q1 q'"
  using assms by (auto simp: try_queue_def try_send_def newly_queued_def Let_def split: if_splits)

lemma release_loop_Cons:
  assumes "release_loop nxt (f # held) q = (ev, q')"
  obtains (passed) "release_loop nxt held q = (ev, q')" "\<And>g sq b. f = FHandshake g sq b \<Longrightarrow> sq < nxt"
  | (queued) g sq b q1 where "f = FHandshake g sq b" "try_queue q f = (Sent, q1)" "release_loop (saturating_add sq 1) held q1 = (ev, q')"
  | (evicted) r q1 where "try_queue q f = (r, q1)" "r \<noteq> Sent" "ev" "q' = ob_evict q1"
  using assms by (cases f) (auto split: if_splits prod.splits queued.splits)

lemma release_extends:
  "release_loop nxt held q = (ev, q') \<Longrightarrow> \<exists>xs. ob_queue q' = ob_queue q @ xs"
proof (induction held arbitrary: nxt q)
  case (Cons f held)
  from Cons.prems show ?case
  proof (cases rule: release_loop_Cons)
    case (queued g sq b q1)
    then show ?thesis
      using Cons.IH [OF queued(3)] by (auto simp: try_queue_def try_send_def Let_def split: if_splits)
  next
    case (evicted r q1)
    then show ?thesis
      by (auto simp: try_queue_def try_send_def ob_evict_def Let_def split: if_splits)
  qed (use Cons.IH in blast)
qed simp

text \<open>A release that did not end the connection queued every handshake it was handed, or one with at least its number, unless
  the number is below what the replay reached.\<close>

lemma release_queues:
  assumes "release_loop nxt held q = (ev, q')"
  shows "\<forall>f\<in>set (newly_queued q q'). undowngradable f \<and> f \<in> set held"
    and "\<not> ev \<Longrightarrow> FHandshake g sq b \<in> set held \<Longrightarrow>
      sq < nxt \<or> (\<exists>g' sq' b'. FHandshake g' sq' b' \<in> set (newly_queued q q') \<and> sq \<le> sq')"
proof -
  have "(\<forall>f\<in>set (newly_queued q q'). undowngradable f \<and> f \<in> set held) \<and> (\<not> ev \<longrightarrow> FHandshake g sq b \<in> set held \<longrightarrow>
      sq < nxt \<or> (\<exists>g' sq' b'. FHandshake g' sq' b' \<in> set (newly_queued q q') \<and> sq \<le> sq'))"
    using assms
  proof (induction held arbitrary: nxt q)
    case (Cons f held)
    from Cons.prems show ?case
    proof (cases rule: release_loop_Cons)
      case passed
      then show ?thesis
        using Cons.IH [OF passed(1)] by auto
    next
      case (queued g1 sq1 b1 q1)
      have new: "newly_queued q q' = f # newly_queued q1 q'"
        using newly_queued_cons [OF queued(2)] release_extends [OF queued(3)] by blast
      have "sq < saturating_add sq1 1 \<Longrightarrow> sq \<le> sq1"
        using unsigned_less [of sq, where ?'a = nat] by (auto simp: saturating_add_def word_less_nat_alt word_le_nat_alt unat_word_ariths split: if_splits)
      then show ?thesis
        using Cons.IH [OF queued(3)] queued(1) unfolding new by (auto simp: undowngradable_def)
    next
      case (evicted r q1)
      then show ?thesis
        using try_queue_newly [OF evicted(1)] by simp
    qed
  qed simp
  then show "\<forall>f\<in>set (newly_queued q q'). undowngradable f \<and> f \<in> set held"
    and "\<not> ev \<Longrightarrow> FHandshake g sq b \<in> set held \<Longrightarrow>
      sq < nxt \<or> (\<exists>g' sq' b'. FHandshake g' sq' b' \<in> set (newly_queued q q') \<and> sq \<le> sq')"
    by blast+
qed

lemma let_all:
  "live_stream grp log qs owed \<Longrightarrow> \<forall>f\<in>set fs. undowngradable f \<Longrightarrow> live_stream grp (log @ map (\<lambda>f. (f, Let)) fs) (qs @ fs) owed"
proof (induction fs arbitrary: log qs)
  case (Cons f fs)
  then show ?case
    using Cons.IH [OF live_stream.let_go [OF Cons.prems(1), of f]] by simp
qed simp

lemma settle_one_stream:
  assumes "live_stream grp log qs (sub_owed s)" "settle_one grp q s = (q', s', paid)"
  shows "live_stream grp log (qs @ newly_queued q q') (sub_owed s') \<and> sub_held s' = sub_held s"
proof -
  obtain r q1 where r: "try_queue q (downgrade_frame grp) = (r, q1)" by (cases "try_queue q (downgrade_frame grp)")
  then show ?thesis
    using assms try_queue_newly [OF r]
    by (cases r) (auto simp: settle_one_def intro: live_stream.told split: if_splits)
qed

lemma sub_life_stream:
  assumes "live_stream grp log0 qs0 (sub_owed s)" "sub_life grp es q s = (log, qs, s', ended)"
  shows "live_stream grp (log0 @ log) (qs0 @ qs) (sub_owed s')"
  using assms
proof (induction es arbitrary: q s log0 qs0 log qs)
  case (Cons e es)
  show ?case
  proof (cases e)
    case (Fanned f v)
    obtain d q1 s1 c where fan: "fan_one grp f v q s = (d, q1, s1, c)" by (cases "fan_one grp f v q s")
    note step = fanned_stream [OF Cons.prems(1) fan]
    show ?thesis
      using Cons.prems(2) Cons.IH [OF step] step fan by (auto simp: Fanned Let_def split: if_splits prod.splits)
  next
    case Settled
    obtain q1 s1 paid where settle: "settle_one grp q s = (q1, s1, paid)" by (cases "settle_one grp q s")
    show ?thesis
      using Cons.prems(2) Cons.IH [OF conjunct1 [OF settle_one_stream [OF Cons.prems(1) settle]]] settle
      by (auto simp: Settled split: prod.splits)
  next
    case (Release n)
    show ?thesis
    proof (cases "sub_held s")
      case None
      then show ?thesis using Cons by (simp add: Release)
    next
      case (Some held)
      obtain ev q1 where rel: "release_loop n held q = (ev, q1)" by (cases "release_loop n held q")
      have "live_stream grp (log0 @ map (\<lambda>f. (f, Let)) (newly_queued q q1)) (qs0 @ newly_queued q q1) (sub_owed (s\<lparr>sub_held := None\<rparr>))"
        using let_all [OF Cons.prems(1)] release_queues(1) [OF rel] by simp
      from this Cons.IH [OF this] show ?thesis
        using Cons.prems(2) rel Some by (auto simp: Release Let_def split: if_splits prod.splits)
    qed
  next
    case (Channel g)
    then show ?thesis
      using Cons by simp
  qed
qed simp

text \<open>A handshake that was held back is still held, or the subscription ended, or the release queued it or a later one, or
  the replay had covered it.\<close>

definition held_settled :: "sub_event list \<Rightarrow> (frame \<times> fate) list \<Rightarrow> subscriber \<Rightarrow> bool \<Rightarrow> u64 \<Rightarrow> frame \<Rightarrow> bool" where
  "held_settled es log s ended sq f \<longleftrightarrow> ended \<or> (\<exists>held. sub_held s = Some held \<and> f \<in> set held) \<or>
    (\<exists>n. Release n \<in> set es \<and> sq < n) \<or> (\<exists>g' sq' b'. (FHandshake g' sq' b', Let) \<in> set log \<and> sq \<le> sq')"

lemma held_settled_more: "held_settled es log s ended sq f \<Longrightarrow> held_settled (e # es) (xs @ log) s ended sq f"
  unfolding held_settled_def set_append list.set by blast

lemma held_is_settled:
  assumes "sub_life grp es q s = (log, qs, s', ended)" "f = FHandshake g sq b"
    and "(f, Held) \<in> set log \<or> (\<exists>held. sub_held s = Some held \<and> f \<in> set held)"
  shows "held_settled es log s' ended sq f"
  using assms
proof (induction es arbitrary: q s log qs)
  case Nil
  then show ?case by (auto simp: held_settled_def)
next
  case (Cons e es)
  show ?case
  proof (cases e)
    case (Fanned f1 v)
    obtain d q1 s1 c where fan: "fan_one grp f1 v q s = (d, q1, s1, c)" by (cases "fan_one grp f1 v q s")
    obtain log1 qs1 x where life: "ended \<or> log = (f1, x) # log1 \<and> x = (if sub_held s1 = sub_held s then At d else Held) \<and> sub_life grp es q1 s1 = (log1, qs1, s', ended)"
      using Cons.prems(1) fan by (auto simp: Fanned Let_def split: if_splits prod.splits)
    have "\<not> ended \<Longrightarrow> (f, Held) \<in> set log1 \<or> (\<exists>held. sub_held s1 = Some held \<and> f \<in> set held)"
      using life Cons.prems(3) fanned_held [OF fan] by (auto split: if_splits)
    then have "\<not> ended \<Longrightarrow> held_settled (e # es) ([(f1, x)] @ log1) s' ended sq f"
      using life Cons.IH [of q1 s1 log1 qs1] assms(2) held_settled_more by blast
    then show ?thesis
      using life by (cases ended) (simp_all add: held_settled_def)
  next
    case Settled
    obtain q1 s1 paid where settle: "settle_one grp q s = (q1, s1, paid)" by (cases "settle_one grp q s")
    then have "sub_held s1 = sub_held s"
      by (auto simp: settle_one_def split: if_splits prod.splits queued.splits)
    then show ?thesis
      using Cons.prems Cons.IH [of q1 s1 log] settle by (auto simp: Settled held_settled_def split: prod.splits)
  next
    case (Release n)
    show ?thesis
    proof (cases "sub_held s")
      case None
      then show ?thesis using Cons.prems Cons.IH [of q s log qs] by (auto simp: Release held_settled_def)
    next
      case (Some held)
      obtain ev q1 where rel: "release_loop n held q = (ev, q1)" by (cases "release_loop n held q")
      obtain log1 qs1 where life: "ended \<or> \<not> ev \<and> log = map (\<lambda>f. (f, Let)) (newly_queued q q1) @ log1 \<and>
          sub_life grp es q1 (s\<lparr>sub_held := None\<rparr>) = (log1, qs1, s', ended)"
        using Cons.prems(1) rel Some by (auto simp: Release Let_def split: if_splits prod.splits)
      have "held_settled (e # es) log s' ended sq f" if "\<not> ended" "(f, Held) \<in> set log1"
        using that life Cons.IH [of q1 "s\<lparr>sub_held := None\<rparr>" log1 qs1] assms(2) held_settled_more by blast
      moreover have "held_settled (e # es) log s' ended sq f" if "\<not> ended" "f \<in> set held"
      proof -
        have l: "log = map (\<lambda>f. (f, Let)) (newly_queued q q1) @ log1"
          using that(1) life by blast
        have "sq < n \<or> (\<exists>g' sq' b'. FHandshake g' sq' b' \<in> set (newly_queued q q1) \<and> sq \<le> sq')"
          using that life release_queues(2) [OF rel, of g sq b] assms(2) by blast
        then show ?thesis
          unfolding held_settled_def l Release by (simp add: image_iff) blast
      qed
      ultimately show ?thesis
        using Cons.prems(3) life Some by (cases ended) (auto simp: held_settled_def [where ended = True])
    qed
  next
    case (Channel h)
    then show ?thesis
      using Cons.prems Cons.IH [of "h q" s log qs] by (auto simp: held_settled_def)
  qed
qed

text \<open>The frames of a stream that a fan-out sent, and all that were queued; and what the contract means for a client that
  missed one: the first frame it is sent afterwards is preceded by the notice, with no more than handshakes of the
  release between the two, and until then the notice is owed or was given with nothing but such handshakes after it.\<close>

definition sent_frames :: "(frame \<times> fate) list \<Rightarrow> frame list" where
  "sent_frames log = map fst (filter (\<lambda>(_, d). d = At DSent) log)"

definition queued_frames :: "(frame \<times> fate) list \<Rightarrow> frame list" where
  "queued_frames log = map fst (filter (\<lambda>(_, d). d = At DSent \<or> d = Let) log)"

lemma sent_frames_simps [simp]:
  "sent_frames [] = []"
  "sent_frames ((f, d) # log) = (if d = At DSent then f # sent_frames log else sent_frames log)"
  "sent_frames (a @ b) = sent_frames a @ sent_frames b"
  by (simp_all add: sent_frames_def)

lemma queued_frames_simps [simp]:
  "queued_frames [] = []"
  "queued_frames ((f, d) # log) = (if d = At DSent \<or> d = Let then f # queued_frames log else queued_frames log)"
  "queued_frames (a @ b) = queued_frames a @ queued_frames b"
  by (simp_all add: queued_frames_def)

definition proper :: "bytes \<Rightarrow> frame list \<Rightarrow> frame list" where
  "proper grp = filter (\<lambda>f. f \<noteq> downgrade_frame grp)"

lemma proper_simps [simp]:
  "proper grp [] = []"
  "proper grp (f # fs) = (if f = downgrade_frame grp then proper grp fs else f # proper grp fs)"
  "proper grp (a @ b) = proper grp a @ proper grp b"
  by (simp_all add: proper_def)

lemma split_snoc:
  assumes "log @ [x] = a @ y # b"
  obtains "b = []" "x = y" "a = log" | b' where "b = b' @ [x]" "log = a @ y # b'"
  using assms by (cases b rule: rev_cases) auto

lemma split_snoc2:
  assumes "log @ [x] = a @ y # b @ z # c"
  obtains "c = []" "x = z" "log = a @ y # b" | c' where "c = c' @ [x]" "log = a @ y # b @ z # c'"
  using assms by (cases c rule: rev_cases) auto

definition gap_pending :: "bytes \<Rightarrow> (frame \<times> fate) list \<Rightarrow> frame list \<Rightarrow> bool" where
  "gap_pending grp log qs \<longleftrightarrow> (\<forall>a f b. log = a @ (f, At Downgraded) # b \<longrightarrow> sent_frames b = [] \<longrightarrow>
    (\<exists>x early late. qs = x @ downgrade_frame grp # late \<and> proper grp x = queued_frames a @ early \<and> queued_frames b = early @ late))"

definition gap_told :: "bytes \<Rightarrow> (frame \<times> fate) list \<Rightarrow> frame list \<Rightarrow> bool" where
  "gap_told grp log qs \<longleftrightarrow> (\<forall>a f b g c. log = a @ (f, At Downgraded) # b @ (g, At DSent) # c \<longrightarrow> sent_frames b = [] \<longrightarrow>
    (\<exists>x early late y. qs = x @ downgrade_frame grp # late @ g # y \<and> proper grp x = queued_frames a @ early \<and> queued_frames b = early @ late))"

lemma gap_pending_snoc:
  assumes "gap_pending grp log qs" "d \<noteq> At DSent" "d \<noteq> At Downgraded"
  shows "gap_pending grp (log @ [(f, d)]) (if d = Let then qs @ [f] else qs)"
  unfolding gap_pending_def
proof (intro allI impI)
  fix a f' b
  assume eq: "log @ [(f, d)] = a @ (f', At Downgraded) # b" and none: "sent_frames b = []"
  from eq show "\<exists>x early late. (if d = Let then qs @ [f] else qs) = x @ downgrade_frame grp # late \<and>
      proper grp x = queued_frames a @ early \<and> queued_frames b = early @ late"
  proof (cases rule: split_snoc)
    case 1
    then show ?thesis
      using assms(3) by simp
  next
    case (2 b')
    then have "sent_frames b' = []"
      using none by simp
    then obtain x early late where "qs = x @ downgrade_frame grp # late" "proper grp x = queued_frames a @ early" "queued_frames b' = early @ late"
      using assms(1) 2(2) unfolding gap_pending_def by blast
    then show ?thesis
      using 2(1) assms(2) by (intro exI [of _ x] exI [of _ early] exI [of _ "if d = Let then late @ [f] else late"]) simp
  qed
qed

lemmas gap_pending_quiet = gap_pending_snoc [where d = Held, simplified] gap_pending_snoc [where d = "At NotSpoken", simplified]
  gap_pending_snoc [where d = "At Shed", simplified] gap_pending_snoc [where d = "At DGone", simplified]

lemma gap_pending_sent: "gap_pending grp (log @ [(f, At DSent)]) qs"
  unfolding gap_pending_def by (auto elim!: split_snoc)

lemma gap_told_snoc: "gap_told grp log qs \<Longrightarrow> d \<noteq> At DSent \<Longrightarrow> gap_told grp (log @ [(f, d)]) qs"
  unfolding gap_told_def by (blast elim!: split_snoc2)

lemma gap_told_more:
  assumes "gap_told grp log qs"
  shows "gap_told grp log (qs @ zs)"
  unfolding gap_told_def
proof (intro allI impI)
  fix a f b g c
  assume "log = a @ (f, At Downgraded) # b @ (g, At DSent) # c" "sent_frames b = []"
  then obtain x early late y where "qs = x @ downgrade_frame grp # late @ g # y" "proper grp x = queued_frames a @ early" "queued_frames b = early @ late"
    using assms unfolding gap_told_def by blast
  then show "\<exists>x early late y. qs @ zs = x @ downgrade_frame grp # late @ g # y \<and> proper grp x = queued_frames a @ early \<and>
      queued_frames b = early @ late"
    by (intro exI [of _ x] exI [of _ early] exI [of _ late] exI [of _ "y @ zs"]) simp
qed

lemma gap_told_sent:
  assumes "gap_told grp log qs" "gap_pending grp log qs"
  shows "gap_told grp (log @ [(f, At DSent)]) (qs @ [f])"
  unfolding gap_told_def
proof (intro allI impI)
  fix a f' b g c
  assume eq: "log @ [(f, At DSent)] = a @ (f', At Downgraded) # b @ (g, At DSent) # c" and none: "sent_frames b = []"
  from eq show "\<exists>x early late y. qs @ [f] = x @ downgrade_frame grp # late @ g # y \<and> proper grp x = queued_frames a @ early \<and>
      queued_frames b = early @ late"
  proof (cases rule: split_snoc2)
    case 1
    then obtain x early late where "qs = x @ downgrade_frame grp # late" "proper grp x = queued_frames a @ early" "queued_frames b = early @ late"
      using assms(2) none unfolding gap_pending_def by blast
    then show ?thesis
      using 1 by (intro exI [of _ x] exI [of _ early] exI [of _ late] exI [of _ "[]"]) simp
  next
    case (2 c')
    then show ?thesis
      using gap_told_more [OF assms(1), of "[f]"] none unfolding gap_told_def by blast
  qed
qed

lemma live_stream_gap:
  assumes "live_stream grp log qs owed" "downgrade_frame grp \<notin> fst ` set log"
  shows "proper grp qs = queued_frames log \<and> (\<not> owed \<longrightarrow> gap_pending grp log qs) \<and> gap_told grp log qs"
  using assms
proof induction
  case start
  show ?case by (simp add: gap_pending_def gap_told_def)
next
  case (sent log qs f)
  then show ?case
    by (auto simp: gap_pending_sent intro: gap_told_sent)
next
  case (told log qs)
  then have *: "proper grp qs = queued_frames log" "gap_told grp log qs"
    by simp_all
  have "gap_pending grp log (qs @ [downgrade_frame grp])"
    unfolding gap_pending_def
  proof (intro allI impI)
    fix a f b
    assume "log = a @ (f, At Downgraded) # b"
    then show "\<exists>x early late. qs @ [downgrade_frame grp] = x @ downgrade_frame grp # late \<and> proper grp x = queued_frames a @ early \<and>
        queued_frames b = early @ late"
      using *(1) by (intro exI [of _ qs] exI [of _ "queued_frames b"] exI [of _ "[]"]) simp
  qed
  with * show ?case
    by (simp add: gap_told_more)
next
  case (let_go log qs owed f)
  then have "gap_pending grp log qs \<Longrightarrow> gap_pending grp (log @ [(f, Let)]) (qs @ [f])"
    using gap_pending_snoc [of grp log qs Let f] by simp
  then show ?case
    using let_go by (auto intro!: gap_told_snoc gap_told_more)
qed (simp_all add: gap_told_snoc gap_pending_quiet)

lemma undowngradable_durable: "undowngradable f \<Longrightarrow> \<not> is_ephemeral f"
  by (cases f) (simp_all add: undowngradable_def is_ephemeral_def)

lemma sub_life_log:
  assumes "sub_life grp es q s = (log, qs, s', ended)" "(f, d) \<in> set log"
  shows "(\<exists>v. Fanned f v \<in> set es) \<or> d = Let"
  using assms
  by (induction grp es q s arbitrary: log qs s' rule: sub_life.induct)
    (fastforce simp: Let_def split: prod.splits if_splits option.splits)+



subsection \<open>The whole registry\<close>

text \<open>Every sender of a connection is the one channel of it, \<open>home\<close>; no connection is listed twice, no list is kept empty
  and no hold grows past its bound.\<close>

definition hub_inv :: "(connection_id \<Rightarrow> handle) \<Rightarrow> hub \<Rightarrow> bool" where
  "hub_inv home h \<longleftrightarrow>
    (\<forall>grp xs. Mapping.lookup (hub_groups h) grp = Some xs \<longrightarrow> xs \<noteq> [] \<and> distinct (map sub_id xs) \<and>
      (\<forall>s\<in>set xs. sub_sender s = home (sub_id s) \<and> (\<forall>held. sub_held s = Some held \<longrightarrow> length held \<le> MAX_HELD_HANDSHAKES))) \<and>
    (\<forall>e xs. Mapping.lookup (hub_principals h) e = Some xs \<longrightarrow> xs \<noteq> [] \<and> distinct (map fst xs) \<and>
      (\<forall>p\<in>set xs. snd p = home (fst p)))"

definition registered :: "connection_id \<Rightarrow> hub \<Rightarrow> bool" where
  "registered cid h \<longleftrightarrow> (\<exists>grp. cid \<in> sub_id ` set (subs grp h)) \<or> (\<exists>e. cid \<in> fst ` set (conns e h))"

lemma subs_set_subs [simp]: "subs g (set_subs grp xs h) = (if g = grp then xs else subs g h)"
  by (simp add: subs_def set_subs_def lookup_update')

lemma conns_set_subs [simp]: "conns e (set_subs grp xs h) = conns e h"
  by (simp add: conns_def set_subs_def)

lemma subs_disconnect [simp]: "subs grp (hub_disconnect cid h) = filter (\<lambda>s. sub_id s \<noteq> cid) (subs grp h)"
  by (auto simp: subs_def hub_disconnect_def Mapping.lookup_filter lookup_map_values split: option.splits)

lemma conns_disconnect [simp]: "conns e (hub_disconnect cid h) = filter (\<lambda>(existing, _). existing \<noteq> cid) (conns e h)"
  by (auto simp: conns_def hub_disconnect_def Mapping.lookup_filter lookup_map_values split: option.splits)

lemma disconnect_all:
  "subs grp (fold hub_disconnect cids h) = filter (\<lambda>s. sub_id s \<notin> set cids) (subs grp h)"
  "conns e (fold hub_disconnect cids h) = filter (\<lambda>(existing, _). existing \<notin> set cids) (conns e h)"
  by (induction cids arbitrary: h) (auto simp: conj_commute case_prod_unfold)

lemma disconnected_not_registered:
  assumes "h' = fold hub_disconnect cids h" "cid \<in> set cids"
  shows "\<not> registered cid h'"
  using assms by (auto simp: registered_def disconnect_all)

lemma hub_inv_subs:
  assumes "hub_inv home h"
  shows "distinct (map sub_id (subs grp h))" "s \<in> set (subs grp h) \<Longrightarrow> sub_sender s = home (sub_id s)"
    "s \<in> set (subs grp h) \<Longrightarrow> sub_held s = Some held \<Longrightarrow> length held \<le> MAX_HELD_HANDSHAKES"
    "(cid, sender) \<in> set (conns e h) \<Longrightarrow> sender = home cid" "distinct (map fst (conns e h))"
  using assms unfolding hub_inv_def
  by (cases "Mapping.lookup (hub_groups h) grp"; cases "Mapping.lookup (hub_principals h) e"; force simp: subs_def conns_def)+

lemma disconnect_inv: "hub_inv home h \<Longrightarrow> hub_inv home (hub_disconnect cid h)"
  unfolding hub_inv_def hub_disconnect_def
  by (auto simp: Mapping.lookup_filter lookup_map_values distinct_map_filter split: option.splits if_splits)

lemma disconnect_all_inv: "hub_inv home h \<Longrightarrow> hub_inv home (fold hub_disconnect cids h)"
  by (induction cids arbitrary: h) (auto intro: disconnect_inv)

lemma set_subs_inv:
  assumes "hub_inv home h" "xs \<noteq> []" "distinct (map sub_id xs)"
    "\<And>s. s \<in> set xs \<Longrightarrow> sub_sender s = home (sub_id s) \<and> (\<forall>held. sub_held s = Some held \<longrightarrow> length held \<le> MAX_HELD_HANDSHAKES)"
  shows "hub_inv home (set_subs grp xs h)"
  using assms unfolding hub_inv_def set_subs_def by (auto simp: lookup_update')

subsubsection \<open>Fan-out reaches each subscriber on its own terms\<close>

lemma find_SomeD: "find P xs = Some x \<Longrightarrow> x \<in> set xs \<and> P x"
  by (induction xs) (auto split: if_splits)

lemma fan_one_keeps:
  assumes "fan_one grp f v q s = (d, q', s', c)"
  shows "sub_id s' = sub_id s" "sub_sender s' = sub_sender s" "sub_version s' = sub_version s"
    "\<forall>held. sub_held s = Some held \<longrightarrow> length held \<le> MAX_HELD_HANDSHAKES \<Longrightarrow>
      \<forall>held. sub_held s' = Some held \<longrightarrow> length held \<le> MAX_HELD_HANDSHAKES"
  using assms
  by (auto simp: fan_one_def fan_frame_def split: if_splits bool.splits option.splits prod.splits queued.splits)

abbreviation fan_at :: "bytes \<Rightarrow> frame \<Rightarrow> u16 \<Rightarrow> channels \<Rightarrow> subscriber \<Rightarrow> delivery \<times> outbound \<times> subscriber \<times> bool" where
  "fan_at grp f v ch s \<equiv> fan_one grp f v (ch (sub_sender s)) s"

lemma fan_at_other: "sub_sender s \<noteq> k \<Longrightarrow> fan_at grp f v (ch(k := q)) s = fan_at grp f v ch s"
  by simp

lemma fan_loop_each:
  assumes "distinct (map sub_sender xs)"
  shows "fst (fan_loop grp f except v ch xs) =
      map (\<lambda>s. (sub_id s, fst (fan_at grp f v ch s))) (filter (\<lambda>s. sub_id s \<noteq> except) xs)"
    "fst (snd (fan_loop grp f except v ch xs)) k =
      (case find (\<lambda>s. sub_sender s = k \<and> sub_id s \<noteq> except) xs of None \<Rightarrow> ch k | Some s \<Rightarrow> fst (snd (fan_at grp f v ch s)))"
    "fst (snd (snd (fan_loop grp f except v ch xs))) =
      map (\<lambda>s. if sub_id s = except then s else fst (snd (snd (fan_at grp f v ch s)))) xs"
  using assms
proof (induction xs arbitrary: ch)
  case (Cons s xs)
  have d: "distinct (map sub_sender xs)" if "distinct (map sub_sender (s # xs))"
    using that by simp
  have other: "sub_sender t \<noteq> sub_sender s" if "t \<in> set xs" "distinct (map sub_sender (s # xs))" for t
  proof
    assume "sub_sender t = sub_sender s"
    then have "sub_sender s \<in> sub_sender ` set xs"
      using imageI [OF that(1), of sub_sender] by simp
    with that(2) show False
      by simp
  qed
  {
    case 1
    let ?ch = "ch(sub_sender s := fst (snd (fan_at grp f v ch s)))"
    have "map (\<lambda>t. (sub_id t, fst (fan_at grp f v ?ch t))) (filter (\<lambda>t. sub_id t \<noteq> except) xs) =
        map (\<lambda>t. (sub_id t, fst (fan_at grp f v ch t))) (filter (\<lambda>t. sub_id t \<noteq> except) xs)"
      by (rule map_cong) (use other 1 in auto)
    with Cons.IH(1) [OF d [OF 1]] show ?case
      by (simp add: Let_def case_prod_unfold del: fun_upd_apply)
  next
    case 2
    let ?ch = "ch(sub_sender s := fst (snd (fan_at grp f v ch s)))"
    have "?ch k = ch k" if "sub_sender s \<noteq> k"
      using that by simp
    moreover have "find (\<lambda>t. sub_sender t = sub_sender s \<and> sub_id t \<noteq> except) xs = None"
      using other 2 by (auto simp: find_None_iff)
    moreover have "fan_at grp f v ?ch t = fan_at grp f v ch t"
      if "find (\<lambda>t. sub_sender t = k \<and> sub_id t \<noteq> except) xs = Some t" for t
      using that other 2 by (auto simp: find_Some_iff in_set_conv_nth)
    ultimately show ?case
      using Cons.IH(2) [OF d [OF 2]] by (auto simp: Let_def case_prod_unfold fun_upd_same simp del: fun_upd_apply split: option.splits)
  next
    case 3
    let ?ch = "ch(sub_sender s := fst (snd (fan_at grp f v ch s)))"
    have "map (\<lambda>t. if sub_id t = except then t else fst (snd (snd (fan_at grp f v ?ch t)))) xs =
        map (\<lambda>t. if sub_id t = except then t else fst (snd (snd (fan_at grp f v ch t)))) xs"
      by (rule map_cong) (use other 3 in auto)
    with Cons.IH(3) [OF d [OF 3]] show ?case
      by (simp add: Let_def case_prod_unfold del: fun_upd_apply)
  }
qed simp_all

lemma fanout_frame_eq:
  assumes "Mapping.lookup (hub_groups h) grp = Some xs"
  shows "fanout_frame grp f except v ch h =
    (let r = fan_loop grp f except v ch xs;
         h' = (set_subs grp (fst (snd (snd r))) h)
           \<lparr>hub_downgrades := hub_downgrades h + fst (snd (snd (snd r))), hub_shed := hub_shed h + snd (snd (snd (snd r)))\<rparr> in
     (fst r, fst (snd r), fold hub_disconnect (map fst (filter (\<lambda>(_, d). d = DGone) (fst r))) h'))"
  using assms by (simp add: fanout_frame_def Let_def case_prod_unfold)

lemma counters_keep [simp]:
  "subs grp (h\<lparr>hub_downgrades := a, hub_shed := b\<rparr>) = subs grp h"
  "conns e (h\<lparr>hub_downgrades := a, hub_shed := b\<rparr>) = conns e h"
  "hub_inv home (h\<lparr>hub_downgrades := a, hub_shed := b\<rparr>) = hub_inv home h"
  by (simp_all add: subs_def conns_def hub_inv_def)

text \<open>The connections a fan-out ended.\<close>

definition ended :: "(connection_id \<times> delivery) list \<Rightarrow> connection_id set" where
  "ended out = {cid. (cid, DGone) \<in> set out}"

lemma same_fields_inv:
  assumes inv: "hub_inv home h" and "subs grp h \<noteq> []"
    and same: "map sub_id xs = map sub_id (subs grp h)" "map sub_sender xs = map sub_sender (subs grp h)"
    and held: "\<And>s held. s \<in> set xs \<Longrightarrow> sub_held s = Some held \<Longrightarrow> length held \<le> MAX_HELD_HANDSHAKES"
  shows "hub_inv home (set_subs grp xs h)"
proof (rule set_subs_inv [OF inv])
  show "xs \<noteq> []" "distinct (map sub_id xs)"
    using same(1) assms(2) hub_inv_subs(1) [OF inv, of grp] by auto
next
  fix s
  assume s: "s \<in> set xs"
  then obtain i where i: "i < length xs" "s = xs ! i"
    by (auto simp: in_set_conv_nth)
  have len: "length xs = length (subs grp h)"
    using map_eq_imp_length_eq [OF same(1)] .
  have "sub_id s = sub_id (subs grp h ! i)" "sub_sender s = sub_sender (subs grp h ! i)"
    using i arg_cong [OF same(1), of "\<lambda>l. l ! i"] arg_cong [OF same(2), of "\<lambda>l. l ! i"] len by simp_all
  then show "sub_sender s = home (sub_id s) \<and> (\<forall>held. sub_held s = Some held \<longrightarrow> length held \<le> MAX_HELD_HANDSHAKES)"
    using hub_inv_subs(2) [OF inv, of "subs grp h ! i" grp] i(1) len held [OF s] by simp
qed

definition fanned_subs :: "bytes \<Rightarrow> frame \<Rightarrow> connection_id \<Rightarrow> u16 \<Rightarrow> channels \<Rightarrow> subscriber list \<Rightarrow> subscriber list" where
  "fanned_subs grp f except v ch xs = map (\<lambda>s. if sub_id s = except then s else fst (snd (snd (fan_at grp f v ch s)))) xs"

definition gone_ids :: "(connection_id \<times> delivery) list \<Rightarrow> connection_id list" where
  "gone_ids out = map fst (filter (\<lambda>(_, d). d = DGone) out)"

lemma set_gone_ids [simp]: "set (gone_ids out) = ended out"
  by (force simp: gone_ids_def ended_def)

lemma fanout_eqs:
  assumes inv: "hub_inv home h" "inj home" and fan: "fanout_frame grp f except v ch h = (out, ch', h')"
    and some: "Mapping.lookup (hub_groups h) grp = Some xs"
  shows "out = map (\<lambda>s. (sub_id s, fst (fan_at grp f v ch s))) (filter (\<lambda>s. sub_id s \<noteq> except) xs)"
    "ch' k = (case find (\<lambda>s. sub_sender s = k \<and> sub_id s \<noteq> except) xs of None \<Rightarrow> ch k | Some s \<Rightarrow> fst (snd (fan_at grp f v ch s)))"
    "\<exists>a b. h' = fold hub_disconnect (gone_ids out)
      ((set_subs grp (fanned_subs grp f except v ch xs) h)\<lparr>hub_downgrades := a, hub_shed := b\<rparr>)"
proof -
  have "subs grp h = xs"
    using some by (simp add: subs_def)
  then have dist: "distinct (map sub_sender xs)"
    using hub_inv_subs(1,2) [OF inv(1), where grp = grp] inv(2) by (auto simp: distinct_map inj_on_def)
  note eqs = fan [unfolded fanout_frame_eq [OF some] Let_def fan_loop_each(1,3) [OF dist], folded fanned_subs_def]
  show "out = map (\<lambda>s. (sub_id s, fst (fan_at grp f v ch s))) (filter (\<lambda>s. sub_id s \<noteq> except) xs)"
    "ch' k = (case find (\<lambda>s. sub_sender s = k \<and> sub_id s \<noteq> except) xs of None \<Rightarrow> ch k | Some s \<Rightarrow> fst (snd (fan_at grp f v ch s)))"
    "\<exists>a b. h' = fold hub_disconnect (gone_ids out)
      ((set_subs grp (fanned_subs grp f except v ch xs) h)\<lparr>hub_downgrades := a, hub_shed := b\<rparr>)"
    using eqs fan_loop_each(2) [OF dist, of grp f except v ch k] unfolding gone_ids_def by blast+
qed

lemma fan_at_keeps:
  "sub_id (fst (snd (snd (fan_one grp f v q s)))) = sub_id s" "sub_sender (fst (snd (snd (fan_one grp f v q s)))) = sub_sender s"
  using fan_one_keeps(1,2) by (metis prod.collapse)+

lemma fanned_subs_inv:
  assumes inv: "hub_inv home h" and xs: "subs grp h = xs" "xs \<noteq> []"
  shows "hub_inv home (set_subs grp (fanned_subs grp f except v ch xs) h)"
proof (rule same_fields_inv [OF inv])
  show "map sub_id (fanned_subs grp f except v ch xs) = map sub_id (subs grp h)"
    "map sub_sender (fanned_subs grp f except v ch xs) = map sub_sender (subs grp h)"
    by (simp_all add: xs fanned_subs_def fan_at_keeps)
  fix s held
  assume "s \<in> set (fanned_subs grp f except v ch xs)" and held: "sub_held s = Some held"
  then obtain t where t: "t \<in> set xs" "s = (if sub_id t = except then t else fst (snd (snd (fan_at grp f v ch t))))"
    by (auto simp: fanned_subs_def)
  have "\<forall>held. sub_held t = Some held \<longrightarrow> length held \<le> MAX_HELD_HANDSHAKES"
    using hub_inv_subs(3) [OF inv, where grp = grp] t(1) xs by blast
  from fan_one_keeps(4) [OF _ this, of grp f v "ch (sub_sender t)"] this show "length held \<le> MAX_HELD_HANDSHAKES"
    using t(2) held by (cases "fan_at grp f v ch t") (auto split: if_splits)
qed (use xs in simp)

lemma fanout_inv:
  assumes inv: "hub_inv home h" "inj home" and fan: "fanout_frame grp f except v ch h = (out, ch', h')"
  shows "hub_inv home h'"
proof (cases "Mapping.lookup (hub_groups h) grp")
  case (Some xs)
  then have "subs grp h = xs" "xs \<noteq> []"
    using inv(1) by (auto simp: subs_def hub_inv_def)
  from fanned_subs_inv [OF inv(1) this] show ?thesis
    using fanout_eqs(3) [OF inv fan Some] disconnect_all_inv counters_keep(3) by blast
qed (use inv fan in \<open>simp add: fanout_frame_def\<close>)

lemma fanout_subscriber:
  assumes inv: "hub_inv home h" "inj home" and fan: "fanout_frame grp f except v ch h = (out, ch', h')"
    and s: "s \<in> set (subs grp h)" "sub_id s \<noteq> except"
  shows "(sub_id s, fst (fan_at grp f v ch s)) \<in> set out" "ch' (home (sub_id s)) = fst (snd (fan_at grp f v ch s))"
    "fst (fan_at grp f v ch s) \<noteq> DGone \<Longrightarrow> fst (snd (snd (fan_at grp f v ch s))) \<in> set (subs grp h')"
proof -
  obtain xs where some: "Mapping.lookup (hub_groups h) grp = Some xs" and xs: "subs grp h = xs"
    using s(1) by (cases "Mapping.lookup (hub_groups h) grp") (auto simp: subs_def)
  note out = fanout_eqs(1) [OF inv fan some] and ch' = fanout_eqs(2) [OF inv fan some]
  obtain a b where h': "h' = fold hub_disconnect (gone_ids out) ((set_subs grp (fanned_subs grp f except v ch xs) h)\<lparr>hub_downgrades := a, hub_shed := b\<rparr>)"
    using fanout_eqs(3) [OF inv fan some] by blast
  have home: "sub_sender t = home (sub_id t)" if "t \<in> set xs" for t
    using hub_inv_subs(2) [OF inv(1), of t grp] that by (simp add: xs)
  have same: "t = s" if "t \<in> set xs" "sub_id t = sub_id s" for t
    using hub_inv_subs(1) [OF inv(1), of grp] that s(1) by (auto simp: xs distinct_map inj_on_def)
  let ?P = "\<lambda>t. sub_sender t = home (sub_id s) \<and> sub_id t \<noteq> except"
  have "find ?P xs \<noteq> None"
    unfolding find_None_iff using s home [of s] xs by blast
  then obtain t where t: "find ?P xs = Some t"
    by blast
  then have t': "t \<in> set xs" "sub_sender t = home (sub_id s)"
    using find_SomeD [OF t] by simp_all
  then have "t = s"
    using home [OF t'(1)] same inj_eq [OF inv(2)] by simp
  then show "ch' (home (sub_id s)) = fst (snd (fan_at grp f v ch s))"
    using t by (simp add: ch')
  show "(sub_id s, fst (fan_at grp f v ch s)) \<in> set out"
    using s by (auto simp: out xs)
  assume "fst (fan_at grp f v ch s) \<noteq> DGone"
  then have "sub_id s \<notin> ended out"
    using same by (auto simp: ended_def out)
  then show "fst (snd (snd (fan_at grp f v ch s))) \<in> set (subs grp h')"
    using s by (auto simp: h' disconnect_all fan_at_keeps fanned_subs_def xs intro!: image_eqI [of _ _ s])
qed

lemma fanout_rest:
  assumes inv: "hub_inv home h" "inj home" and fan: "fanout_frame grp f except v ch h = (out, ch', h')"
  shows "cid \<in> ended out \<Longrightarrow> \<not> registered cid h'"
    "g \<noteq> grp \<Longrightarrow> subs g h' = filter (\<lambda>s. sub_id s \<notin> ended out) (subs g h)"
    "cid = except \<or> cid \<notin> sub_id ` set (subs grp h) \<Longrightarrow> ch' (home cid) = ch (home cid)"
proof (atomize (full), cases "Mapping.lookup (hub_groups h) grp")
  case (Some xs)
  then have xs: "subs grp h = xs"
    by (simp add: subs_def)
  note out = fanout_eqs(1) [OF inv fan Some] and ch' = fanout_eqs(2) [OF inv fan Some]
  obtain a b where h': "h' = fold hub_disconnect (gone_ids out) ((set_subs grp (fanned_subs grp f except v ch xs) h)\<lparr>hub_downgrades := a, hub_shed := b\<rparr>)"
    using fanout_eqs(3) [OF inv fan Some] by blast
  have "find (\<lambda>s. sub_sender s = home cid \<and> sub_id s \<noteq> except) xs = None" if "cid = except \<or> cid \<notin> sub_id ` set xs"
    using that hub_inv_subs(2) [OF inv(1), where grp = grp] inj_eq [OF inv(2)] by (auto simp: find_None_iff xs)
  then show "(cid \<in> ended out \<longrightarrow> \<not> registered cid h') \<and>
      (g \<noteq> grp \<longrightarrow> subs g h' = filter (\<lambda>s. sub_id s \<notin> ended out) (subs g h)) \<and>
      (cid = except \<or> cid \<notin> sub_id ` set (subs grp h) \<longrightarrow> ch' (home cid) = ch (home cid))"
    using disconnected_not_registered [OF h', of cid] by (auto simp: h' disconnect_all ch' xs)
qed (use fan in \<open>auto simp: fanout_frame_def ended_def\<close>)

text \<open>C8. A fan-out treats every subscriber by the state of its own queue and no other. Each subscriber but the writer gets
  the outcome its own channel gives; the writer's channel and the channels of connections outside the group are
  untouched; a connection that was ended is in no group and belongs to no principal, and every other
  subscription of every group stays.\<close>

theorem fanout_isolated:
  assumes "hub_inv home h" "inj home" "fanout_frame grp f except v ch h = (out, ch', h')"
  shows "(\<forall>cid. cid \<in> ended out \<longrightarrow> \<not> registered cid h') \<and>
    (\<forall>g. g \<noteq> grp \<longrightarrow> subs g h' = filter (\<lambda>s. sub_id s \<notin> ended out) (subs g h)) \<and>
    (\<forall>cid. cid = except \<or> cid \<notin> sub_id ` set (subs grp h) \<longrightarrow> ch' (home cid) = ch (home cid)) \<and>
    (\<forall>s\<in>set (subs grp h). sub_id s \<noteq> except \<longrightarrow>
      (case fan_one grp f v (ch (home (sub_id s))) s of (d, q, s', _) \<Rightarrow>
        (sub_id s, d) \<in> set out \<and> ch' (home (sub_id s)) = q \<and> (d \<noteq> DGone \<longrightarrow> s' \<in> set (subs grp h'))))"
  using fanout_rest [OF assms] fanout_subscriber [OF assms] hub_inv_subs(2) [OF assms(1), where grp = grp]
  by (auto simp: case_prod_unfold)

subsubsection \<open>Subscribing, identifying and settling\<close>

lemma hub_new_inv: "hub_inv home hub_new"
  by (simp add: hub_inv_def hub_new_def)

lemma subscribe_with_inv:
  assumes "hub_inv home h" "sender = home cid" "\<forall>hs. held = Some hs \<longrightarrow> length hs \<le> MAX_HELD_HANDSHAKES"
  shows "hub_inv home (subscribe_with held grp cid sender version h)"
proof (cases "list_ex (\<lambda>s. sub_id s = cid) (subs grp h)")
  case True
  then show ?thesis
    using hub_inv_subs(1-3) [OF assms(1), where grp = grp] unfolding subscribe_with_def Let_def
    by (auto intro!: set_subs_inv assms(1))
next
  case False
  have "hub_inv home (set_subs grp (subs grp h @ [\<lparr>sub_id = cid, sub_sender = sender, sub_version = version, sub_owed = False, sub_held = held\<rparr>]) h)"
    by (rule set_subs_inv [OF assms(1)])
      (use hub_inv_subs(1-3) [OF assms(1), where grp = grp] False assms(2,3) in \<open>auto simp: list_ex_iff\<close>)
  with False show ?thesis
    by (simp add: subscribe_with_def)
qed

lemma set_conns_inv:
  assumes "hub_inv home h" "xs \<noteq> []" "distinct (map fst xs)" "\<And>p. p \<in> set xs \<Longrightarrow> snd p = home (fst p)"
  shows "hub_inv home (h\<lparr>hub_principals := Mapping.update e xs (hub_principals h)\<rparr>)"
  using assms unfolding hub_inv_def by (simp add: lookup_update')

lemma identify_inv:
  assumes "hub_inv home h"
  shows "hub_inv home (hub_identify e cid (home cid) h)"
proof -
  have "snd p = home (fst p)" if "p \<in> set (conns e h)" for p
    using hub_inv_subs(4) [OF assms, of "fst p" "snd p" e] that by simp
  then show ?thesis
    unfolding hub_identify_def Let_def
    by (intro set_conns_inv [OF assms]) (use hub_inv_subs(5) [OF assms, of e] in \<open>auto simp: list_ex_iff split: if_splits\<close>)
qed

lemma settle_subs_keeps:
  "settle_subs grp ch xs = (n, ch', xs') \<Longrightarrow>
    map sub_id xs' = map sub_id xs \<and> map sub_sender xs' = map sub_sender xs \<and> map sub_held xs' = map sub_held xs"
proof (induction xs arbitrary: ch n ch' xs')
  case (Cons s xs)
  obtain q s1 paid where one: "settle_one grp (ch (sub_sender s)) s = (q, s1, paid)" by (cases "settle_one grp (ch (sub_sender s)) s")
  have "sub_id s1 = sub_id s" "sub_sender s1 = sub_sender s" "sub_held s1 = sub_held s"
    using one by (auto simp: settle_one_def split: if_splits prod.splits queued.splits)
  then show ?case
    using Cons one by (auto simp: Let_def split: prod.splits)
qed simp

lemma settle_inv:
  assumes "hub_inv home h" "\<And>g. g \<in> set order \<Longrightarrow> subs g h \<noteq> []" "settle_downgrades order ch h = (n, ch', h')"
  shows "hub_inv home h'"
  using assms
proof (induction order arbitrary: ch h n)
  case (Cons grp order)
  obtain n1 ch1 xs where one: "settle_subs grp ch (subs grp h) = (n1, ch1, xs)" by (cases "settle_subs grp ch (subs grp h)")
  note same = settle_subs_keeps [OF one]
  have "length held \<le> MAX_HELD_HANDSHAKES" if "s \<in> set xs" "sub_held s = Some held" for s held
  proof -
    have "Some held \<in> set (map sub_held (subs grp h))"
      using same that by (metis imageI list.set_map)
    then show ?thesis
      using hub_inv_subs(3) [OF Cons.prems(1)] by auto
  qed
  with same have inv: "hub_inv home (set_subs grp xs h)"
    using Cons.prems(1,2) by (intro same_fields_inv) auto
  have "xs \<noteq> []"
    using same Cons.prems(2) [of grp] by auto
  then show ?case
    using Cons.IH [OF inv] Cons.prems(2,3) one by (auto simp: Let_def split: prod.splits)
qed simp

lemma clear_held_keeps:
  "map sub_id (clear_held cid xs) = map sub_id xs" "map sub_sender (clear_held cid xs) = map sub_sender xs"
  "s \<in> set (clear_held cid xs) \<Longrightarrow> sub_held s = Some held \<Longrightarrow> \<exists>t\<in>set xs. sub_held t = Some held"
  by (induction xs) (auto split: if_splits)

lemma release_inv:
  assumes inv: "hub_inv home h" and rel: "release_handshakes grp cid till ch h = (ch', h')"
  shows "hub_inv home h'"
proof -
  have "hub_inv home (set_subs grp (clear_held cid (subs grp h)) h)" if "subs grp h \<noteq> []"
    by (rule same_fields_inv [OF inv that])
      (use clear_held_keeps [where cid = cid and xs = "subs grp h"] hub_inv_subs(3) [OF inv, where grp = grp] in auto)
  moreover have "subs grp h \<noteq> []" if "find (\<lambda>s. sub_id s = cid) (subs grp h) = Some s" for s
    using that by auto
  ultimately show ?thesis
    using rel inv by (auto simp: release_handshakes_def Let_def intro: disconnect_inv split: option.splits prod.splits)
qed

subsubsection \<open>Revocation\<close>

lemma ob_evicted_close [simp]: "ob_evicted (snd (ob_close q)) = ob_evicted q" "ob_evicted (ob_evict q)"
  by (auto simp: ob_close_def ob_evict_def try_send_def Let_def)

lemma evict_all_eq:
  assumes "evict_all taken ch h = (ch', h')"
  shows "h' = fold hub_disconnect (map fst taken) h" "k \<notin> snd ` set taken \<Longrightarrow> ch' k = ch k"
    "ob_evicted (ch' k) \<longleftrightarrow> ob_evicted (ch k) \<or> k \<in> snd ` set taken"
  using assms by (induction taken ch h rule: evict_all.induct) (auto simp: Let_def)

lemma lookup_delete_if: "Mapping.lookup (Mapping.delete k m) k' = (if k' = k then None else Mapping.lookup m k')"
  by (cases "k' = k") (simp_all add: lookup_delete lookup_delete_neq)

lemma conns_delete [simp]:
  "conns e (h\<lparr>hub_principals := Mapping.delete e' (hub_principals h)\<rparr>) = (if e = e' then [] else conns e h)"
  "subs grp (h\<lparr>hub_principals := p\<rparr>) = subs grp h"
  by (simp_all add: conns_def subs_def lookup_delete_if)

lemma evict_inv:
  assumes inv: "hub_inv home h" and ev: "hub_evict e ch h = (n, ch', h')"
  shows "hub_inv home h'"
proof -
  have "hub_inv home (h\<lparr>hub_principals := Mapping.delete e (hub_principals h)\<rparr>)"
    using inv by (simp add: hub_inv_def lookup_delete_if)
  moreover have "evict_all (conns e h) ch (h\<lparr>hub_principals := Mapping.delete e (hub_principals h)\<rparr>) = (ch', h')"
    using ev by (simp add: hub_evict_def Let_def)
  note evict_all_eq(1) [OF this]
  ultimately show ?thesis
    using disconnect_all_inv by blast
qed

text \<open>C7. Revocation reaches every socket of a principal and no other. Every connection the principal held is told to end
  and is left in no group and under no principal, the number returned is how many there were, and every other
  connection keeps its channel and its subscriptions.\<close>

theorem evict_reaches_every_socket:
  assumes inv: "hub_inv home h" "inj home" and ev: "hub_evict e ch h = (n, ch', h')"
  shows "n = connections_for e h \<and> connections_for e h' = 0 \<and>
    (\<forall>cid\<in>fst ` set (conns e h). ob_evicted (ch' (home cid)) \<and> \<not> registered cid h') \<and>
    (\<forall>cid. cid \<notin> fst ` set (conns e h) \<longrightarrow> ch' (home cid) = ch (home cid) \<and>
      (\<forall>grp. filter (\<lambda>s. sub_id s = cid) (subs grp h') = filter (\<lambda>s. sub_id s = cid) (subs grp h)))"
proof -
  define h1 where "h1 = h\<lparr>hub_principals := Mapping.delete e (hub_principals h)\<rparr>"
  have all: "evict_all (conns e h) ch h1 = (ch', h')" and n: "n = connections_for e h"
    using ev by (simp_all add: hub_evict_def Let_def h1_def connections_for_def)
  have senders: "snd ` set (conns e h) = home ` fst ` set (conns e h)"
    using hub_inv_subs(4) [OF inv(1), where e = e] by (force simp: image_iff)
  have h': "h' = fold hub_disconnect (map fst (conns e h)) h1"
    using evict_all_eq(1) [OF all] .
  have "connections_for e h' = 0"
    by (simp add: connections_for_def h' disconnect_all h1_def)
  moreover have "ob_evicted (ch' (home cid)) \<and> \<not> registered cid h'" if "cid \<in> fst ` set (conns e h)" for cid
  proof
    show "ob_evicted (ch' (home cid))"
      using that evict_all_eq(3) [OF all, of "home cid"] senders by blast
    show "\<not> registered cid h'"
      by (rule disconnected_not_registered [OF h']) (use that in \<open>simp only: set_map\<close>)
  qed
  moreover have "ch' (home cid) = ch (home cid)" if "cid \<notin> fst ` set (conns e h)" for cid
    using that evict_all_eq(2) [OF all, of "home cid"] senders inj_image_mem_iff [OF inv(2)] by simp
  moreover have "filter (\<lambda>s. sub_id s = cid) (subs grp h') = filter (\<lambda>s. sub_id s = cid) (subs grp h)"
    if "cid \<notin> fst ` set (conns e h)" for cid grp
    using that by (auto simp: h' disconnect_all h1_def intro!: filter_cong)
  ultimately show ?thesis
    using n by blast
qed

subsubsection \<open>Every operation keeps the registry well formed\<close>

datatype hub_op =
    OpSubscribe bytes connection_id u16
  | OpSubscribeHolding bytes connection_id u16
  | OpRelease bytes connection_id u64
  | OpIdentify bytes connection_id
  | OpEvict bytes
  | OpDisconnect connection_id
  | OpFanout bytes frame connection_id u16
  | OpSettle "bytes list"
  | OpChannels "channels \<Rightarrow> channels"

definition known_groups :: "bytes list \<Rightarrow> hub \<Rightarrow> bytes list" where
  "known_groups order h = filter (\<lambda>g. Mapping.lookup (hub_groups h) g \<noteq> None) order"

fun hub_step :: "(connection_id \<Rightarrow> handle) \<Rightarrow> hub_op \<Rightarrow> channels \<times> hub \<Rightarrow> channels \<times> hub" where
  "hub_step home (OpSubscribe grp cid v) (ch, h) = (ch, hub_subscribe grp cid (home cid) v h)"
| "hub_step home (OpSubscribeHolding grp cid v) (ch, h) = (ch, subscribe_holding_handshakes grp cid (home cid) v h)"
| "hub_step home (OpRelease grp cid till) (ch, h) = release_handshakes grp cid till ch h"
| "hub_step home (OpIdentify e cid) (ch, h) = (ch, hub_identify e cid (home cid) h)"
| "hub_step home (OpEvict e) (ch, h) = snd (hub_evict e ch h)"
| "hub_step home (OpDisconnect cid) (ch, h) = (ch, hub_disconnect cid h)"
| "hub_step home (OpFanout grp f except v) (ch, h) = snd (fanout_frame grp f except v ch h)"
| "hub_step home (OpSettle order) (ch, h) = snd (settle_downgrades (known_groups order h) ch h)"
| "hub_step home (OpChannels g) (ch, h) = (g ch, h)"

lemma hub_step_inv:
  assumes inv: "hub_inv home h" "inj home" and step: "hub_step home op (ch, h) = (ch', h')"
  shows "hub_inv home h'"
proof (cases op)
  case (OpEvict e)
  then show ?thesis
    using evict_inv [OF inv(1), of e ch] step by (cases "hub_evict e ch h") auto
next
  case (OpFanout grp f except v)
  then show ?thesis
    using fanout_inv [OF inv, of grp f except v ch] step by (cases "fanout_frame grp f except v ch h") auto
next
  case (OpSettle order)
  have "subs g h \<noteq> []" if "g \<in> set (known_groups order h)" for g
    using that inv(1) by (auto simp: known_groups_def subs_def hub_inv_def split: option.splits)
  then show ?thesis
    using settle_inv [OF inv(1), of "known_groups order h" ch "fst (settle_downgrades (known_groups order h) ch h)" ch' h'] step OpSettle
    by (cases "settle_downgrades (known_groups order h) ch h") simp
qed (use inv step in \<open>auto simp: hub_subscribe_def subscribe_holding_handshakes_def intro: release_inv identify_inv disconnect_inv subscribe_with_inv\<close>)

text \<open>C9. Whatever is done to the registry, by connections that subscribe, replay, authenticate, leave, are revoked or are
  fanned out to, no connection is ever listed twice in a group or under a principal, no list is kept empty, no
  hold outgrows its bound and every sender is its connection's own channel.\<close>

theorem hub_keeps_inv:
  assumes "inj home" "fold (hub_step home) ops (ch, hub_new) = (ch', h')"
  shows "hub_inv home h'"
proof -
  have "hub_inv home h \<Longrightarrow> fold (hub_step home) ops (ch, h) = (ch', h') \<Longrightarrow> hub_inv home h'" for ch h
  proof (induction ops arbitrary: ch h)
    case (Cons op ops)
    obtain ch1 h1 where step: "hub_step home op (ch, h) = (ch1, h1)" by (cases "hub_step home op (ch, h)")
    then show ?case
      using Cons.IH [OF hub_step_inv [OF Cons.prems(1) assms(1) step]] Cons.prems(2) by simp
  qed simp
  then show ?thesis
    using assms(2) hub_new_inv by blast
qed

definition sample_hub :: hub where
  "sample_hub = hub_identify [8] 2 2 (hub_subscribe [9] 2 2 3 (hub_subscribe [9] 1 1 3 hub_new))"

lemma sample_hub_inv: "hub_inv unat sample_hub"
  unfolding sample_hub_def hub_subscribe_def
  using identify_inv [of unat _ "[8]" 2] by (simp add: subscribe_with_inv hub_new_inv)

lemma sample_hub_lists:
  "subs [9] sample_hub = [\<lparr>sub_id = 1, sub_sender = 1, sub_version = 3, sub_owed = False, sub_held = None\<rparr>,
    \<lparr>sub_id = 2, sub_sender = 2, sub_version = 3, sub_owed = False, sub_held = None\<rparr>]"
  "conns [8] sample_hub = [(2, 2)]"
  by (simp_all add: sample_hub_def hub_identify_def hub_subscribe_def subscribe_with_def subs_def conns_def set_subs_def hub_new_def Let_def)

lemma inj_unat: "inj (unat :: u64 \<Rightarrow> nat)"
  by (simp add: inj_def unsigned_word_eqI)

theorem fanout_isolated_witness:
  "let (out, ch, h) = fanout_frame [9] (FPush [5]) 1 1 (\<lambda>_. outbound_channel) sample_hub in
   ch 1 = outbound_channel \<and> frames_of (ob_queue (ch 2)) = [FPush [5]]"
proof -
  obtain out ch h where fan: "fanout_frame [9] (FPush [5]) 1 1 (\<lambda>_. outbound_channel) sample_hub = (out, ch, h)"
    by (cases "fanout_frame [9] (FPush [5]) 1 1 (\<lambda>_. outbound_channel) sample_hub")
  note iso = fanout_isolated [OF sample_hub_inv inj_unat fan]
  have "ch (unat (1 :: u64)) = outbound_channel"
    using iso by blast
  moreover have "ch (unat (2 :: u64)) = snd (try_queue outbound_channel (FPush [5]))"
    using iso by (simp add: sample_hub_lists fan_one_released fan_frame_def try_queue_def try_send_def permits_for_def
      queued_bytes_def FRAME_OVERHEAD_def outbound_channel_def SEND_QUEUE_BYTE_BUDGET_def SEND_QUEUE_BOUND_def)
  moreover have "frames_of (ob_queue (snd (try_queue outbound_channel (FPush [5])))) = [FPush [5]]"
    by (simp add: try_queue_def try_send_def permits_for_def queued_bytes_def FRAME_OVERHEAD_def
      outbound_channel_def SEND_QUEUE_BYTE_BUDGET_def SEND_QUEUE_BOUND_def)
  ultimately show ?thesis
    by (simp add: fan)
qed

theorem evict_reaches_every_socket_witness:
  "let (n, ch, h) = hub_evict [8] (\<lambda>_. outbound_channel) sample_hub in
   n = 1 \<and> ob_evicted (ch 2) \<and> \<not> registered 2 h \<and> ch 1 = outbound_channel"
proof -
  obtain n ch h where ev: "hub_evict [8] (\<lambda>_. outbound_channel) sample_hub = (n, ch, h)"
    by (cases "hub_evict [8] (\<lambda>_. outbound_channel) sample_hub")
  note all = evict_reaches_every_socket [OF sample_hub_inv inj_unat ev]
  have "(1 :: u64) \<notin> fst ` set (conns [8] sample_hub)"
    by (simp add: sample_hub_lists)
  then have "ch (unat (1 :: u64)) = outbound_channel"
    using all by blast
  moreover have "ob_evicted (ch (unat (2 :: u64)))" "\<not> registered 2 h" "n = 1"
    using all by (simp_all add: sample_hub_lists connections_for_def)
  ultimately show ?thesis
    by (simp add: ev)
qed

theorem hub_keeps_inv_witness:
  "hub_inv unat (snd (fold (hub_step unat) [OpSubscribeHolding [9] 1 3, OpSubscribe [9] 2 3, OpFanout [9] (FHandshake [9] 0 [1]) 2 1,
    OpRelease [9] 1 0, OpDisconnect 2] ((\<lambda>_. outbound_channel), hub_new)))"
  by (rule hub_keeps_inv [OF inj_unat prod.collapse [symmetric]])

end
