(* ===== verification/Handshake.thy ===== *)
theory Handshake
  imports Accept
begin

text \<open>
  The handshake log: \<open>src/backend/wealdrelay/src/handshake/mod.rs\<close>, its store \<open>handshake/store.rs\<close> and the table
  of migrations \<open>0005_handshake.sql\<close> and \<open>0017_handshake_log_budget.sql\<close>. An append locks its group's row, so
  two appends to a group never overlap and the transaction is one step; a statement may fail, which
  \<open>faults\<close> says, and a commit that reports failure may have taken effect. BLAKE3 is a parameter.
\<close>

subsection \<open>Bounds and content address\<close>

definition HS_GROUP_BYTES :: nat where "HS_GROUP_BYTES = 32"
definition MAX_MESSAGE_BYTES :: nat where "MAX_MESSAGE_BYTES = 512 * 1024"

record handshake =
  hs_group :: bytes
  hs_message :: bytes

datatype handshake_error = GroupWidth nat | HsEmpty | HsTooLarge nat

fun handshake_error_code :: "handshake_error \<Rightarrow> error_code" where
  "handshake_error_code (HsTooLarge _) = EnvelopeTooLarge"
| "handshake_error_code (GroupWidth _) = MalformedHeader"
| "handshake_error_code HsEmpty = MalformedHeader"

definition handshake_check :: "handshake \<Rightarrow> handshake_error + unit" where
  "handshake_check h =
    (if length (hs_group h) \<noteq> HS_GROUP_BYTES then Inl (GroupWidth (length (hs_group h)))
     else if hs_message h = [] then Inl HsEmpty
     else if length (hs_message h) > MAX_MESSAGE_BYTES then Inl (HsTooLarge (length (hs_message h)))
     else Inr ())"

definition handshake_hash :: "(bytes \<Rightarrow> bytes) \<Rightarrow> handshake \<Rightarrow> bytes" where
  "handshake_hash blake3 h = blake3 (hs_group h @ hs_message h)"

subsection \<open>The table\<close>

record handshake_row =
  hr_group :: bytes
  hr_seq :: int
  hr_message :: bytes
  hr_hash :: bytes

record hs_db =
  hs_base :: db
  hs_rows :: "handshake_row list"

definition hs_row_ok :: "handshake_row \<Rightarrow> bool" where
  "hs_row_ok r \<longleftrightarrow> length (hr_group r) = 32 \<and> 0 \<le> hr_seq r \<and> length (hr_hash r) = 32 \<and> hr_message r \<noteq> []"

definition hs_row_conflicts :: "handshake_row \<Rightarrow> handshake_row \<Rightarrow> bool" where
  "hs_row_conflicts r s \<longleftrightarrow> hr_group r = hr_group s \<and> (hr_seq r = hr_seq s \<or> hr_hash r = hr_hash s)"

definition rows_of :: "bytes \<Rightarrow> hs_db \<Rightarrow> handshake_row list" where
  "rows_of grp d = filter (\<lambda>r. hr_group r = grp) (hs_rows d)"

text \<open>An insert that violates a constraint is an error of the statement; a row that lands is charged to its
  workspace by the trigger.\<close>

definition insert_handshake :: "hs_db \<Rightarrow> handshake_row \<Rightarrow> hs_db option" where
  "insert_handshake d r =
    (if \<not> hs_row_ok r \<or> I64_MAX < hr_seq r \<or> db_groups (hs_base d) (hr_group r) = None \<or>
       (\<exists>s\<in>set (hs_rows d). hs_row_conflicts r s) then None
     else Some \<lparr>hs_base = charge_used (hs_base d) (hr_group r) (int (length (hr_message r))), hs_rows = hs_rows d @ [r]\<rparr>)"

definition hs_existing :: "hs_db \<Rightarrow> bytes \<Rightarrow> bytes \<Rightarrow> int option" where
  "hs_existing d grp hash = map_option hr_seq (find (\<lambda>r. hr_hash r = hash) (rows_of grp d))"

text \<open>\<open>coalesce(max(seq) + 1, 0)\<close>.\<close>

definition hs_next :: "hs_db \<Rightarrow> bytes \<Rightarrow> int" where
  "hs_next d grp = foldl (\<lambda>m r. max m (hr_seq r + 1)) 0 (rows_of grp d)"

subsection \<open>Appending\<close>

datatype hs_store_error = HsDatabase | HsRefused handshake_error | HsLogBudgetExhausted int

datatype appended = Appended u64 | AlreadyHeld u64

fun appended_seq :: "appended \<Rightarrow> u64" where
  "appended_seq (Appended s) = s"
| "appended_seq (AlreadyHeld s) = s"

datatype hs_call = HBegin | HLock | HRead | HInsert | HWorkspace | HBudget | HRollback | HCommit

record hs_faults =
  hf_fails :: "hs_call \<Rightarrow> bool"
  hf_commit_applied :: bool

definition hs_commit :: "hs_faults \<Rightarrow> hs_db \<Rightarrow> hs_db \<Rightarrow> int \<Rightarrow> hs_db \<times> (hs_store_error + appended)" where
  "hs_commit fl d d2 seq =
    (if hf_fails fl HCommit then (if hf_commit_applied fl then d2 else d, Inl HsDatabase)
     else (d2, Inr (Appended (as_u64 seq))))"

text \<open>The budget check on the state inside the transaction: the group's workspace, then its counter.\<close>

definition hs_within_budget :: "hs_faults \<Rightarrow> bytes \<Rightarrow> int option \<Rightarrow> hs_db \<Rightarrow> hs_db \<Rightarrow> int \<Rightarrow> hs_db \<times> (hs_store_error + appended)" where
  "hs_within_budget fl grp lim d d2 seq =
    (case lim of
       None \<Rightarrow> hs_commit fl d d2 seq
     | Some l \<Rightarrow>
       if hf_fails fl HWorkspace then (d, Inl HsDatabase)
       else case db_groups (hs_base d2) grp of
         None \<Rightarrow> hs_commit fl d d2 seq
       | Some g \<Rightarrow>
         if hf_fails fl HBudget then (d, Inl HsDatabase)
         else if over_budget (used_bytes (hs_base d2) (gr_workspace g)) 0 (Some l) then
           (if hf_fails fl HRollback then (d, Inl HsDatabase) else (d, Inl (HsLogBudgetExhausted l)))
         else hs_commit fl d d2 seq)"

definition append_within ::
    "(bytes \<Rightarrow> bytes) \<Rightarrow> hs_faults \<Rightarrow> handshake \<Rightarrow> int option \<Rightarrow> hs_db \<Rightarrow> hs_db \<times> (hs_store_error + appended)" where
  "append_within blake3 fl h lim d =
    (case handshake_check h of
       Inl e \<Rightarrow> (d, Inl (HsRefused e))
     | Inr _ \<Rightarrow>
       let hash = handshake_hash blake3 h in
       if hf_fails fl HBegin \<or> hf_fails fl HLock then (d, Inl HsDatabase)
       else if db_groups (hs_base d) (hs_group h) = None then (d, Inl HsDatabase)
       else if hf_fails fl HRead then (d, Inl HsDatabase)
       else case hs_existing d (hs_group h) hash of
         Some seq \<Rightarrow> (d, Inr (AlreadyHeld (as_u64 seq)))
       | None \<Rightarrow>
         let seq = hs_next d (hs_group h) in
         if hf_fails fl HInsert then (d, Inl HsDatabase)
         else case insert_handshake d \<lparr>hr_group = hs_group h, hr_seq = seq, hr_message = hs_message h, hr_hash = hash\<rparr> of
           None \<Rightarrow> (d, Inl HsDatabase)
         | Some d2 \<Rightarrow> hs_within_budget fl (hs_group h) lim d d2 seq)"

subsection \<open>Reading\<close>

record stored_message =
  sm_seq :: u64
  sm_message :: bytes

text \<open>\<open>select ... where group_id = $1 and seq >= $2 order by seq limit $3\<close>.\<close>

definition page_rows :: "hs_db \<Rightarrow> bytes \<Rightarrow> int \<Rightarrow> nat \<Rightarrow> handshake_row list" where
  "page_rows d grp from lim = take lim (sort_key hr_seq (filter (\<lambda>r. from \<le> hr_seq r) (rows_of grp d)))"

definition hs_page :: "hs_db \<Rightarrow> bytes \<Rightarrow> u64 \<Rightarrow> u32 option \<Rightarrow> stored_message list" where
  "hs_page d grp from_seq lim =
    map (\<lambda>r. \<lparr>sm_seq = as_u64 (hr_seq r), sm_message = hr_message r\<rparr>)
      (page_rows d grp (clamp_i64 from_seq) (unat (unwrap_or lim (- 1))))"

definition hs_since :: "hs_db \<Rightarrow> bytes \<Rightarrow> u64 \<Rightarrow> stored_message list" where
  "hs_since d grp from_seq = hs_page d grp from_seq None"

definition hs_head :: "hs_db \<Rightarrow> bytes \<Rightarrow> u64" where
  "hs_head d grp = as_u64 (hs_next d grp)"

subsection \<open>The log of one group\<close>

text \<open>The abstract log: the messages of a group, in the order they must be applied.\<close>

definition hs_log :: "hs_db \<Rightarrow> bytes \<Rightarrow> bytes list" where
  "hs_log d grp = map hr_message (rows_of grp d)"

text \<open>What the schema and \<open>append_within\<close> keep: the sequence of a group is dense from zero in the order of
  insertion, the address is that of the message and no message is held twice.\<close>

definition hs_ok :: "(bytes \<Rightarrow> bytes) \<Rightarrow> hs_db \<Rightarrow> bool" where
  "hs_ok blake3 d \<longleftrightarrow>
    (\<forall>grp. map hr_seq (rows_of grp d) = map int [0..<length (rows_of grp d)] \<and>
      length (rows_of grp d) \<le> 2 ^ 63 \<and> distinct (map hr_hash (rows_of grp d))) \<and>
    (\<forall>r\<in>set (hs_rows d). hs_row_ok r \<and> hr_hash r = blake3 (hr_group r @ hr_message r) \<and>
      (\<exists>g. db_groups (hs_base d) (hr_group r) = Some g))"

lemma hs_next_dense:
  assumes "map hr_seq (rows_of grp d) = map int [0..<length (rows_of grp d)]"
  shows "hs_next d grp = int (length (rows_of grp d))"
proof -
  have "map hr_seq xs = map int [0..<length xs] \<Longrightarrow> foldl (\<lambda>m r. max m (hr_seq r + 1)) 0 xs = int (length xs)" for xs
    by (induction xs rule: rev_induct) simp_all
  with assms show ?thesis
    by (simp add: hs_next_def)
qed

lemma rows_of_seq:
  assumes "map hr_seq xs = map int [0..<length xs]" "i < length xs"
  shows "hr_seq (xs ! i) = int i"
  using arg_cong [OF assms(1), of "\<lambda>l. l ! i"] assms(2) by simp

lemma rows_of_append [simp]:
  "rows_of grp \<lparr>hs_base = b, hs_rows = hs_rows d @ [r]\<rparr> = rows_of grp d @ (if hr_group r = grp then [r] else [])"
  by (simp add: rows_of_def)

lemma insert_handshake_Some:
  assumes "insert_handshake d r = Some d2"
  obtains "hs_row_ok r" "hr_seq r \<le> I64_MAX" "\<exists>g. db_groups (hs_base d) (hr_group r) = Some g"
    "\<And>s. s \<in> set (hs_rows d) \<Longrightarrow> \<not> hs_row_conflicts r s"
    "d2 = \<lparr>hs_base = charge_used (hs_base d) (hr_group r) (int (length (hr_message r))), hs_rows = hs_rows d @ [r]\<rparr>"
  using assms by (auto simp: insert_handshake_def split: if_splits)

lemma insert_handshake_ok:
  assumes ok: "hs_ok blake3 d"
    and ins: "insert_handshake d \<lparr>hr_group = grp, hr_seq = hs_next d grp, hr_message = m, hr_hash = blake3 (grp @ m)\<rparr> = Some d2"
  shows "hs_ok blake3 d2" "hs_log d2 g = hs_log d g @ (if g = grp then [m] else [])" "length (hs_log d grp) < 2 ^ 63"
proof -
  let ?r = "\<lparr>hr_group = grp, hr_seq = hs_next d grp, hr_message = m, hr_hash = blake3 (grp @ m)\<rparr>"
  have n: "hs_next d grp = int (length (rows_of grp d))"
    using ok by (auto simp: hs_ok_def intro: hs_next_dense)
  from ins obtain "hs_row_ok ?r" "hs_next d grp \<le> I64_MAX" "\<exists>g. db_groups (hs_base d) grp = Some g"
    and free: "\<And>s. s \<in> set (hs_rows d) \<Longrightarrow> \<not> hs_row_conflicts ?r s"
    and d2: "d2 = \<lparr>hs_base = charge_used (hs_base d) grp (int (length m)), hs_rows = hs_rows d @ [?r]\<rparr>"
    by (elim insert_handshake_Some) auto
  moreover have "blake3 (grp @ m) \<notin> hr_hash ` set (rows_of grp d)"
    using free by (auto simp: rows_of_def hs_row_conflicts_def)
  moreover have "length (rows_of grp d) < 2 ^ 63"
    using \<open>hs_next d grp \<le> I64_MAX\<close> by (simp add: n I64_MAX_def)
  ultimately show "hs_ok blake3 d2" "hs_log d2 g = hs_log d g @ (if g = grp then [m] else [])" "length (hs_log d grp) < 2 ^ 63"
    using ok by (auto simp: hs_ok_def n hs_log_def)
qed

lemma hs_existing_Some:
  assumes "hs_ok blake3 d" "hs_existing d grp hash = Some seq"
  shows "\<exists>i<length (hs_log d grp). seq = int i \<and> blake3 (grp @ hs_log d grp ! i) = hash"
proof -
  obtain i where i: "i < length (rows_of grp d)" "hr_hash (rows_of grp d ! i) = hash" "seq = hr_seq (rows_of grp d ! i)"
    using assms(2) by (auto simp: hs_existing_def find_Some_iff)
  then have "rows_of grp d ! i \<in> set (hs_rows d)" "hr_group (rows_of grp d ! i) = grp"
    using nth_mem [OF i(1)] by (simp_all add: rows_of_def)
  with i show ?thesis
    using assms(1) rows_of_seq [of "rows_of grp d" i] by (auto simp: hs_ok_def hs_log_def)
qed

lemma hs_within_budget_cases:
  assumes "hs_within_budget fl grp lim d d2 seq = (d', r)"
  obtains "d' = d2" "r = Inr (Appended (as_u64 seq))"
  | e where "d' = d" "r = Inl e"
  | "d' = d2" "r = Inl HsDatabase" "hf_fails fl HCommit" "hf_commit_applied fl"
  using assms by (auto simp: hs_within_budget_def hs_commit_def split: option.splits if_splits)

lemma append_cases:
  assumes "append_within blake3 fl h lim d = (d', r)"
  obtains e where "d' = d" "r = Inl e"
  | seq where "d' = d" "r = Inr (AlreadyHeld (as_u64 seq))" "hs_existing d (hs_group h) (handshake_hash blake3 h) = Some seq"
  | d2 where "insert_handshake d \<lparr>hr_group = hs_group h, hr_seq = hs_next d (hs_group h), hr_message = hs_message h,
      hr_hash = handshake_hash blake3 h\<rparr> = Some d2" "hs_within_budget fl (hs_group h) lim d d2 (hs_next d (hs_group h)) = (d', r)"
  using assms by (auto simp: append_within_def Let_def split: sum.splits option.splits if_splits)

lemma unat_as_u64_int: "n < 2 ^ 63 \<Longrightarrow> unat (as_u64 (int n)) = n"
  by (simp add: as_u64_def unsigned_of_nat take_bit_nat_eq_self_iff)

lemma append_effect:
  assumes ok: "hs_ok blake3 d" and app: "append_within blake3 fl h lim d = (d', r)"
  obtains (stored) s where "r = Inr (Appended s)" "hs_ok blake3 d'" "unat s = length (hs_log d (hs_group h))"
      "\<And>g. hs_log d' g = hs_log d g @ (if g = hs_group h then [hs_message h] else [])"
  | (held) s where "r = Inr (AlreadyHeld s)" "d' = d" "unat s < length (hs_log d (hs_group h))"
      "handshake_hash blake3 (h\<lparr>hs_message := hs_log d (hs_group h) ! unat s\<rparr>) = handshake_hash blake3 h"
  | (refused) e where "r = Inl e" "d' = d"
  | (unseen) e where "r = Inl e" "hf_fails fl HCommit" "hf_commit_applied fl" "hs_ok blake3 d'"
      "\<And>g. hs_log d' g = hs_log d g @ (if g = hs_group h then [hs_message h] else [])"
  using app
proof (cases rule: append_cases)
  case (2 seq)
  then obtain i where i: "i < length (hs_log d (hs_group h))" "seq = int i"
      "blake3 (hs_group h @ hs_log d (hs_group h) ! i) = handshake_hash blake3 h"
    using hs_existing_Some [OF ok] by blast
  moreover have "length (hs_log d (hs_group h)) \<le> 2 ^ 63"
    using ok by (simp add: hs_ok_def hs_log_def)
  ultimately show ?thesis
    using 2 held by (simp add: unat_as_u64_int handshake_hash_def)
next
  case (3 d2)
  note new = insert_handshake_ok [OF ok 3(1) [unfolded handshake_hash_def]]
  have n: "hs_next d (hs_group h) = int (length (hs_log d (hs_group h)))"
    using ok by (auto simp: hs_ok_def hs_log_def intro: hs_next_dense)
  from 3(2) show ?thesis
  proof (cases rule: hs_within_budget_cases)
    case 1
    then show ?thesis
      using stored new by (simp add: n unat_as_u64_int)
  qed (use refused unseen new in blast)+
qed (use refused in simp)

text \<open>A message the group holds is found again, at its position.\<close>

lemma hs_existing_held:
  assumes ok: "hs_ok blake3 d" and i: "i < length (hs_log d grp)"
  shows "hs_existing d grp (blake3 (grp @ hs_log d grp ! i)) = Some (int i)"
proof -
  let ?xs = "rows_of grp d" and ?h = "blake3 (grp @ hs_log d grp ! i)"
  have len: "i < length ?xs"
    using i by (simp add: hs_log_def)
  then have "?xs ! i \<in> set (hs_rows d)" "hr_group (?xs ! i) = grp"
    using nth_mem [OF len] by (simp_all add: rows_of_def)
  then have hash: "hr_hash (?xs ! i) = ?h"
    using ok len by (auto simp: hs_ok_def hs_log_def)
  obtain r where r: "find (\<lambda>r. hr_hash r = ?h) ?xs = Some r"
    using hash nth_mem [OF len] by (cases "find (\<lambda>r. hr_hash r = ?h) ?xs") (auto simp: find_None_iff)
  then obtain j where j: "j < length ?xs" "r = ?xs ! j" "hr_hash (?xs ! j) = ?h"
    by (auto simp: find_Some_iff)
  moreover have "distinct (map hr_hash ?xs)"
    using ok by (simp add: hs_ok_def)
  then have "j = i"
    using j hash len nth_eq_iff_index_eq [of "map hr_hash ?xs" j i] by simp
  ultimately show ?thesis
    using r rows_of_seq [of ?xs i] ok len by (simp add: hs_existing_def hs_ok_def)
qed

lemma append_resend:
  assumes "hs_ok blake3 d" "append_within blake3 fl h lim d = (d', r)"
    "i < length (hs_log d (hs_group h))" "hs_log d (hs_group h) ! i = hs_message h"
  shows "r = Inr (AlreadyHeld (of_nat i)) \<or>
    (\<exists>e. r = Inl e) \<and> (handshake_check h \<noteq> Inr () \<or> hf_fails fl HBegin \<or> hf_fails fl HLock \<or> hf_fails fl HRead)"
proof -
  let ?grp = "hs_group h"
  have "rows_of ?grp d ! i \<in> set (rows_of ?grp d)"
    using assms(3) by (simp add: hs_log_def)
  then have "db_groups (hs_base d) ?grp \<noteq> None"
    using assms(1) by (fastforce simp: hs_ok_def rows_of_def)
  moreover have "hs_existing d ?grp (handshake_hash blake3 h) = Some (int i)"
    using hs_existing_held [OF assms(1,3)] assms(4) by (simp add: handshake_hash_def)
  ultimately show ?thesis
    using assms(2) by (auto simp: append_within_def Let_def as_u64_def split: sum.splits if_splits)
qed

text \<open>C10. An append keeps the log of every group dense and in order under every database fault: a message that is
  acknowledged as stored is the last of its group and its number is its position; a resend of a message
  the group holds is answered with that message's position, unless the message is out of bounds or a
  statement up to the lookup fails; whatever is answered as held is held under that number; a refusal
  changes nothing unless the commit took effect unseen.\<close>

theorem append_outcome:
  assumes "hs_ok blake3 d" "append_within blake3 fl h lim d = (d', r)"
  shows "hs_ok blake3 d' \<and>
    (\<forall>i<length (hs_log d (hs_group h)). hs_log d (hs_group h) ! i = hs_message h \<longrightarrow>
       r = Inr (AlreadyHeld (of_nat i)) \<or>
       (\<exists>e. r = Inl e) \<and> (handshake_check h \<noteq> Inr () \<or> hf_fails fl HBegin \<or> hf_fails fl HLock \<or> hf_fails fl HRead)) \<and>
    (case r of
       Inr (Appended s) \<Rightarrow> unat s = length (hs_log d (hs_group h)) \<and>
         (\<forall>g. hs_log d' g = hs_log d g @ (if g = hs_group h then [hs_message h] else []))
     | Inr (AlreadyHeld s) \<Rightarrow> d' = d \<and> unat s < length (hs_log d (hs_group h)) \<and>
         handshake_hash blake3 (h\<lparr>hs_message := hs_log d (hs_group h) ! unat s\<rparr>) = handshake_hash blake3 h
     | Inl e \<Rightarrow> d' = d \<or> hf_fails fl HCommit \<and> hf_commit_applied fl \<and>
         (\<forall>g. hs_log d' g = hs_log d g @ (if g = hs_group h then [hs_message h] else [])))"
proof (intro conjI)
  show "\<forall>i<length (hs_log d (hs_group h)). hs_log d (hs_group h) ! i = hs_message h \<longrightarrow>
       r = Inr (AlreadyHeld (of_nat i)) \<or>
       (\<exists>e. r = Inl e) \<and> (handshake_check h \<noteq> Inr () \<or> hf_fails fl HBegin \<or> hf_fails fl HLock \<or> hf_fails fl HRead)"
    using append_resend [OF assms] by blast
qed (use assms(2,1) in \<open>cases rule: append_effect [OF assms]; auto\<close>)+

subsection \<open>The replay's pages\<close>

lemma page_rows_dense:
  assumes "map hr_seq xs = map int [0..<length xs]" "0 \<le> from"
  shows "sort_key hr_seq (filter (\<lambda>r. from \<le> hr_seq r) xs) = drop (nat from) xs"
proof -
  have seq: "hr_seq (xs ! i) = int i" if "i < length xs" for i
    using rows_of_seq [OF assms(1) that] .
  have "filter (\<lambda>r. from \<le> hr_seq r) (take (nat from) xs) = []"
    using seq by (auto simp: filter_empty_conv in_set_conv_nth)
  moreover have "filter (\<lambda>r. from \<le> hr_seq r) (drop (nat from) xs) = drop (nat from) xs"
    using seq assms(2) by (auto simp: filter_id_conv in_set_conv_nth)
  ultimately have "filter (\<lambda>r. from \<le> hr_seq r) xs = drop (nat from) xs"
    by (metis append_Nil append_take_drop_id filter_append)
  moreover have "sorted (map hr_seq (drop (nat from) xs))"
    using seq by (auto simp: sorted_iff_nth_mono)
  ultimately show ?thesis
    by (simp add: sort_key_id_if_sorted)
qed

lemma page_slice:
  assumes ok: "hs_ok blake3 d" and small: "unat from_seq < 2 ^ 63"
  shows "hs_page d grp from_seq lim =
    map (\<lambda>i. \<lparr>sm_seq = of_nat i, sm_message = hs_log d grp ! i\<rparr>)
      [unat from_seq..<min (length (hs_log d grp)) (unat from_seq + unat (unwrap_or lim (- 1)))]"
proof -
  let ?xs = "rows_of grp d" and ?n = "unat (unwrap_or lim (- 1 :: u32))"
  have seqs: "map hr_seq ?xs = map int [0..<length ?xs]"
    using ok by (simp add: hs_ok_def)
  have start: "clamp_i64 from_seq = int (unat from_seq)"
  proof -
    have "int (unat from_seq) < int (2 ^ 63)"
      using small by (simp only: of_nat_less_iff)
    then show ?thesis
      by (simp add: clamp_i64_def I64_MAX_def)
  qed
  have rows: "page_rows d grp (clamp_i64 from_seq) ?n = take ?n (drop (unat from_seq) ?xs)"
    by (simp add: page_rows_def start page_rows_dense [OF seqs])
  show ?thesis
    unfolding hs_page_def rows
    by (rule nth_equalityI) (auto simp: hs_log_def rows_of_seq [OF seqs] as_u64_def)
qed

text \<open>C11. A page of the replay is a slice of the group's log, in order and with nothing left out: the messages from
  the cursor on, as many as the limit allows, each with its position as its number.\<close>

theorem page_is_slice:
  assumes "hs_ok blake3 d" "unat from_seq < 2 ^ 63"
  shows "map sm_message (hs_page d grp from_seq lim) = take (unat (unwrap_or lim (- 1))) (drop (unat from_seq) (hs_log d grp)) \<and>
    (\<forall>i<length (hs_page d grp from_seq lim). unat (sm_seq (hs_page d grp from_seq lim ! i)) = unat from_seq + i)"
proof -
  have small: "length (hs_log d grp) \<le> 2 ^ 63"
    using assms(1) by (simp add: hs_ok_def hs_log_def)
  have nth: "[a..<b] ! i = a + i" if "i < b - a" for a b i :: nat
    using that by simp
  show ?thesis
    unfolding page_slice [OF assms]
    by (rule conjI, rule nth_equalityI) (use small in \<open>auto simp: nth unsigned_of_nat take_bit_nat_eq_self_iff simp del: nth_upt of_nat_add\<close>)
qed

subsection \<open>A log of two groups\<close>

definition sample_blake3 :: "bytes \<Rightarrow> bytes" where
  "sample_blake3 x = take 32 (rev x @ replicate 32 0)"

definition sample_group :: bytes where "sample_group = replicate 32 7"

definition sample_log :: hs_db where
  "sample_log =
    (let row = (\<lambda>i m. \<lparr>hr_group = sample_group, hr_seq = i, hr_message = m, hr_hash = sample_blake3 (sample_group @ m)\<rparr>) in
     \<lparr>hs_base = \<lparr>db_groups = [sample_group \<mapsto> \<lparr>gr_workspace = ''w'', gr_next_seq = 1, gr_frozen = None\<rparr>],
        db_envelopes = [], db_used = Map.empty\<rparr>,
      hs_rows = [row 0 [1], row 1 [2, 2], row 2 [3]]\<rparr>)"

lemma sample_log_ok: "hs_ok sample_blake3 sample_log"
  by (auto simp: hs_ok_def sample_group_def sample_log_def rows_of_def sample_blake3_def hs_row_ok_def Let_def upt_rec)

lemma sample_log_log: "hs_log sample_log sample_group = [[1], [2, 2], [3]]"
  by (simp add: hs_log_def rows_of_def sample_log_def Let_def)

theorem append_outcome_witness:
  "\<exists>d. append_within sample_blake3 \<lparr>hf_fails = \<lambda>_. False, hf_commit_applied = False\<rparr>
      \<lparr>hs_group = sample_group, hs_message = [2, 2]\<rparr> None sample_log = (d, Inr (AlreadyHeld 1)) \<and> hs_ok sample_blake3 d"
proof -
  define h where "h = \<lparr>hs_group = sample_group, hs_message = [2, 2]\<rparr>"
  define fl where "fl = \<lparr>hf_fails = \<lambda>_. False, hf_commit_applied = False\<rparr>"
  obtain d r where app: "append_within sample_blake3 fl h None sample_log = (d, r)"
    by (cases "append_within sample_blake3 fl h None sample_log")
  have "handshake_check h = Inr ()"
    by (simp add: h_def handshake_check_def sample_group_def HS_GROUP_BYTES_def MAX_MESSAGE_BYTES_def)
  moreover have "hs_log sample_log (hs_group h) = [[1], [2, 2], [3]]" "hs_message h = [2, 2]"
    by (simp_all add: h_def sample_log_log)
  ultimately have "hs_ok sample_blake3 d" "r = Inr (AlreadyHeld 1)"
    using append_outcome [OF sample_log_ok app] by (auto simp: fl_def dest: spec [where x = 1])
  then show ?thesis
    using app by (auto simp: fl_def h_def)
qed

theorem page_is_slice_witness:
  "map sm_message (hs_page sample_log sample_group 1 (Some 5)) = [[2, 2], [3]]"
  using page_is_slice [OF sample_log_ok, of 1 sample_group "Some 5"] by (simp add: sample_log_log unwrap_or_def)

end
