(* ===== verification/Replay.thy ===== *)
theory Replay
  imports Hub Handshake
begin

text \<open>
  Handshakes from the log to the members: the publication of \<open>ws::publish_handshake\<close>, the replay of
  \<open>sync::replay_handshakes\<close> and the hold of \<open>sync::subscribe\<close>, as the tasks of the connections interleave them. A
  connection's task runs one piece of work at a time and another task may run wherever the code awaits, so each
  stretch between two awaits is one step; \<open>wd_task\<close> is where a connection's task stands. \<open>home\<close> is the channel of a
  connection.
\<close>

subsection \<open>Tasks\<close>

definition HANDSHAKE_REPLAY_PAGE :: u32 where "HANDSHAKE_REPLAY_PAGE = of_nat SEND_QUEUE_BOUND"

datatype task =
    Idle
  | ReadPage bytes u64
  | Sending bytes u64 "frame list" bool
  | Releasing bytes u64 bool
  | Fanning handshake u64
  | Acking frame
  | Closing

record world =
  wd_log :: hs_db
  wd_ch :: channels
  wd_hub :: hub
  wd_task :: "connection_id \<Rightarrow> task"

definition set_task :: "connection_id \<Rightarrow> task \<Rightarrow> world \<Rightarrow> world" where
  "set_task c t w = w\<lparr>wd_task := (wd_task w)(c := t)\<rparr>"

definition set_channel :: "handle \<Rightarrow> outbound \<Rightarrow> world \<Rightarrow> world" where
  "set_channel k q w = w\<lparr>wd_ch := (wd_ch w)(k := q)\<rparr>"

text \<open>Queue one frame on a connection's own channel, and go on with the given task, or close when the queue takes none.\<close>

definition reply_then :: "(connection_id \<Rightarrow> handle) \<Rightarrow> connection_id \<Rightarrow> frame \<Rightarrow> task \<Rightarrow> world \<Rightarrow> world" where
  "reply_then home c f t w =
    (let (ok, q) = queue_all (wd_ch w (home c)) [f] in set_task c (if ok then t else Closing) (set_channel (home c) q w))"

subsection \<open>Subscribing and replaying\<close>

text \<open>\<open>subscribe\<close> up to the replay: the acknowledgement, then the registration that holds live handshakes back.\<close>

definition begin_subscribe :: "(connection_id \<Rightarrow> handle) \<Rightarrow> connection_id \<Rightarrow> bytes \<Rightarrow> u64 \<Rightarrow> u16 \<Rightarrow> world \<Rightarrow> world" where
  "begin_subscribe home c grp head v w =
    (let (ok, q) = queue_all (wd_ch w (home c)) [FSubAck grp head];
         w = set_channel (home c) q w in
     if ok then set_task c (ReadPage grp 0) (w\<lparr>wd_hub := subscribe_holding_handshakes grp c (home c) v (wd_hub w)\<rparr>)
     else set_task c Closing w)"

definition handshake_frame :: "bytes \<Rightarrow> stored_message \<Rightarrow> frame" where
  "handshake_frame grp m = FHandshake grp (sm_seq m) (sm_message m)"

definition read_page :: "(connection_id \<Rightarrow> handle) \<Rightarrow> connection_id \<Rightarrow> bool \<Rightarrow> bytes \<Rightarrow> u64 \<Rightarrow> world \<Rightarrow> world" where
  "read_page home c failed grp cursor w =
    (if failed then
       (let (ok, q) = queue_all (wd_ch w (home c)) [FError (new_error Backpressure)] in
        set_task c (Releasing grp cursor ok) (set_channel (home c) q w))
     else
       let messages = hs_page (wd_log w) grp cursor (Some HANDSHAKE_REPLAY_PAGE) in
       if messages = [] then set_task c (Releasing grp cursor True) w
       else set_task c (Sending grp (saturating_add (sm_seq (last messages)) 1) (map (handshake_frame grp) messages)
              (length messages < unat HANDSHAKE_REPLAY_PAGE)) w)"

text \<open>One frame of \<open>queue_all_awaiting\<close>: the task waits until the frame fits.\<close>

definition send_next :: "(connection_id \<Rightarrow> handle) \<Rightarrow> connection_id \<Rightarrow> bytes \<Rightarrow> u64 \<Rightarrow> frame list \<Rightarrow> bool \<Rightarrow> world \<Rightarrow> world" where
  "send_next home c grp cursor pending short w =
    (case pending of
       [] \<Rightarrow> set_task c (if short then Releasing grp cursor True else ReadPage grp cursor) w
     | f # fs \<Rightarrow>
       (case try_queue (wd_ch w (home c)) f of
          (Sent, q) \<Rightarrow> set_task c (Sending grp cursor fs short) (set_channel (home c) q w)
        | _ \<Rightarrow> w))"

definition release :: "connection_id \<Rightarrow> bytes \<Rightarrow> u64 \<Rightarrow> bool \<Rightarrow> world \<Rightarrow> world" where
  "release c grp cursor ok w =
    (let (ch, h) = release_handshakes grp c cursor (wd_ch w) (wd_hub w) in
     set_task c (if ok then Idle else Closing) (w\<lparr>wd_ch := ch, wd_hub := h\<rparr>))"

subsection \<open>Publishing\<close>

definition hs_refusal :: "hs_store_error \<Rightarrow> error_code" where
  "hs_refusal e = (case e of HsRefused e \<Rightarrow> handshake_error_code e | HsDatabase \<Rightarrow> Backpressure | HsLogBudgetExhausted _ \<Rightarrow> LogBudgetExhausted)"

definition begin_publish ::
    "(bytes \<Rightarrow> bytes) \<Rightarrow> (connection_id \<Rightarrow> handle) \<Rightarrow> connection_id \<Rightarrow> handshake \<Rightarrow> hs_faults \<Rightarrow> int option \<Rightarrow> world \<Rightarrow> world" where
  "begin_publish blake3 home c h fl lim w =
    (let (d, r) = append_within blake3 fl h lim (wd_log w);
         w = w\<lparr>wd_log := d\<rparr> in
     case r of
       Inr ap \<Rightarrow> set_task c (Fanning h (appended_seq ap)) w
     | Inl e \<Rightarrow> reply_then home c (FError (new_error (hs_refusal e))) Idle w)"

definition fan_published :: "connection_id \<Rightarrow> handshake \<Rightarrow> u64 \<Rightarrow> world \<Rightarrow> world" where
  "fan_published c h seq w =
    (let f = FHandshake (hs_group h) seq (hs_message h);
         (_, ch, hub) = fanout_frame (hs_group h) f c MIN_FANOUT_VERSION (wd_ch w) (wd_hub w) in
     set_task c (Acking f) (w\<lparr>wd_ch := ch, wd_hub := hub\<rparr>))"

subsection \<open>The steps\<close>

datatype world_op =
    WSubscribe connection_id bytes u64 u16
  | WReadPage connection_id bool
  | WSend connection_id
  | WTimeout connection_id
  | WRelease connection_id
  | WPublish connection_id handshake hs_faults "int option"
  | WFan connection_id
  | WAck connection_id
  | WReply connection_id frame
  | WClose connection_id
  | WWriter connection_id
  | WFanout bytes frame connection_id u16
  | WSettle "bytes list"
  | WEvict bytes

fun world_step :: "(bytes \<Rightarrow> bytes) \<Rightarrow> (connection_id \<Rightarrow> handle) \<Rightarrow> world_op \<Rightarrow> world \<Rightarrow> world" where
  "world_step blake3 home (WSubscribe c grp head v) w = (if wd_task w c = Idle then begin_subscribe home c grp head v w else w)"
| "world_step blake3 home (WReadPage c failed) w = (case wd_task w c of ReadPage grp k \<Rightarrow> read_page home c failed grp k w | _ \<Rightarrow> w)"
| "world_step blake3 home (WSend c) w = (case wd_task w c of Sending grp k fs short \<Rightarrow> send_next home c grp k fs short w | _ \<Rightarrow> w)"
| "world_step blake3 home (WTimeout c) w =
    (case wd_task w c of Sending grp k fs short \<Rightarrow> if fs \<noteq> [] then set_task c (Releasing grp k False) w else w | _ \<Rightarrow> w)"
| "world_step blake3 home (WRelease c) w = (case wd_task w c of Releasing grp k ok \<Rightarrow> release c grp k ok w | _ \<Rightarrow> w)"
| "world_step blake3 home (WPublish c h fl lim) w = (if wd_task w c = Idle then begin_publish blake3 home c h fl lim w else w)"
| "world_step blake3 home (WFan c) w = (case wd_task w c of Fanning h n \<Rightarrow> fan_published c h n w | _ \<Rightarrow> w)"
| "world_step blake3 home (WAck c) w = (case wd_task w c of Acking f \<Rightarrow> reply_then home c f Idle w | _ \<Rightarrow> w)"
| "world_step blake3 home (WReply c f) w = (if wd_task w c = Idle then reply_then home c f Idle w else w)"
| "world_step blake3 home (WClose c) w =
    (if wd_task w c \<in> {Idle, Closing} then set_task c Idle (w\<lparr>wd_hub := hub_disconnect c (wd_hub w)\<rparr>) else w)"
| "world_step blake3 home (WWriter c) w = set_channel (home c) (snd (try_recv (wd_ch w (home c)))) w"
| "world_step blake3 home (WFanout grp f except v) w =
    (let (_, ch, h) = fanout_frame grp f except v (wd_ch w) (wd_hub w) in w\<lparr>wd_ch := ch, wd_hub := h\<rparr>)"
| "world_step blake3 home (WSettle order) w =
    (let (_, ch, h) = settle_downgrades (known_groups order (wd_hub w)) (wd_ch w) (wd_hub w) in w\<lparr>wd_ch := ch, wd_hub := h\<rparr>)"
| "world_step blake3 home (WEvict e) w =
    (let (_, ch, h) = hub_evict e (wd_ch w) (wd_hub w) in w\<lparr>wd_ch := ch, wd_hub := h\<rparr>)"

subsection \<open>What a member hears\<close>

fun hs_seqs :: "bytes \<Rightarrow> frame list \<Rightarrow> nat list" where
  "hs_seqs grp [] = []"
| "hs_seqs grp (FHandshake g n m # fs) = (if g = grp then unat n # hs_seqs grp fs else hs_seqs grp fs)"
| "hs_seqs grp (_ # fs) = hs_seqs grp fs"

text \<open>The numbers of the group's handshakes a step queues for a connection, and those it was queued since it last
  subscribed.\<close>

definition heard :: "(connection_id \<Rightarrow> handle) \<Rightarrow> bytes \<Rightarrow> connection_id \<Rightarrow> world \<Rightarrow> world \<Rightarrow> nat list" where
  "heard home grp c w w' = hs_seqs grp (newly_queued (wd_ch w (home c)) (wd_ch w' (home c)))"

fun subscribes_anew :: "bytes \<Rightarrow> connection_id \<Rightarrow> world_op \<Rightarrow> world \<Rightarrow> bool" where
  "subscribes_anew grp c (WSubscribe c' g _ _) w \<longleftrightarrow> c' = c \<and> g = grp \<and> wd_task w c = Idle \<and> \<not> hub_holds grp c (wd_hub w)"
| "subscribes_anew grp c _ w \<longleftrightarrow> False"

fun member_run :: "(bytes \<Rightarrow> bytes) \<Rightarrow> (connection_id \<Rightarrow> handle) \<Rightarrow> bytes \<Rightarrow> connection_id \<Rightarrow> world_op list \<Rightarrow> world \<Rightarrow> nat list \<Rightarrow>
    nat list \<times> world" where
  "member_run blake3 home grp c [] w s = (s, w)"
| "member_run blake3 home grp c (op # ops) w s =
    (let w' = world_step blake3 home op w in
     member_run blake3 home grp c ops w' ((if subscribes_anew grp c op w then [] else s) @ heard home grp c w w'))"

text \<open>A member applies the handshakes in order: a number it has passed is one it discards, the next one advances it, and
  one beyond that cannot be processed.\<close>

fun apply_commits :: "nat \<Rightarrow> nat list \<Rightarrow> nat option" where
  "apply_commits e [] = Some e"
| "apply_commits e (n # ns) = (if n < e then apply_commits e ns else if n = e then apply_commits (e + 1) ns else None)"

lemma apply_commits_append:
  "apply_commits e (ns @ ms) = (case apply_commits e ns of None \<Rightarrow> None | Some e' \<Rightarrow> apply_commits e' ms)"
  by (induction e ns rule: apply_commits.induct) auto

lemma hs_seqs_append [simp]: "hs_seqs grp (fs @ gs) = hs_seqs grp fs @ hs_seqs grp gs"
  by (induction grp fs rule: hs_seqs.induct) auto

lemma hs_seqs_other [simp]: "\<not> undowngradable f \<Longrightarrow> hs_seqs grp (f # fs) = hs_seqs grp fs"
  by (cases f) (auto simp: undowngradable_def)

lemma not_undowngradable [simp]: "\<not> undowngradable (downgrade_frame grp)" "\<not> undowngradable (FSubAck g n)" "\<not> undowngradable (FError e)"
  by (simp_all add: undowngradable_def downgrade_frame_def)

subsection \<open>What each operation queues\<close>

text \<open>A channel only ever grows by the frames that are queued, between two drains.\<close>

definition adds :: "outbound \<Rightarrow> outbound \<Rightarrow> frame list \<Rightarrow> bool" where
  "adds q q' fs \<longleftrightarrow> ob_queue q' = ob_queue q @ map OutFrame fs"

lemma adds_newly: "adds q q' fs \<Longrightarrow> newly_queued q q' = fs"
  by (simp add: adds_def newly_queued_def)

lemma adds_refl [simp]: "adds q q []"
  by (simp add: adds_def)

lemma adds_trans: "adds q q1 fs \<Longrightarrow> adds q1 q2 gs \<Longrightarrow> adds q q2 (fs @ gs)"
  by (simp add: adds_def)

lemma adds_evict [simp]: "adds q (ob_evict q') fs = adds q q' fs"
  by (simp add: adds_def ob_evict_def)

lemma try_queue_adds: "try_queue q f = (r, q') \<Longrightarrow> adds q q' (if r = Sent then [f] else [])"
  by (auto simp: try_queue_def try_send_def adds_def Let_def split: if_splits)

lemma reply_newly: "queue_all q [f] = (ok, q') \<Longrightarrow> newly_queued q q' = (if ok then [f] else [])"
  by (auto simp: queue_all_def dest: try_queue_newly split: prod.splits queued.splits)

lemma recv_newly [simp]: "newly_queued q (snd (try_recv q)) = []"
  by (auto simp: try_recv_def newly_queued_def ob_release_def split: list.splits outbound_msg.splits)

lemma close_newly [simp]: "newly_queued q (snd (ob_close q)) = []" "newly_queued q (snd (ob_close (ob_evict q))) = []"
  by (auto simp: ob_close_def try_send_def newly_queued_def ob_evict_def Let_def)

lemma fan_frame_adds:
  assumes "fan_frame f q s = (d, q', s', b)"
  shows "adds q q' (if d = DSent then [f] else [])" "sub_held s' = sub_held s"
proof -
  obtain r q1 where r: "try_queue q f = (r, q1)" by (cases "try_queue q f")
  show "adds q q' (if d = DSent then [f] else [])" "sub_held s' = sub_held s"
    using assms r try_queue_adds [OF r] by (auto simp: fan_frame_def split: queued.splits if_splits)
qed

text \<open>A frame reaches the channel, or is held, or is not sent; a notice may precede it.\<close>

lemma fan_one_adds:
  assumes "fan_one grp f v q s = (d, q', s', b)"
  obtains (held) held where "undowngradable f" "sub_held s = Some held" "d = DSent" "sub_held s' = Some (held @ [f])" "adds q q' []"
  | (passed) fs where "sub_held s' = sub_held s" "\<forall>g\<in>set fs. \<not> undowngradable g" "adds q q' (fs @ (if d = DSent then [f] else []))"
      "undowngradable f \<Longrightarrow> sub_held s \<noteq> None \<Longrightarrow> d \<noteq> DSent"
proof (cases "sub_version s < v \<or> undowngradable f \<and> sub_held s \<noteq> None")
  case True
  then show thesis
    using assms held passed [of "[]"] by (auto simp: fan_one_def split: if_splits)
next
  case False
  then have eq: "fan_one grp f v q s = (if sub_owed s then
       (case try_queue q (downgrade_frame grp) of
          (Sent, q) \<Rightarrow> fan_frame f q (s\<lparr>sub_owed := False\<rparr>)
        | (Full, q) \<Rightarrow> if undowngradable f then (DGone, ob_evict q, s, False) else (Downgraded, q, s, False)
        | (Closed, q) \<Rightarrow> (DGone, q, s, False))
     else fan_frame f q s)"
    by (auto simp: fan_one_def split: bool.splits option.splits)
  obtain r q1 where r: "try_queue q (downgrade_frame grp) = (r, q1)" by (cases "try_queue q (downgrade_frame grp)")
  show thesis
  proof (cases "sub_owed s \<and> r = Sent")
    case True
    then have f: "fan_frame f q1 (s\<lparr>sub_owed := False\<rparr>) = (d, q', s', b)"
      using assms eq r by simp
    show thesis
      by (rule passed [of "[downgrade_frame grp]"])
        (use fan_frame_adds [OF f] try_queue_adds [OF r] adds_trans True False in force)+
  next
    case no: False
    show thesis
    proof (cases "sub_owed s")
      case True
      then show thesis
        using passed [of "[]"] assms eq r no try_queue_adds [OF r] False by (cases r) (auto split: if_splits)
    next
      case False
      then have f: "fan_frame f q s = (d, q', s', b)"
        using assms eq by simp
      show thesis
        by (rule passed [of "[]"]) (use fan_frame_adds [OF f] \<open>\<not> (sub_version s < v \<or> undowngradable f \<and> sub_held s \<noteq> None)\<close> in auto)
    qed
  qed
qed

lemma hs_seqs_none: "\<forall>g\<in>set fs. \<not> undowngradable g \<Longrightarrow> hs_seqs grp fs = []"
  by (induction fs) auto

lemma hs_seqs_others: "hs_seqs grp [f] = [] \<Longrightarrow> \<forall>g\<in>set fs. \<not> undowngradable g \<or> g = f \<Longrightarrow> hs_seqs grp fs = []"
proof (induction fs)
  case (Cons g fs)
  have "hs_seqs grp (g # fs) = hs_seqs grp [g] @ hs_seqs grp fs"
    using hs_seqs_append [of grp "[g]" fs] by simp
  moreover have "hs_seqs grp [g] = []"
    using Cons.prems by auto
  ultimately show ?case
    using Cons by simp
qed simp

lemma fan_one_quiet:
  assumes "fan_one g f v q s = (d, q', s', b)" "hs_seqs grp [f] = []"
  shows "hs_seqs grp (newly_queued q q') = []"
  using assms(1)
proof (cases rule: fan_one_adds)
  case (passed fs)
  have "hs_seqs grp (fs @ (if d = DSent then [f] else [])) = []"
    by (rule hs_seqs_others [OF assms(2)]) (use passed(2) in auto)
  then show ?thesis
    using adds_newly [OF passed(3)] by simp
qed (auto dest: adds_newly)

lemma fan_one_held:
  "fan_one g f v q s = (d, q', s', b) \<Longrightarrow> \<not> undowngradable f \<Longrightarrow> sub_held s' = sub_held s"
  by (elim fan_one_adds) auto

lemma fan_handshake:
  assumes fan: "fan_one grp f v q s = (d, q', s', b)" and f: "f = FHandshake grp n m" and v: "v \<le> sub_version s"
  shows "d = DSent \<or> d = DGone"
    "d = DSent \<Longrightarrow> sub_held s = None \<Longrightarrow> hs_seqs grp (newly_queued q q') = [unat n] \<and> sub_held s' = None"
    "d = DSent \<Longrightarrow> sub_held s = Some held \<Longrightarrow> hs_seqs grp (newly_queued q q') = [] \<and> sub_held s' = Some (held @ [f])"
proof -
  have u: "undowngradable f" "\<not> is_ephemeral f"
    by (simp_all add: f undowngradable_def is_ephemeral_def)
  show "d = DSent \<or> d = DGone"
    using fan u v by (auto simp: fan_one_def fan_frame_def split: if_splits option.splits prod.splits queued.splits)
  show "hs_seqs grp (newly_queued q q') = [unat n] \<and> sub_held s' = None" if "d = DSent" "sub_held s = None"
    using fan that
  proof (cases rule: fan_one_adds)
    case (passed fs)
    then show ?thesis
      using that adds_newly [OF passed(3)] hs_seqs_none [OF passed(2)] by (simp add: f)
  qed simp
  show "hs_seqs grp (newly_queued q q') = [] \<and> sub_held s' = Some (held @ [f])" if "d = DSent" "sub_held s = Some held"
    using fan that u by (cases rule: fan_one_adds) (auto dest: adds_newly)
qed

subsubsection \<open>The registry as one member sees it\<close>

lemma fanout_members:
  assumes inv: "hub_inv home h" "inj home" and fan: "fanout_frame g f except v ch h = (out, ch', h')" and s': "s' \<in> set (subs grp h')"
  shows "\<exists>s\<in>set (subs grp h). sub_id s = sub_id s' \<and>
    (if grp = g \<and> sub_id s \<noteq> except then fst (fan_at g f v ch s) \<noteq> DGone \<and> s' = fst (snd (snd (fan_at g f v ch s))) else s' = s)"
proof (cases "Mapping.lookup (hub_groups h) g")
  case (Some xs)
  obtain a b where h': "h' = fold hub_disconnect (gone_ids out) ((set_subs g (fanned_subs g f except v ch xs) h)\<lparr>hub_downgrades := a, hub_shed := b\<rparr>)"
    using fanout_eqs(3) [OF inv fan Some] by blast
  have xs: "subs g h = xs"
    using Some by (simp add: subs_def)
  show ?thesis
  proof (cases "grp = g")
    case True
    then obtain s where s: "s \<in> set xs" "s' = (if sub_id s = except then s else fst (snd (snd (fan_at g f v ch s))))" and live: "sub_id s' \<notin> ended out"
      using s' by (auto simp: h' disconnect_all fanned_subs_def)
    have "sub_id s' = sub_id s"
      using s(2) by (simp add: fan_at_keeps)
    moreover have "fst (fan_at g f v ch s) \<noteq> DGone" if "sub_id s \<noteq> except"
      using fanout_subscriber(1) [OF inv fan, of s] s(1) that live \<open>sub_id s' = sub_id s\<close> by (auto simp: xs ended_def)
    ultimately show ?thesis
      using s True by (auto simp: xs intro!: bexI [of _ s])
  qed (use s' in \<open>auto simp: h' disconnect_all\<close>)
next
  case None
  then have "h' = h"
    using fan by (simp add: fanout_frame_def)
  moreover have "grp \<noteq> g"
    using None s' \<open>h' = h\<close> by (auto simp: subs_def)
  ultimately show ?thesis
    using s' by auto
qed

lemma fanout_channel:
  assumes inv: "hub_inv home h" "inj home" and fan: "fanout_frame g f except v ch h = (out, ch', h')"
  shows "ch' (home c) = ch (home c) \<or> (\<exists>s\<in>set (subs g h). sub_id s = c \<and> c \<noteq> except \<and> ch' (home c) = fst (snd (fan_at g f v ch s)))"
  using fanout_rest(3) [OF assms, of c] fanout_subscriber(2) [OF assms] by auto

lemma fanout_quiet:
  assumes "hub_inv home h" "inj home" "fanout_frame g f except v ch h = (out, ch', h')" "hs_seqs grp [f] = []"
  shows "hs_seqs grp (newly_queued (ch (home c)) (ch' (home c))) = []"
proof -
  have "hs_seqs grp (newly_queued (ch (home c)) (fst (snd (fan_at g f v ch s)))) = []" if "s \<in> set (subs g h)" "sub_id s = c" for s
    using fan_one_quiet [of g f v "ch (sub_sender s)" s _ _ _ _ grp] assms(4) hub_inv_subs(2) [OF assms(1) that(1)] that(2)
    by (cases "fan_at g f v ch s") simp
  then show ?thesis
    using fanout_channel [OF assms(1-3), of c] by auto
qed

lemma settle_one_adds:
  assumes "settle_one grp q s = (q', s', paid)"
  shows "\<exists>fs. adds q q' fs \<and> (\<forall>f\<in>set fs. \<not> undowngradable f)" "sub_id s' = sub_id s" "sub_held s' = sub_held s"
    "sub_version s' = sub_version s"
proof -
  obtain r q1 where r: "try_queue q (downgrade_frame grp) = (r, q1)" by (cases "try_queue q (downgrade_frame grp)")
  show "\<exists>fs. adds q q' fs \<and> (\<forall>f\<in>set fs. \<not> undowngradable f)"
    by (rule exI [of _ "if sub_owed s \<and> r = Sent then [downgrade_frame grp] else []"])
      (use assms r try_queue_adds [OF r] in \<open>auto simp: settle_one_def split: if_splits queued.splits\<close>)
  show "sub_id s' = sub_id s" "sub_held s' = sub_held s" "sub_version s' = sub_version s"
    using assms r by (auto simp: settle_one_def split: if_splits queued.splits)
qed

definition grows_quietly :: "channels \<Rightarrow> channels \<Rightarrow> bool" where
  "grows_quietly ch ch' \<longleftrightarrow> (\<forall>k. \<exists>fs. adds (ch k) (ch' k) fs \<and> (\<forall>f\<in>set fs. \<not> undowngradable f))"

lemma grows_quietly_refl [simp]: "grows_quietly ch ch"
  unfolding grows_quietly_def by (metis adds_refl empty_iff list.set(1))

lemma grows_quietly_trans:
  assumes "grows_quietly ch ch1" "grows_quietly ch1 ch2"
  shows "grows_quietly ch ch2"
  unfolding grows_quietly_def
proof
  fix k
  obtain fs gs where "adds (ch k) (ch1 k) fs" "adds (ch1 k) (ch2 k) gs" "\<forall>f\<in>set (fs @ gs). \<not> undowngradable f"
    using assms by (metis grows_quietly_def set_append Un_iff)
  then show "\<exists>fs. adds (ch k) (ch2 k) fs \<and> (\<forall>f\<in>set fs. \<not> undowngradable f)"
    using adds_trans by blast
qed

lemma grows_quietly_upd:
  "\<exists>fs. adds (ch k) q fs \<and> (\<forall>f\<in>set fs. \<not> undowngradable f) \<Longrightarrow> grows_quietly ch (ch(k := q))"
  using grows_quietly_refl [of ch] unfolding grows_quietly_def by (metis fun_upd_apply)

lemma grows_quietly_seqs: "grows_quietly ch ch' \<Longrightarrow> hs_seqs grp (newly_queued (ch k) (ch' k)) = []"
  unfolding grows_quietly_def by (metis adds_newly hs_seqs_none)

definition same_member :: "subscriber \<Rightarrow> subscriber \<Rightarrow> bool" where
  "same_member s s' \<longleftrightarrow> sub_id s' = sub_id s \<and> sub_held s' = sub_held s \<and> sub_version s' = sub_version s"

lemma settle_subs_quiet:
  "settle_subs grp ch xs = (n, ch', xs') \<Longrightarrow> grows_quietly ch ch' \<and> (\<forall>s'\<in>set xs'. \<exists>s\<in>set xs. same_member s s')"
proof (induction xs arbitrary: ch n ch' xs')
  case (Cons s xs)
  obtain q s1 paid where one: "settle_one grp (ch (sub_sender s)) s = (q, s1, paid)" by (cases "settle_one grp (ch (sub_sender s)) s")
  obtain m ch2 xs2 where rest: "settle_subs grp (ch(sub_sender s := q)) xs = (m, ch2, xs2)"
    by (cases "settle_subs grp (ch(sub_sender s := q)) xs")
  have "ch' = ch2" "xs' = s1 # xs2"
    using Cons.prems one rest by auto
  moreover have "grows_quietly ch ch2"
    using Cons.IH [OF rest] grows_quietly_upd [of ch "sub_sender s" q] settle_one_adds(1) [OF one] grows_quietly_trans by blast
  moreover have "\<exists>t\<in>set xs. same_member t s'" if "s' \<in> set xs2" for s'
    using Cons.IH [OF rest] that by blast
  moreover have "same_member s s1"
    using settle_one_adds(2-4) [OF one] by (simp add: same_member_def)
  ultimately show ?case
    by auto
qed simp

lemma same_member_trans: "same_member s t \<Longrightarrow> same_member t u \<Longrightarrow> same_member s u"
  by (simp add: same_member_def)

lemma same_member_refl [simp]: "same_member s s"
  by (simp add: same_member_def)

lemma settle_quiet:
  "settle_downgrades order ch h = (n, ch', h') \<Longrightarrow>
    grows_quietly ch ch' \<and> (\<forall>g. \<forall>s'\<in>set (subs g h'). \<exists>s\<in>set (subs g h). same_member s s')"
proof (induction order arbitrary: ch h n)
  case (Cons grp order)
  obtain n1 ch1 xs where one: "settle_subs grp ch (subs grp h) = (n1, ch1, xs)" by (cases "settle_subs grp ch (subs grp h)")
  obtain n2 where rest: "settle_downgrades order ch1 (set_subs grp xs h) = (n2, ch', h')"
    using Cons.prems one by (auto simp: Let_def split: prod.splits)
  note one' = settle_subs_quiet [OF one] and rest' = Cons.IH [OF rest]
  have "\<exists>s\<in>set (subs g h). same_member s s'" if s': "s' \<in> set (subs g h')" for g s'
  proof -
    obtain t where t: "t \<in> set (subs g (set_subs grp xs h))" "same_member t s'"
      using rest' s' by blast
    then obtain s where "s \<in> set (subs g h)" "same_member s t"
      using one' by (cases "g = grp") auto
    then show ?thesis
      using t(2) same_member_trans by blast
  qed
  then show ?case
    using one' rest' grows_quietly_trans by blast
qed (auto intro: same_member_refl)

text \<open>The numbers \<open>release_handshakes\<close> lets through: those the replay did not cover, each past the last.\<close>

fun let_through :: "nat \<Rightarrow> nat list \<Rightarrow> nat list" where
  "let_through k [] = []"
| "let_through k (n # ns) = (if n < k then let_through k ns else n # let_through (n + 1) ns)"

lemma unat_succ: "unat (n :: u64) < 2 ^ 63 \<Longrightarrow> unat (saturating_add n 1) = unat n + 1"
  by (simp add: unat_saturating_add)

lemma release_loop_adds:
  assumes "release_loop k held q = (ev, q')" "\<forall>f\<in>set held. \<exists>n m. f = FHandshake grp n m \<and> unat n < 2 ^ 63"
  shows "\<exists>fs. adds q q' fs \<and> (\<forall>f\<in>set fs. f \<in> set held) \<and> (\<not> ev \<longrightarrow> hs_seqs grp fs = let_through (unat k) (hs_seqs grp held))"
  using assms
proof (induction held arbitrary: k q)
  case (Cons f held)
  then obtain n m where f: "f = FHandshake grp n m" "unat n < 2 ^ 63"
    by auto
  obtain r q1 where r: "try_queue q f = (r, q1)" by (cases "try_queue q f")
  show ?case
  proof (cases "n < k")
    case True
    then show ?thesis
      using Cons.IH [of k q] Cons.prems f by (fastforce simp: word_less_nat_alt)
  next
    case False
    show ?thesis
    proof (cases "r = Sent")
      case True
      then obtain fs where "adds q1 q' fs" "\<forall>f\<in>set fs. f \<in> set held" "\<not> ev \<longrightarrow> hs_seqs grp fs = let_through (unat n + 1) (hs_seqs grp held)"
        using Cons.IH [of "saturating_add n 1" q1] Cons.prems f(1) False r unat_succ [OF f(2)] by auto
      then show ?thesis
        using adds_trans [OF try_queue_adds [OF r, unfolded True, simplified]] False f
        by (intro exI [of _ "f # fs"]) (auto simp: word_less_nat_alt)
    next
      case no: False
      then have "q' = ob_evict q1" "ev"
        using Cons.prems f False r by (cases r; auto)+
      then show ?thesis
        using try_queue_adds [OF r] no by auto
    qed
  qed
qed auto

lemma release_channels:
  assumes inv: "hub_inv home h" "inj home" and rel: "release_handshakes g c k ch h = (ch', h')" and c': "c' \<noteq> c"
  shows "ch' (home c') = ch (home c')"
proof -
  have "home c' \<noteq> sub_sender s" if "find (\<lambda>s. sub_id s = c) (subs g h) = Some s" for s
    using find_SomeD [OF that] hub_inv_subs(2) [OF inv(1), of s g] inj_eq [OF inv(2)] c' by auto
  then show ?thesis
    using rel by (auto simp: release_handshakes_def Let_def split: option.splits prod.splits)
qed

lemma clear_held_other: "s' \<in> set (clear_held c xs) \<Longrightarrow> sub_id s' \<noteq> c \<Longrightarrow> s' \<in> set xs"
  by (induction xs) (auto split: if_splits)

lemma clear_held_own:
  "distinct (map sub_id xs) \<Longrightarrow> s' \<in> set (clear_held c xs) \<Longrightarrow> sub_id s' = c \<Longrightarrow>
    \<exists>s. find (\<lambda>s. sub_id s = c) xs = Some s \<and> s' = s\<lparr>sub_held := None\<rparr>"
  by (induction xs) (auto split: if_splits)

lemma release_members:
  assumes inv: "hub_inv home h" and rel: "release_handshakes g c k ch h = (ch', h')" and s': "s' \<in> set (subs grp h')"
  shows "s' \<in> set (subs grp h) \<and> \<not> (grp = g \<and> sub_id s' = c \<and> sub_held s' \<noteq> None) \<or>
    grp = g \<and> sub_id s' = c \<and> (\<exists>s held q. s \<in> set (subs g h) \<and> sub_held s = Some held \<and> s' = s\<lparr>sub_held := None\<rparr> \<and>
      release_loop k held (ch (home c)) = (False, q) \<and> ch' (home c) = q)"
proof (cases "find (\<lambda>s. sub_id s = c) (subs g h)")
  case None
  then have "h' = h"
    using rel by (simp add: release_handshakes_def)
  moreover have "\<forall>s\<in>set (subs g h). sub_id s \<noteq> c"
    using None by (auto simp: find_None_iff)
  ultimately show ?thesis
    using s' by auto
next
  case (Some s)
  note s = find_SomeD [OF Some]
  have home: "sub_sender s = home c"
    using hub_inv_subs(2) [OF inv, of s g] s by simp
  have dist: "distinct (map sub_id (subs g h))"
    by (rule hub_inv_subs(1) [OF inv])
  show ?thesis
  proof (cases "sub_held s")
    case None
    have "t = s" if "t \<in> set (subs g h)" "sub_id t = c" for t
      using dist that s by (auto simp: distinct_map inj_on_def)
    then show ?thesis
      using rel s' Some None by (auto simp: release_handshakes_def)
  next
    case held: (Some held)
    obtain ev q where loop: "release_loop k held (ch (home c)) = (ev, q)" by (cases "release_loop k held (ch (home c))")
    then have eqs: "ch' = ch(home c := q)" "h' = (let h = set_subs g (clear_held c (subs g h)) h in if ev then hub_disconnect c h else h)"
      using rel Some held by (simp_all add: release_handshakes_def home Let_def)
    then have "s' \<in> (if grp = g then set (clear_held c (subs g h)) else set (subs grp h))" "ev \<Longrightarrow> sub_id s' \<noteq> c"
      using s' by (auto simp: Let_def split: if_splits)
    then show ?thesis
      using clear_held_other clear_held_own [OF dist, of s' c] Some held s loop eqs(1) by (cases ev) (force split: if_splits)+
  qed
qed

subsection \<open>Two commits at once\<close>

text \<open>A group with an empty handshake log, whose member subscribes while two others publish.\<close>

definition sample_empty :: hs_db where
  "sample_empty = \<lparr>hs_base = \<lparr>db_groups = [sample_group \<mapsto> \<lparr>gr_workspace = ''w'', gr_next_seq = 1, gr_frozen = None\<rparr>],
     db_envelopes = [], db_used = Map.empty\<rparr>, hs_rows = []\<rparr>"

definition sample_world :: world where
  "sample_world = \<lparr>wd_log = sample_empty, wd_ch = (\<lambda>_. outbound_channel), wd_hub = hub_new, wd_task = (\<lambda>_. Idle)\<rparr>"

definition sample_publish :: "connection_id \<Rightarrow> bytes \<Rightarrow> world_op" where
  "sample_publish c m = WPublish c \<lparr>hs_group = sample_group, hs_message = m\<rparr> \<lparr>hf_fails = \<lambda>_. False, hf_commit_applied = False\<rparr> None"

lemma sample_hash: "handshake_hash sample_blake3 \<lparr>hs_group = sample_group, hs_message = [m]\<rparr> = m # replicate 31 7"
  by (simp add: handshake_hash_def sample_blake3_def sample_group_def)

lemma sample_append:
  "append_within sample_blake3 \<lparr>hf_fails = \<lambda>_. False, hf_commit_applied = False\<rparr> \<lparr>hs_group = sample_group, hs_message = [1]\<rparr> None sample_empty =
    (\<lparr>hs_base = charge_used (hs_base sample_empty) sample_group 1,
      hs_rows = [\<lparr>hr_group = sample_group, hr_seq = 0, hr_message = [1], hr_hash = 1 # replicate 31 7\<rparr>]\<rparr>, Inr (Appended 0))"
  by (simp add: append_within_def handshake_check_def sample_hash HS_GROUP_BYTES_def MAX_MESSAGE_BYTES_def sample_empty_def
    hs_existing_def rows_of_def hs_next_def insert_handshake_def hs_row_ok_def I64_MAX_def hs_within_budget_def hs_commit_def as_u64_def)
    (simp add: sample_group_def)

definition sample_one :: hs_db where
  "sample_one = \<lparr>hs_base = charge_used (hs_base sample_empty) sample_group 1,
     hs_rows = [\<lparr>hr_group = sample_group, hr_seq = 0, hr_message = [1], hr_hash = 1 # replicate 31 7\<rparr>]\<rparr>"

definition sample_two :: hs_db where
  "sample_two = \<lparr>hs_base = charge_used (charge_used (hs_base sample_empty) sample_group 1) sample_group 1,
     hs_rows = [\<lparr>hr_group = sample_group, hr_seq = 0, hr_message = [1], hr_hash = 1 # replicate 31 7\<rparr>,
       \<lparr>hr_group = sample_group, hr_seq = 1, hr_message = [2], hr_hash = 2 # replicate 31 7\<rparr>]\<rparr>"

lemma sample_append2:
  "append_within sample_blake3 \<lparr>hf_fails = \<lambda>_. False, hf_commit_applied = False\<rparr> \<lparr>hs_group = sample_group, hs_message = [2]\<rparr> None sample_one =
    (sample_two, Inr (Appended 1))"
  by (simp add: append_within_def handshake_check_def sample_hash HS_GROUP_BYTES_def MAX_MESSAGE_BYTES_def sample_one_def sample_two_def sample_empty_def
    hs_existing_def rows_of_def hs_next_def insert_handshake_def hs_row_ok_def hs_row_conflicts_def I64_MAX_def hs_within_budget_def hs_commit_def as_u64_def)
    (simp add: sample_group_def)

lemmas world_eval = begin_subscribe_def read_page_def release_def begin_publish_def fan_published_def set_task_def set_channel_def

lemmas queue_eval = try_queue_def try_send_def queue_all_def permits_for_def queued_bytes_def FRAME_OVERHEAD_def outbound_channel_def
  SEND_QUEUE_BYTE_BUDGET_def SEND_QUEUE_BOUND_def newly_queued_def

lemma sample_page: "hs_page sample_empty sample_group 0 lim = []"
  by (simp add: hs_page_def page_rows_def rows_of_def sample_empty_def)

lemma sample_begin:
  "fold (world_step sample_blake3 unat) [WSubscribe 3 sample_group 0 3, WReadPage 3 False, sample_publish 1 [1], sample_publish 2 [2]] sample_world =
    \<lparr>wd_log = sample_two,
     wd_ch = (\<lambda>_. outbound_channel)(3 := snd (queue_all outbound_channel [FSubAck sample_group 0])),
     wd_hub = subscribe_holding_handshakes sample_group 3 3 3 hub_new,
     wd_task = (\<lambda>_. Idle)(3 := Releasing sample_group 0 True, 1 := Fanning \<lparr>hs_group = sample_group, hs_message = [1]\<rparr> 0,
       2 := Fanning \<lparr>hs_group = sample_group, hs_message = [2]\<rparr> 1)\<rparr>"
proof -
  have "fst (queue_all outbound_channel [FSubAck sample_group 0])"
    by (simp add: queue_eval)
  then show ?thesis
    using sample_append [folded sample_one_def] sample_append2
    by (simp add: sample_world_def sample_publish_def world_eval sample_page Let_def case_prod_unfold fun_upd_twist)
qed

lemma fan_held:
  assumes "Mapping.lookup (hub_groups h) grp = Some [s]" "sub_id s \<noteq> except" "v \<le> sub_version s" "sub_held s = Some held"
    "length held < MAX_HELD_HANDSHAKES"
  shows "fanout_frame grp (FHandshake grp n m) except v ch h =
    ([(sub_id s, DSent)], ch, set_subs grp [s\<lparr>sub_held := Some (held @ [FHandshake grp n m])\<rparr>] h)"
  using assms by (simp add: fanout_frame_def fan_one_def undowngradable_def set_subs_def not_less Let_def)

lemma sample_fans:
  "fold (world_step sample_blake3 unat) [WFan 2, WFan 1]
      \<lparr>wd_log = d, wd_ch = ch, wd_hub = subscribe_holding_handshakes sample_group 3 3 3 hub_new,
       wd_task = (\<lambda>_. Idle)(3 := Releasing sample_group 0 True, 1 := Fanning \<lparr>hs_group = sample_group, hs_message = [1]\<rparr> 0,
         2 := Fanning \<lparr>hs_group = sample_group, hs_message = [2]\<rparr> 1)\<rparr> =
    \<lparr>wd_log = d, wd_ch = ch,
     wd_hub = set_subs sample_group [\<lparr>sub_id = 3, sub_sender = 3, sub_version = 3, sub_owed = False,
       sub_held = Some [FHandshake sample_group 1 [2], FHandshake sample_group 0 [1]]\<rparr>] hub_new,
     wd_task = (\<lambda>_. Idle)(3 := Releasing sample_group 0 True, 1 := Acking (FHandshake sample_group 0 [1]), 2 := Acking (FHandshake sample_group 1 [2]))\<rparr>"
  by (simp add: world_eval subscribe_holding_handshakes_def subscribe_with_def subs_def hub_new_def set_subs_def fan_held MAX_HELD_HANDSHAKES_def
    MIN_FANOUT_VERSION_def MIN_PROTOCOL_VERSION_def update_update Let_def fun_upd_twist)

text \<open>C12. A commit can be lost to a member without a word. Two members publish while a third ends its replay: the appends number
  the commits 0 and 1, the fan-outs, which come after the appends and under no lock of theirs, meet the hold in the
  other order, and the release passes 1 and discards 0 as covered. The member stays subscribed, with no hold, owed
  nothing, and was sent the second commit only, which it cannot apply.\<close>

theorem held_commit_lost:
  "let ops = [WSubscribe 3 sample_group 0 3, WReadPage 3 False, sample_publish 1 [1], sample_publish 2 [2], WFan 2, WFan 1, WRelease 3];
       w = fold (world_step sample_blake3 unat) ops sample_world;
       q = wd_ch w 3 in
   hs_log (wd_log w) sample_group = [[1], [2]] \<and>
   ob_queue q = [OutFrame (FSubAck sample_group 0), OutFrame (FHandshake sample_group 1 [2])] \<and> \<not> ob_evicted q \<and>
   subs sample_group (wd_hub w) = [\<lparr>sub_id = 3, sub_sender = 3, sub_version = 3, sub_owed = False, sub_held = None\<rparr>] \<and>
   wd_task w 3 = Idle \<and> apply_commits 0 (hs_seqs sample_group (frames_of (ob_queue q))) = None"
proof -
  let ?q = "snd (queue_all outbound_channel [FSubAck sample_group 0])"
  let ?ch = "(\<lambda>_. outbound_channel)(3 := ?q)"
  have run: "fold (world_step sample_blake3 unat) [WSubscribe 3 sample_group 0 3, WReadPage 3 False, sample_publish 1 [1], sample_publish 2 [2], WFan 2, WFan 1, WRelease 3] sample_world =
      world_step sample_blake3 unat (WRelease 3) (fold (world_step sample_blake3 unat) [WFan 2, WFan 1]
        (fold (world_step sample_blake3 unat) [WSubscribe 3 sample_group 0 3, WReadPage 3 False, sample_publish 1 [1], sample_publish 2 [2]] sample_world))"
    by simp
obtain q2 where q2: "try_queue ?q (FHandshake sample_group 1 [2]) = (Sent, q2)"
    and queue: "ob_queue q2 = [OutFrame (FSubAck sample_group 0), OutFrame (FHandshake sample_group 1 [2])]" "\<not> ob_evicted q2"
    by (simp add: queue_eval)
  have "(0 :: u64) < saturating_add 1 1"
    by (simp add: saturating_add_def)
  then have loop: "release_loop 0 [FHandshake sample_group 1 [2], FHandshake sample_group 0 [1]] ?q = (False, q2)"
    by (simp add: q2)
  let ?held = "\<lparr>sub_id = 3, sub_sender = 3, sub_version = 3, sub_owed = False,
    sub_held = Some [FHandshake sample_group 1 [2], FHandshake sample_group 0 [1]]\<rparr>"
  have "release_handshakes sample_group 3 0 ?ch (set_subs sample_group [?held] hub_new) =
      (?ch(3 := q2), set_subs sample_group [?held\<lparr>sub_held := None\<rparr>] (set_subs sample_group [?held] hub_new))"
    using loop by (simp add: release_handshakes_def del: release_loop.simps)
  then show ?thesis
    unfolding run sample_begin sample_fans Let_def
    by (simp add: release_def set_task_def queue hs_log_def rows_of_def sample_two_def)
qed

end
