(* ===== verification/Calls.thy ===== *)
theory Calls
  imports Session Hub
begin

text \<open>
  Calls: the registry of \<open>src/backend/wealdrelay/src/calls/mod.rs\<close>, the two frames of \<open>calls/socket.rs\<close> and the group
  check \<open>ws::authorize_group\<close> that stands before the first of them. The registry's operations hold its lock, so each
  is a step; a monotonic instant is a number of milliseconds. A frame runs to its end as one step (a decline or a
  bye takes the lock twice, to read the call's group and to leave). Waking sleeping devices is left out.
\<close>

subsection \<open>Which groups a session may name\<close>

text \<open>\<open>access::store::workspace_of\<close>, whose query may fail.\<close>

definition workspace_of :: "bool \<Rightarrow> db \<Rightarrow> bytes \<Rightarrow> unit + string option" where
  "workspace_of failed d grp = (if failed then Inl () else Inr (map_option gr_workspace (db_groups d grp)))"

definition authorize_group :: "db option \<Rightarrow> bool \<Rightarrow> session \<Rightarrow> bytes \<Rightarrow> error_code + unit" where
  "authorize_group dbo failed s grp =
    (case dbo of
       None \<Rightarrow> Inl Backpressure
     | Some d \<Rightarrow>
       (case ss_authorized_workspace s of
          None \<Rightarrow> Inl WriterNotInAccessSet
        | Some workspace \<Rightarrow>
          (case workspace_of failed d grp of
             Inr (Some found) \<Rightarrow> if found = workspace then Inr () else Inl WriterNotInAccessSet
           | Inr None \<Rightarrow> Inl GroupUnknown
           | Inl _ \<Rightarrow> Inl Backpressure)))"

subsection \<open>The registry\<close>

definition MAX_PARTICIPANTS_PER_CALL :: nat where "MAX_PARTICIPANTS_PER_CALL = 5"
definition DEFAULT_CONCURRENT_CALLS :: u64 where "DEFAULT_CONCURRENT_CALLS = 8"
definition CALL_IDLE_MS :: nat where "CALL_IDLE_MS = 2 * 60 * 1000"
definition CALL_PROTOCOL_VERSION :: u16 where "CALL_PROTOCOL_VERSION = 3"

definition call_kind_u8 :: "call_kind \<Rightarrow> u8" where
  "call_kind_u8 k = (case k of Offer \<Rightarrow> 1 | Answer \<Rightarrow> 2 | Decline \<Rightarrow> 3 | Bye \<Rightarrow> 4)"

record call_entry =
  ca_group :: bytes
  ca_participants :: "(connection_id \<times> handle) list"
  ca_last_activity :: nat

datatype join_refusal = GroupMismatch | TooManyCalls | CallFull

fun join_refusal_code :: "join_refusal \<Rightarrow> error_code" where
  "join_refusal_code GroupMismatch = WriterNotInAccessSet"
| "join_refusal_code TooManyCalls = RateLimited"
| "join_refusal_code CallFull = RateLimited"

fun join_retry_after :: "join_refusal \<Rightarrow> u32 option" where
  "join_retry_after GroupMismatch = None"
| "join_retry_after TooManyCalls = Some 5"
| "join_retry_after CallFull = Some 5"

fun join_detail :: "join_refusal \<Rightarrow> nat \<Rightarrow> u64" where
  "join_detail GroupMismatch _ = 0"
| "join_detail TooManyCalls max_calls = of_nat max_calls"
| "join_detail CallFull _ = of_nat MAX_PARTICIPANTS_PER_CALL"

record call_registry =
  cr_calls :: "(bytes, call_entry) mapping"
  cr_max_concurrent :: nat
  cr_shed :: u64
  cr_denied :: u64
  cr_share_refused :: u64

definition registry_new :: "nat \<Rightarrow> call_registry" where
  "registry_new max_concurrent =
    \<lparr>cr_calls = Mapping.empty, cr_max_concurrent = max_concurrent, cr_shed = 0, cr_denied = 0, cr_share_refused = 0\<rparr>"

definition call_share :: "call_registry \<Rightarrow> nat" where
  "call_share r = max (cr_max_concurrent r div 4) 1"

definition open_calls :: "call_registry \<Rightarrow> nat" where
  "open_calls r = Mapping.size (cr_calls r)"

definition in_call :: "connection_id \<Rightarrow> call_entry \<Rightarrow> bool" where
  "in_call cid call = list_ex (\<lambda>(existing, _). existing = cid) (ca_participants call)"

definition drop_idle :: "nat \<Rightarrow> nat \<Rightarrow> (bytes, call_entry) mapping \<Rightarrow> (bytes, call_entry) mapping" where
  "drop_idle now idle calls = Mapping.filter (\<lambda>_ call. now - ca_last_activity call < idle) calls"

definition sweep_idle :: "nat \<Rightarrow> nat \<Rightarrow> call_registry \<Rightarrow> nat \<times> call_registry" where
  "sweep_idle now idle r =
    (let calls = drop_idle now idle (cr_calls r) in (open_calls r - Mapping.size calls, r\<lparr>cr_calls := calls\<rparr>))"

definition held_calls :: "connection_id \<Rightarrow> (bytes, call_entry) mapping \<Rightarrow> nat" where
  "held_calls cid calls = Mapping.size (Mapping.filter (\<lambda>_ call. in_call cid call) calls)"

definition join :: "nat \<Rightarrow> bytes \<Rightarrow> bytes \<Rightarrow> connection_id \<Rightarrow> handle \<Rightarrow> call_registry \<Rightarrow> (join_refusal + unit) \<times> call_registry" where
  "join now call_id grp cid sender r =
    (let r = r\<lparr>cr_calls := drop_idle now CALL_IDLE_MS (cr_calls r)\<rparr> in
     case Mapping.lookup (cr_calls r) call_id of
       Some call \<Rightarrow>
         if ca_group call \<noteq> grp then (Inl GroupMismatch, r)
         else if in_call cid call then (Inr (), r)
         else if MAX_PARTICIPANTS_PER_CALL \<le> length (ca_participants call) then (Inl CallFull, r)
         else (Inr (), r\<lparr>cr_calls := Mapping.update call_id
           (call\<lparr>ca_participants := ca_participants call @ [(cid, sender)], ca_last_activity := now\<rparr>) (cr_calls r)\<rparr>)
     | None \<Rightarrow>
         if cr_max_concurrent r \<le> open_calls r then (Inl TooManyCalls, r)
         else if call_share r \<le> held_calls cid (cr_calls r) then
           (Inl TooManyCalls, r\<lparr>cr_share_refused := cr_share_refused r + 1\<rparr>)
         else (Inr (), r\<lparr>cr_calls := Mapping.update call_id
           \<lparr>ca_group = grp, ca_participants = [(cid, sender)], ca_last_activity = now\<rparr> (cr_calls r)\<rparr>))"

definition without :: "connection_id \<Rightarrow> call_entry \<Rightarrow> call_entry" where
  "without cid call = call\<lparr>ca_participants := filter (\<lambda>(existing, _). existing \<noteq> cid) (ca_participants call)\<rparr>"

definition leave :: "bytes \<Rightarrow> connection_id \<Rightarrow> call_registry \<Rightarrow> call_registry" where
  "leave call_id cid r =
    (case Mapping.lookup (cr_calls r) call_id of
       None \<Rightarrow> r
     | Some call \<Rightarrow>
       let call = without cid call in
       r\<lparr>cr_calls := if ca_participants call = [] then Mapping.delete call_id (cr_calls r)
         else Mapping.update call_id call (cr_calls r)\<rparr>)"

definition forget :: "connection_id \<Rightarrow> call_registry \<Rightarrow> call_registry" where
  "forget cid r =
    r\<lparr>cr_calls := Mapping.filter (\<lambda>_ call. ca_participants call \<noteq> [])
      (Mapping.map_values (\<lambda>_. without cid) (cr_calls r))\<rparr>"

definition group_of :: "bytes \<Rightarrow> call_registry \<Rightarrow> bytes option" where
  "group_of call_id r = map_option ca_group (Mapping.lookup (cr_calls r) call_id)"

definition call_holds :: "bytes \<Rightarrow> connection_id \<Rightarrow> call_registry \<Rightarrow> bool" where
  "call_holds call_id cid r = (case Mapping.lookup (cr_calls r) call_id of None \<Rightarrow> False | Some call \<Rightarrow> in_call cid call)"

subsection \<open>Routing\<close>

record routed =
  rt_sent :: nat
  rt_shed :: nat
  rt_gone :: nat

text \<open>The loop over the participants: what it did, the channels and who was found gone.\<close>

fun route_loop :: "frame \<Rightarrow> connection_id \<Rightarrow> channels \<Rightarrow> (connection_id \<times> handle) list \<Rightarrow> routed \<times> channels \<times> connection_id list" where
  "route_loop f sender_id ch [] = (\<lparr>rt_sent = 0, rt_shed = 0, rt_gone = 0\<rparr>, ch, [])"
| "route_loop f sender_id ch ((cid, sender) # ps) =
    (if cid = sender_id then route_loop f sender_id ch ps
     else
       let (queued, q) = try_queue (ch sender) f;
           (routed, ch, gone) = route_loop f sender_id (ch(sender := q)) ps in
       case queued of
         Sent \<Rightarrow> (routed\<lparr>rt_sent := rt_sent routed + 1\<rparr>, ch, gone)
       | Full \<Rightarrow> (routed\<lparr>rt_shed := rt_shed routed + 1\<rparr>, ch, gone)
       | Closed \<Rightarrow> (routed\<lparr>rt_gone := rt_gone routed + 1\<rparr>, ch, cid # gone))"

definition route :: "nat \<Rightarrow> bytes \<Rightarrow> connection_id \<Rightarrow> frame \<Rightarrow> channels \<Rightarrow> call_registry \<Rightarrow> (error_code + routed) \<times> channels \<times> call_registry" where
  "route now call_id sender_id f ch r =
    (let denied = (Inl WriterNotInAccessSet, ch, r\<lparr>cr_denied := cr_denied r + 1\<rparr>) in
     case Mapping.lookup (cr_calls r) call_id of
       None \<Rightarrow> denied
     | Some call \<Rightarrow>
       if \<not> in_call sender_id call then denied
       else
         let (routed, ch, gone) = route_loop f sender_id ch (ca_participants call);
             call = call\<lparr>ca_last_activity := now, ca_participants := filter (\<lambda>(cid, _). cid \<notin> set gone) (ca_participants call)\<rparr> in
         (Inr routed, ch, r\<lparr>cr_calls := Mapping.update call_id call (cr_calls r), cr_shed := cr_shed r + of_nat (rt_shed routed)\<rparr>))"

subsection \<open>The two frames\<close>

definition refusal_error :: "call_registry \<Rightarrow> join_refusal \<Rightarrow> frame_error" where
  "refusal_error r refusal =
    (let err = with_detail (to_be_bytes 8 (join_detail refusal (cr_max_concurrent r))) (new_error (join_refusal_code refusal)) in
     case join_retry_after refusal of Some seconds \<Rightarrow> with_retry_after seconds err | None \<Rightarrow> err)"

text \<open>Queue an answer on the connection's own channel.\<close>

definition answer :: "handle \<Rightarrow> frame list \<Rightarrow> channels \<Rightarrow> bool \<times> channels" where
  "answer sender fs ch = (let (ok, q) = queue_all (ch sender) fs in (ok, ch(sender := q)))"

record call_world =
  cw_ch :: channels
  cw_hub :: hub
  cw_registry :: call_registry

definition refuse_call :: "handle \<Rightarrow> frame_error \<Rightarrow> call_world \<Rightarrow> bool \<times> call_world" where
  "refuse_call sender err w = (let (ok, ch) = answer sender [FError err] (cw_ch w) in (ok, w\<lparr>cw_ch := ch\<rparr>))"

text \<open>The membership half of \<open>publish_call\<close>: join, or check the group and leave.\<close>

definition apply_kind :: "nat \<Rightarrow> bytes \<Rightarrow> bytes \<Rightarrow> call_kind \<Rightarrow> connection_id \<Rightarrow> handle \<Rightarrow> call_registry \<Rightarrow> (join_refusal + unit) \<times> call_registry" where
  "apply_kind now call_id grp kind cid sender r =
    (if call_joins kind then join now call_id grp cid sender r
     else case group_of call_id r of
       Some g \<Rightarrow> if g \<noteq> grp then (Inl GroupMismatch, r) else (Inr (), leave call_id cid r)
     | None \<Rightarrow> (Inr (), leave call_id cid r))"

definition publish_call ::
    "handle \<Rightarrow> db option \<Rightarrow> bool \<Rightarrow> nat \<Rightarrow> session \<Rightarrow> connection_id \<Rightarrow> bytes \<Rightarrow> bytes \<Rightarrow> u64 \<Rightarrow> call_kind \<Rightarrow> bytes \<Rightarrow> call_world \<Rightarrow> bool \<times> call_world" where
  "publish_call sender dbo failed now s cid call_id grp epoch kind body w =
    (case authorize_group dbo failed s grp of
       Inl code \<Rightarrow> refuse_call sender (new_error code) w
     | Inr _ \<Rightarrow>
       let (res, r) = apply_kind now call_id grp kind cid sender (cw_registry w);
           w = w\<lparr>cw_registry := r\<rparr> in
       case res of
         Inl refusal \<Rightarrow> refuse_call sender (refusal_error r refusal) w
       | Inr _ \<Rightarrow>
         let (_, ch, h) = fanout_frame grp (FCall call_id grp epoch (call_kind_u8 kind) body) cid CALL_PROTOCOL_VERSION (cw_ch w) (cw_hub w) in
         (True, w\<lparr>cw_ch := ch, cw_hub := h\<rparr>))"

definition publish_media :: "handle \<Rightarrow> nat \<Rightarrow> connection_id \<Rightarrow> bytes \<Rightarrow> bytes \<Rightarrow> u64 \<Rightarrow> bytes \<Rightarrow> call_world \<Rightarrow> bool \<times> call_world" where
  "publish_media sender now cid call_id stream seq ct w =
    (let (res, ch, r) = route now call_id cid (FMedia call_id stream seq ct) (cw_ch w) (cw_registry w);
         w = w\<lparr>cw_ch := ch, cw_registry := r\<rparr> in
     case res of Inr _ \<Rightarrow> (True, w) | Inl code \<Rightarrow> refuse_call sender (new_error code) w)"

subsection \<open>What the registry keeps\<close>

text \<open>Everything that can happen to calls: the two frames, a connection that ends, a sweep, and whatever else happens to channels
  and subscriptions.\<close>

datatype call_op =
    CallFrame "db option" bool nat session connection_id bytes bytes u64 call_kind bytes
  | MediaFrame nat connection_id bytes bytes u64 bytes
  | CallForget connection_id
  | CallSweep nat nat
  | CallElse "channels \<times> hub \<Rightarrow> channels \<times> hub"

fun call_step :: "(connection_id \<Rightarrow> handle) \<Rightarrow> call_op \<Rightarrow> call_world \<Rightarrow> call_world" where
  "call_step home (CallFrame dbo failed now s cid call_id grp epoch kind body) w =
    snd (publish_call (home cid) dbo failed now s cid call_id grp epoch kind body w)"
| "call_step home (MediaFrame now cid call_id stream seq ct) w = snd (publish_media (home cid) now cid call_id stream seq ct w)"
| "call_step home (CallForget cid) w = w\<lparr>cw_registry := forget cid (cw_registry w)\<rparr>"
| "call_step home (CallSweep now idle) w = w\<lparr>cw_registry := snd (sweep_idle now idle (cw_registry w))\<rparr>"
| "call_step home (CallElse g) w = (let (ch, h) = g (cw_ch w, cw_hub w) in w\<lparr>cw_ch := ch, cw_hub := h\<rparr>)"

text \<open>A connection was admitted to a call of a group by a joining frame whose group was authorised.\<close>

fun admits :: "connection_id \<Rightarrow> bytes \<Rightarrow> bytes \<Rightarrow> call_op \<Rightarrow> bool" where
  "admits cid call_id grp (CallFrame dbo failed now s cid' call_id' grp' epoch kind body) \<longleftrightarrow>
    cid' = cid \<and> call_id' = call_id \<and> grp' = grp \<and> call_joins kind \<and> authorize_group dbo failed s grp = Inr ()"
| "admits cid call_id grp _ \<longleftrightarrow> False"

definition entry_ok :: "(connection_id \<Rightarrow> handle) \<Rightarrow> (connection_id \<Rightarrow> bytes \<Rightarrow> bool) \<Rightarrow> call_entry \<Rightarrow> bool" where
  "entry_ok home adm call \<longleftrightarrow> ca_participants call \<noteq> [] \<and> distinct (map fst (ca_participants call)) \<and>
    length (ca_participants call) \<le> MAX_PARTICIPANTS_PER_CALL \<and>
    (\<forall>p\<in>set (ca_participants call). snd p = home (fst p) \<and> adm (fst p) (ca_group call))"

definition registry_ok :: "(connection_id \<Rightarrow> handle) \<Rightarrow> (bytes \<Rightarrow> connection_id \<Rightarrow> bytes \<Rightarrow> bool) \<Rightarrow> call_registry \<Rightarrow> bool" where
  "registry_ok home adm r \<longleftrightarrow> finite (Mapping.keys (cr_calls r)) \<and> open_calls r \<le> cr_max_concurrent r \<and>
    (\<forall>call_id call. Mapping.lookup (cr_calls r) call_id = Some call \<longrightarrow> entry_ok home (adm call_id) call)"

lemma keys_filter_subset: "Mapping.keys (Mapping.filter P m) \<subseteq> Mapping.keys m"
  by (auto simp: keys_is_none_rep Mapping.lookup_filter split: option.splits)

lemma size_filter_le: "finite (Mapping.keys m) \<Longrightarrow> Mapping.size (Mapping.filter P m) \<le> Mapping.size m"
  unfolding Mapping.size_def using card_mono [OF _ keys_filter_subset] by auto

lemma lookup_delete_cases: "Mapping.lookup (Mapping.delete k m) k' = (if k' = k then None else Mapping.lookup m k')"
  by (cases "k' = k") (simp_all add: lookup_delete lookup_delete_neq)

lemma registry_ok_filter:
  assumes "registry_ok home adm r"
  shows "registry_ok home adm (r\<lparr>cr_calls := Mapping.filter P (cr_calls r)\<rparr>)"
proof -
  have "finite (Mapping.keys (Mapping.filter P (cr_calls r)))"
    using assms finite_subset [OF keys_filter_subset] by (auto simp: registry_ok_def)
  moreover have "Mapping.size (Mapping.filter P (cr_calls r)) \<le> cr_max_concurrent r"
    using assms size_filter_le [of "cr_calls r" P] by (auto simp: registry_ok_def open_calls_def)
  ultimately show ?thesis
    using assms by (auto simp: registry_ok_def open_calls_def Mapping.lookup_filter split: option.splits if_splits)
qed

lemma registry_ok_update:
  assumes ok: "registry_ok home adm r" and entry: "entry_ok home (adm call_id) call"
    and room: "Mapping.lookup (cr_calls r) call_id = None \<Longrightarrow> open_calls r < cr_max_concurrent r"
  shows "registry_ok home adm (r\<lparr>cr_calls := Mapping.update call_id call (cr_calls r)\<rparr>)"
proof -
  have "Mapping.size (Mapping.update call_id call (cr_calls r)) \<le> cr_max_concurrent r"
    using ok room by (auto simp: registry_ok_def open_calls_def size_def keys_is_none_rep card_insert_if Option.is_none_def split: if_splits)
  then show ?thesis
    using ok entry by (auto simp: registry_ok_def open_calls_def lookup_update')
qed

lemma registry_ok_delete:
  assumes "registry_ok home adm r"
  shows "registry_ok home adm (r\<lparr>cr_calls := Mapping.delete k (cr_calls r)\<rparr>)"
proof -
  have "Mapping.size (Mapping.delete k (cr_calls r)) \<le> Mapping.size (cr_calls r)"
    using assms by (auto simp: registry_ok_def Mapping.size_def intro!: card_mono)
  then show ?thesis
    using assms by (auto simp: registry_ok_def open_calls_def lookup_delete_cases)
qed

lemma registry_ok_counters [simp]:
  "registry_ok home adm (r\<lparr>cr_share_refused := a\<rparr>) = registry_ok home adm r"
  "registry_ok home adm (r\<lparr>cr_denied := b\<rparr>) = registry_ok home adm r"
  "registry_ok home adm (r\<lparr>cr_shed := c\<rparr>) = registry_ok home adm r"
  by (simp_all add: registry_ok_def open_calls_def)

lemma entry_ok_mono: "entry_ok home adm call \<Longrightarrow> (\<And>c g. adm c g \<Longrightarrow> adm' c g) \<Longrightarrow> entry_ok home adm' call"
  by (auto simp: entry_ok_def)

lemma registry_ok_mono:
  "registry_ok home adm r \<Longrightarrow> (\<And>i c g. adm i c g \<Longrightarrow> adm' i c g) \<Longrightarrow> registry_ok home adm' r"
  unfolding registry_ok_def by (blast intro: entry_ok_mono)

lemma registry_entry: "registry_ok home adm r \<Longrightarrow> Mapping.lookup (cr_calls r) i = Some call \<Longrightarrow> entry_ok home (adm i) call"
  by (simp add: registry_ok_def)

lemma in_call_iff: "in_call cid call \<longleftrightarrow> cid \<in> fst ` set (ca_participants call)"
  by (force simp: in_call_def list_ex_iff)

lemma entry_ok_filter:
  assumes "entry_ok home adm call" "filter P (ca_participants call) \<noteq> []"
  shows "entry_ok home adm (call\<lparr>ca_participants := filter P (ca_participants call)\<rparr>)"
  using assms le_trans [OF length_filter_le] by (auto simp: entry_ok_def distinct_map_filter)

lemma join_ok:
  assumes ok: "registry_ok home adm r" and join: "join now call_id grp cid (home cid) r = (res, r')"
    and adm: "adm call_id cid grp"
  shows "registry_ok home adm r'"
proof -
  define r1 where "r1 = r\<lparr>cr_calls := drop_idle now CALL_IDLE_MS (cr_calls r)\<rparr>"
  have ok1: "registry_ok home adm r1"
    unfolding r1_def drop_idle_def by (rule registry_ok_filter [OF ok])
  show ?thesis
  proof (cases "Mapping.lookup (cr_calls r1) call_id")
    case None
    have "entry_ok home (adm call_id) \<lparr>ca_group = grp, ca_participants = [(cid, home cid)], ca_last_activity = now\<rparr>"
      using adm by (simp add: entry_ok_def MAX_PARTICIPANTS_PER_CALL_def)
    then show ?thesis
      using join None ok1 unfolding join_def r1_def [symmetric] Let_def
      by (auto split: if_splits intro!: registry_ok_update)
  next
    case (Some call)
    have "entry_ok home (adm call_id) (call\<lparr>ca_participants := ca_participants call @ [(cid, home cid)], ca_last_activity := now\<rparr>)"
      if "ca_group call = grp" "\<not> in_call cid call" "length (ca_participants call) < MAX_PARTICIPANTS_PER_CALL"
      using registry_entry [OF ok1 Some] that adm by (auto simp: entry_ok_def in_call_iff)
    then show ?thesis
      using join Some ok1 unfolding join_def r1_def [symmetric] Let_def
      by (auto split: if_splits intro!: registry_ok_update)
  qed
qed

lemma leave_ok:
  assumes "registry_ok home adm r"
  shows "registry_ok home adm (leave call_id cid r)"
proof (cases "Mapping.lookup (cr_calls r) call_id")
  case (Some call)
  have "entry_ok home (adm call_id) (without cid call)" if "ca_participants (without cid call) \<noteq> []"
    using entry_ok_filter [OF registry_entry [OF assms Some]] that by (simp add: without_def)
  then show ?thesis
    using Some assms by (auto simp: leave_def Let_def intro!: registry_ok_update registry_ok_delete)
qed (use assms in \<open>simp add: leave_def\<close>)

lemma forget_ok:
  assumes "registry_ok home adm r"
  shows "registry_ok home adm (forget cid r)"
proof -
  let ?m = "Mapping.filter (\<lambda>_ call. ca_participants call \<noteq> []) (Mapping.map_values (\<lambda>_. without cid) (cr_calls r))"
  have keys: "Mapping.keys ?m \<subseteq> Mapping.keys (cr_calls r)"
    using keys_filter_subset by fastforce
  have "Mapping.size ?m \<le> Mapping.size (cr_calls r)"
    using assms card_mono [OF _ keys] by (auto simp: registry_ok_def Mapping.size_def)
  moreover have "entry_ok home (adm i) call" if look: "Mapping.lookup ?m i = Some call" for i call
  proof -
    obtain c where "Mapping.lookup (cr_calls r) i = Some c" "call = without cid c" "ca_participants call \<noteq> []"
      using look by (auto simp: Mapping.lookup_filter lookup_map_values split: option.splits if_splits)
    then show ?thesis
      using entry_ok_filter [OF registry_entry [OF assms]] by (simp add: without_def)
  qed
  moreover have "finite (Mapping.keys ?m)"
    using assms finite_subset [OF keys] by (simp add: registry_ok_def)
  ultimately show ?thesis
    using assms by (auto simp: registry_ok_def forget_def open_calls_def)
qed

lemma route_loop_facts:
  "route_loop f sender_id ch ps = (routed, ch', gone) \<Longrightarrow>
    sender_id \<notin> set gone \<and> (\<forall>k. ch' k \<noteq> ch k \<longrightarrow> (\<exists>cid. cid \<noteq> sender_id \<and> (cid, k) \<in> set ps)) \<and>
    rt_sent routed + rt_shed routed + rt_gone routed = length (filter (\<lambda>(cid, _). cid \<noteq> sender_id) ps)"
proof (induction ps arbitrary: ch routed ch' gone)
  case (Cons p ps)
  obtain cid sender where p: "p = (cid, sender)" by (cases p)
  show ?case
  proof (cases "cid = sender_id")
    case True
    then have "route_loop f sender_id ch ps = (routed, ch', gone)"
      using Cons.prems by (simp add: p)
    from Cons.IH [OF this] True show ?thesis
      by (auto simp: p)
  next
    case False
    obtain queued q where tq: "try_queue (ch sender) f = (queued, q)" by (cases "try_queue (ch sender) f")
    obtain rt1 gone1 where rest: "route_loop f sender_id (ch(sender := q)) ps = (rt1, ch', gone1)"
      and eqs: "gone = (if queued = Closed then cid # gone1 else gone1)"
        "routed = (case queued of Sent \<Rightarrow> rt1\<lparr>rt_sent := rt_sent rt1 + 1\<rparr> | Full \<Rightarrow> rt1\<lparr>rt_shed := rt_shed rt1 + 1\<rparr> | Closed \<Rightarrow> rt1\<lparr>rt_gone := rt_gone rt1 + 1\<rparr>)"
      using Cons.prems False tq by (cases queued) (auto simp: p Let_def split: prod.splits)
    have "\<exists>cid. cid \<noteq> sender_id \<and> (cid, k) \<in> set (p # ps)" if "ch' k \<noteq> ch k" for k
    proof (cases "k = sender")
      case False
      then show ?thesis
        using Cons.IH [OF rest] that by (metis fun_upd_other list.set_intros(2))
    qed (use p \<open>cid \<noteq> sender_id\<close> in auto)
    then show ?thesis
      using Cons.IH [OF rest] False by (cases queued) (auto simp: p eqs)
  qed
qed simp

lemma route_ok:
  assumes ok: "registry_ok home adm r" and route: "route now call_id cid f ch r = (res, ch', r')"
  shows "registry_ok home adm r'"
proof (cases "Mapping.lookup (cr_calls r) call_id")
  case (Some call)
  show ?thesis
  proof (cases "in_call cid call")
    case True
    obtain rt1 gone where loop: "route_loop f cid ch (ca_participants call) = (rt1, ch', gone)"
      and r': "r' = r\<lparr>cr_calls := Mapping.update call_id (call\<lparr>ca_last_activity := now,
        ca_participants := filter (\<lambda>(c, _). c \<notin> set gone) (ca_participants call)\<rparr>) (cr_calls r), cr_shed := cr_shed r + of_nat (rt_shed rt1)\<rparr>"
      using route Some True by (auto simp: route_def Let_def split: prod.splits)
    have "filter (\<lambda>(c, _). c \<notin> set gone) (ca_participants call) \<noteq> []"
      using True route_loop_facts [OF loop] by (force simp: in_call_iff filter_empty_conv)
    from entry_ok_filter [OF registry_entry [OF ok Some] this]
    have "entry_ok home (adm call_id) (call\<lparr>ca_last_activity := now, ca_participants := filter (\<lambda>(c, _). c \<notin> set gone) (ca_participants call)\<rparr>)"
      by (auto simp: entry_ok_def)
    then show ?thesis
      unfolding r' registry_ok_counters by (rule registry_ok_update [OF ok]) (simp add: Some)
  qed (use route Some ok in \<open>auto simp: route_def Let_def\<close>)
qed (use route ok in \<open>auto simp: route_def Let_def\<close>)

lemma refuse_call_registry [simp]: "cw_registry (snd (refuse_call sender err w)) = cw_registry w"
  by (simp add: refuse_call_def case_prod_unfold Let_def)

lemma apply_kind_ok:
  assumes "registry_ok home adm r" "apply_kind now call_id grp kind cid (home cid) r = (res, r')" "call_joins kind \<Longrightarrow> adm call_id cid grp"
  shows "registry_ok home adm r'"
  using assms by (auto simp: apply_kind_def join_ok leave_ok split: if_splits option.splits)

lemma call_step_ok:
  assumes ok: "registry_ok home adm (cw_registry w)" and adm: "\<And>i c g. admits c i g op \<Longrightarrow> adm i c g"
  shows "registry_ok home adm (cw_registry (call_step home op w))"
proof (cases op)
  case (CallFrame dbo failed now s cid call_id grp epoch kind body)
  obtain res r where ap: "apply_kind now call_id grp kind cid (home cid) (cw_registry w) = (res, r)"
    by (cases "apply_kind now call_id grp kind cid (home cid) (cw_registry w)")
  have "registry_ok home adm r" if "authorize_group dbo failed s grp = Inr ()"
    by (rule apply_kind_ok [OF ok ap]) (use adm [of cid call_id grp] that CallFrame in simp)
  then show ?thesis
    using ok ap by (auto simp: CallFrame publish_call_def Let_def case_prod_unfold split: sum.splits)
next
  case (MediaFrame now cid call_id stream seq ct)
  obtain res ch r where "route now call_id cid (FMedia call_id stream seq ct) (cw_ch w) (cw_registry w) = (res, ch, r)"
    by (cases "route now call_id cid (FMedia call_id stream seq ct) (cw_ch w) (cw_registry w)")
  then show ?thesis
    using route_ok [OF ok] by (auto simp: MediaFrame publish_media_def Let_def split: sum.splits)
next
  case (CallSweep now idle)
  then show ?thesis
    using registry_ok_filter [OF ok] by (simp add: sweep_idle_def drop_idle_def Let_def)
qed (use ok forget_ok in \<open>auto simp: case_prod_unfold Let_def\<close>)

lemma call_run_ok:
  assumes "registry_ok home (\<lambda>i c g. \<exists>op\<in>set past. admits c i g op) (cw_registry w)"
  shows "registry_ok home (\<lambda>i c g. \<exists>op\<in>set (past @ ops). admits c i g op) (cw_registry (fold (call_step home) ops w))"
  using assms
proof (induction ops arbitrary: past w)
  case (Cons op ops)
  have "registry_ok home (\<lambda>i c g. \<exists>op\<in>set (past @ [op]). admits c i g op) (cw_registry (call_step home op w))"
    by (rule call_step_ok [OF registry_ok_mono [OF Cons.prems]]) auto
  from Cons.IH [OF this] show ?case
    by simp
qed simp

lemma registry_new_ok: "registry_ok home adm (registry_new n)"
  by (simp add: registry_ok_def registry_new_def open_calls_def Mapping.size_def)

lemma registry_max: "cr_max_concurrent (cw_registry (fold (call_step home) ops w)) = cr_max_concurrent (cw_registry w)"
proof -
  have "cr_max_concurrent (cw_registry (call_step home op w)) = cr_max_concurrent (cw_registry w)" for op w
    by (cases op) (auto simp: publish_call_def publish_media_def apply_kind_def join_def leave_def forget_def sweep_idle_def route_def
      Let_def case_prod_unfold split: sum.splits option.splits if_splits)
  then show ?thesis
    by (induction ops arbitrary: w) auto
qed

text \<open>C14. The call table stays within what the operator sized. Whatever frames arrive and connections end, no more calls are
  open than the configured number, and every call has between one and five participants, none twice, each
  with its own connection's channel.\<close>

theorem calls_bounded:
  assumes "cw_registry w = registry_new n"
  shows "open_calls (cw_registry (fold (call_step home) ops w)) \<le> n \<and>
    (\<forall>call_id call. Mapping.lookup (cr_calls (cw_registry (fold (call_step home) ops w))) call_id = Some call \<longrightarrow>
      1 \<le> length (ca_participants call) \<and> length (ca_participants call) \<le> 5 \<and> distinct (map fst (ca_participants call)) \<and>
      (\<forall>(cid, sender)\<in>set (ca_participants call). sender = home cid))"
  using call_run_ok [of home "[]" w ops] registry_new_ok [of home _ n] registry_max [of home ops w] assms
  by (fastforce simp: registry_ok_def entry_ok_def registry_new_def MAX_PARTICIPANTS_PER_CALL_def Suc_le_eq)

text \<open>C13. Media never leaves the room. Over any life of the process, a media frame of one connection changes another
  connection's channel only when both were admitted to that call by a joining frame of their own, both for the
  same group and both with that group authorised for the session that sent it; a sender outside the call
  reaches nobody.\<close>

theorem media_stays_in_call:
  assumes start: "cw_registry w0 = registry_new n" and inj: "inj home" and run: "fold (call_step home) ops w0 = w"
    and media: "publish_media (home cid) now cid call_id stream seq ct w = (ok, w')"
    and reached: "cid' \<noteq> cid" "cw_ch w' (home cid') \<noteq> cw_ch w (home cid')"
  shows "\<exists>grp. (\<exists>op\<in>set ops. admits cid call_id grp op) \<and> (\<exists>op\<in>set ops. admits cid' call_id grp op)"
proof -
  have ok: "registry_ok home (\<lambda>i c g. \<exists>op\<in>set ops. admits c i g op) (cw_registry w)"
    using call_run_ok [of home "[]" w0 ops] registry_new_ok start run by simp
  obtain res ch r where route: "route now call_id cid (FMedia call_id stream seq ct) (cw_ch w) (cw_registry w) = (res, ch, r)"
    by (cases "route now call_id cid (FMedia call_id stream seq ct) (cw_ch w) (cw_registry w)")
  have "cw_ch w' (home cid') = ch (home cid')"
    using media route reached(1) inj_eq [OF inj]
    by (auto simp: publish_media_def refuse_call_def answer_def Let_def split: sum.splits prod.splits)
  then have changed: "ch (home cid') \<noteq> cw_ch w (home cid')"
    using reached(2) by simp
  then obtain call where call: "Mapping.lookup (cr_calls (cw_registry w)) call_id = Some call" "in_call cid call"
    using route by (auto simp: route_def Let_def split: option.splits if_splits)
  then obtain rt1 gone where loop: "route_loop (FMedia call_id stream seq ct) cid (cw_ch w) (ca_participants call) = (rt1, ch, gone)"
    using route by (auto simp: route_def Let_def split: prod.splits)
  obtain c where c: "(c, home cid') \<in> set (ca_participants call)"
    using route_loop_facts [OF loop] changed by blast
  note entry = registry_entry [OF ok call(1)]
  have "c = cid'"
    using entry c inj_eq [OF inj] by (auto simp: entry_ok_def)
  then show ?thesis
    using entry c call(2) by (force simp: entry_ok_def in_call_iff)
qed

definition sample_call_world :: call_world where
  "sample_call_world = \<lparr>cw_ch = (\<lambda>_. outbound_channel), cw_hub = hub_new, cw_registry = registry_new 4\<rparr>"

text \<open>Two sessions of the workspace, a caller and a callee.\<close>

definition sample_offer :: "call_kind \<Rightarrow> connection_id \<Rightarrow> call_op" where
  "sample_offer kind cid = CallFrame
     (Some \<lparr>db_groups = [[9] \<mapsto> \<lparr>gr_workspace = ''w'', gr_next_seq = 1, gr_frozen = None\<rparr>], db_envelopes = [], db_used = Map.empty\<rparr>) False 5
     (bind_workspace ''w'' (session_new \<lparr>scfg_min_encryption = MinMls, scfg_write_mode = WriteFull, scfg_access_set = Enforce, scfg_live = LiveOn, scfg_calls = CallOn\<rparr> 0 []))
     cid [7] [9] 0 kind []"

lemma inj_unat64: "inj (unat :: u64 \<Rightarrow> nat)"
  by (simp add: inj_def unsigned_word_eqI)

lemma drop_idle_empty [simp]: "drop_idle now idle Mapping.empty = Mapping.empty"
  by (rule mapping_eqI) (simp add: drop_idle_def Mapping.lookup_filter)

lemma drop_idle_update:
  "now - ca_last_activity call < idle \<Longrightarrow> drop_idle now idle (Mapping.update k call m) = Mapping.update k call (drop_idle now idle m)"
  by (rule mapping_eqI) (simp add: drop_idle_def Mapping.lookup_filter lookup_update')

lemma sample_call_run:
  "cw_ch (fold (call_step unat) [sample_offer Offer 1, sample_offer Answer 2] sample_call_world) = (\<lambda>_. outbound_channel)"
  "Mapping.lookup (cr_calls (cw_registry (fold (call_step unat) [sample_offer Offer 1, sample_offer Answer 2] sample_call_world))) [7] =
    Some \<lparr>ca_group = [9], ca_participants = [(1, 1), (2, 2)], ca_last_activity = 5\<rparr>"
proof -
  have "held_calls cid Mapping.empty = 0" for cid
  proof -
    have "Mapping.filter (\<lambda>_. in_call cid) Mapping.empty = (Mapping.empty :: (bytes, call_entry) mapping)"
      by (rule mapping_eqI) (simp add: Mapping.lookup_filter)
    then show ?thesis by (simp add: held_calls_def)
  qed
  note eval = this sample_call_world_def sample_offer_def publish_call_def authorize_group_def workspace_of_def bind_workspace_def apply_kind_def
    call_joins_def join_def registry_new_def open_calls_def call_share_def drop_idle_update CALL_IDLE_MS_def in_call_def
    MAX_PARTICIPANTS_PER_CALL_def fanout_frame_def hub_new_def Let_def
  show "cw_ch (fold (call_step unat) [sample_offer Offer 1, sample_offer Answer 2] sample_call_world) = (\<lambda>_. outbound_channel)"
    by (simp add: eval)
  show "Mapping.lookup (cr_calls (cw_registry (fold (call_step unat) [sample_offer Offer 1, sample_offer Answer 2] sample_call_world))) [7] =
    Some \<lparr>ca_group = [9], ca_participants = [(1, 1), (2, 2)], ca_last_activity = 5\<rparr>"
    by (simp add: eval)
qed

theorem calls_bounded_witness:
  "let r = cw_registry (fold (call_step unat) [sample_offer Offer 1, sample_offer Answer 2] sample_call_world) in
    open_calls r \<le> 4 \<and>
    (\<exists>call. Mapping.lookup (cr_calls r) [7] = Some call \<and> length (ca_participants call) = 2 \<and> distinct (map fst (ca_participants call)))"
  using calls_bounded [of sample_call_world 4 unat "[sample_offer Offer 1, sample_offer Answer 2]"] sample_call_run(2)
  unfolding Let_def by (simp add: sample_call_world_def del: fold_simps)

theorem media_stays_in_call_witness:
  "\<exists>grp. (\<exists>op\<in>set [sample_offer Offer 1, sample_offer Answer 2]. admits 1 [7] grp op) \<and>
    (\<exists>op\<in>set [sample_offer Offer 1, sample_offer Answer 2]. admits 2 [7] grp op)"
proof -
  let ?ops = "[sample_offer Offer 1, sample_offer Answer 2]"
  let ?w = "fold (call_step unat) ?ops sample_call_world"
  obtain ok w' where media: "publish_media (unat (1 :: u64)) 6 1 [7] [0] 0 [] ?w = (ok, w')"
    by (cases "publish_media (unat (1 :: u64)) 6 1 [7] [0] 0 [] ?w")
  have "ob_queue (cw_ch w' (unat (2 :: u64))) = [OutFrame (FMedia [7] [0] 0 [])]"
    using media unfolding publish_media_def route_def sample_call_run
    by (auto simp: in_call_def Let_def try_queue_def try_send_def permits_for_def queued_bytes_def FRAME_OVERHEAD_def outbound_channel_def
      SEND_QUEUE_BYTE_BUDGET_def SEND_QUEUE_BOUND_def)
  moreover have "ob_queue (cw_ch ?w (unat (2 :: u64))) = []"
    unfolding sample_call_run by (simp add: outbound_channel_def)
  ultimately have "cw_ch w' (unat (2 :: u64)) \<noteq> cw_ch ?w (unat (2 :: u64))"
    by force
  with media show ?thesis
    using media_stays_in_call [of sample_call_world 4 unat ?ops ?w 1 6 "[7]" "[0]" 0 "[]" ok w' 2]
    by (simp add: inj_unat64 sample_call_world_def del: fold.simps)
qed

end
