(* ===== verification/Spec2Isabelle.thy ===== *)
theory Spec2Isabelle
  imports Sync Session_Life Deadline Replay Calls
begin

text \<open>
  A verification development of the Weald relay (\<open>src/backend/wealdrelay/src\<close>), the server that
  stores end-to-end encrypted envelopes for groups and forwards them between devices. The relay
  never reads a ciphertext: it decodes frames, checks that a device may speak, assigns sequence
  numbers, reconciles what a device is missing and fans out what arrives. A connection's frames go
  to its session, which answers them or defers work; the work charges the budgets, writes the log,
  reconciles and answers over the connection's bounded queue.

  Theories, in dependency order:

  \<^item> \<open>Prelude\<close>: machine integers and the standard library operations on them.
  \<^item> \<open>Cbor\<close> (\<open>cbor.rs\<close>) and \<open>Codec\<close>: the encoders and the reader of the canonical CBOR subset, the proof
    library of the wire formats and the locale \<open>wire_codec\<close>. A read accepts exactly what the
    encoder writes.
  \<^item> \<open>Error_Codes\<close>, \<open>Envelope\<close>, \<open>Push\<close>, \<open>Frame\<close> (\<open>frame.rs\<close>, \<open>envelope/mod.rs\<close>, \<open>push/mod.rs\<close>): the
    registry, the envelope and the twenty-five frames, each codec an exact round trip.
  \<^item> \<open>Negentropy\<close>, \<open>Reconcile\<close>, \<open>Exchange\<close> (\<open>negentropy/\<close>): the reconciliation messages, both roles and the
    exchange between them. Nothing is lost: when it ends, what the client lacked was pushed.
  \<^item> \<open>Outbound\<close> (\<open>ws.rs\<close>): the send queue with its slots and byte budget, and both ways of queueing a run; a sender that
    waits holds its permits between two steps, and no permit is lost whatever the others do in between.
  \<^item> \<open>Database\<close>, \<open>Accept\<close>, \<open>Log\<close> (\<open>migrations/\<close>, \<open>accept.rs\<close>, \<open>log_budget.rs\<close>, \<open>log.rs\<close>): the tables, the accept
    transaction with every fault and concurrent writers, the reads.
  \<^item> \<open>Sync\<close> (\<open>sync.rs\<close>): a reconciliation round over the window of the log (the first 100,000 rows from the floor of
    the message), cut to what the queue takes, refines the abstract exchange over what is in view; what
    lies above the window can be settled unseen, which is proved too. A backfill is a prefix of the log.
  \<^item> \<open>Rate_Window\<close>, \<open>Budgets\<close> (\<open>session.rs\<close>, \<open>send_budget.rs\<close>, \<open>group_ingress.rs\<close>, \<open>media/mod.rs\<close>, \<open>push/store.rs\<close>,
    \<open>calls/mod.rs\<close>): the locales of windowed limits and the limits that are instances of them.
  \<^item> \<open>Deadline\<close> (\<open>deadline.rs\<close> and the loop of \<open>ws::serve_connection\<close>): when a connection is closed for its silence.
  \<^item> \<open>Session\<close>, \<open>Session_Life\<close> (\<open>session.rs\<close>): the frame table, the policies and what holds over every life of a
    connection.
  \<^item> \<open>Hub\<close> (\<open>hub.rs\<close>): subscriptions, held handshakes, fan-out, owed notices and revocation over a store of channels.
    No live stream has a silent hole, no subscriber affects another, a revoked principal keeps no socket.
  \<^item> \<open>Handshake\<close> (\<open>handshake/\<close>): the ordered handshake log of a group under database faults, and its pages.
  \<^item> \<open>Replay\<close> (\<open>sync.rs\<close>, \<open>ws.rs\<close>): publishing, replaying and releasing handshakes as the interleaved steps of the
    connections' tasks, and the interleaving that loses a commit.
  \<^item> \<open>Calls\<close> (\<open>calls/\<close>, \<open>ws::authorize_group\<close>): the call registry and its two frames. The table is bounded and media
    reaches only connections admitted to the call.

  Machine integers keep their width (\<open>u8\<close> to \<open>u64\<close> are words, \<open>usize\<close> is \<open>nat\<close>, PostgreSQL integers are \<open>int\<close>).
  A fallible function returns a sum whose left side is the error. BLAKE3, the signature scheme and the
  process secret are parameters. Loops are structural recursion or carry a termination proof. The exchange
  is a relation over any number of rounds: what it has delivered when the client has nothing more to say is
  proved, and that every split narrows its span; that two given peers reach that point is not.

  Not modelled: HTTP, TLS and socket input and output, PostgreSQL itself beyond the statements the accept and
  read paths issue, object storage, metrics and logging, and the client library over OpenMLS. The signed access sets,
  invites, key packages, recovery wraps, lifecycle records and blobs are frames with opaque payloads here:
  the session defers their work, and their stores are left out.
\<close>

end
